(* ===== verification/Prelude.thy ===== *)
theory Prelude
  imports Main "HOL-Library.Word"
begin

text \<open>
  Shared vocabulary of the development.

  \<^item> The integer types of the C++ sources: \<open>uint8_t\<close>, \<open>uint16_t\<close>, \<open>uint32_t\<close>
    and \<open>uint64_t\<close> are words; a C++ \<open>int\<close> is a HOL \<^typ>\<open>int\<close> whose additions go
    through \<open>add32\<close>/\<open>sub32\<close>, which make signed overflow (undefined behaviour) an error
    value; the implicit conversions \<open>int \<rightarrow> size_t\<close> and \<open>size_t \<rightarrow> int\<close> are the
    functions \<open>to_size_t\<close> and \<open>to_int32\<close>.
  \<^item> Failures: every exception, assertion failure and undefined operation of the modelled
    code is a value of \<open>err\<close>, and a fallible operation returns \<open>'a res\<close>.
  \<^item> Decimal and hexadecimal rendering of numbers as the standard streams do it.
  \<^item> The interface \<open>invariant_system\<close>, through which the step relations of the
    components get their "holds in every reachable state" theorems.
\<close>

section \<open>Machine integers\<close>

type_synonym u8 = "8 word"
type_synonym u16 = "16 word"
type_synonym u32 = "32 word"
type_synonym u64 = "64 word"

named_theorems cint \<open>conversions and checked arithmetic of C++ integers\<close>

definition int32_ok :: "int \<Rightarrow> bool" where
  "int32_ok x \<longleftrightarrow> - (2 ^ 31) \<le> x \<and> x < 2 ^ 31"

definition to_size_t :: "int \<Rightarrow> nat" where
  "to_size_t i = nat (i mod 2 ^ 64)"

definition to_int32 :: "int \<Rightarrow> int" where
  "to_int32 x = (x + 2 ^ 31) mod 2 ^ 32 - 2 ^ 31"

text \<open>The quotient of C++ is rounded towards zero; the remainder takes the sign of the dividend.\<close>

definition cmod :: "int \<Rightarrow> int \<Rightarrow> int" where
  "cmod a b = sgn a * (\<bar>a\<bar> mod \<bar>b\<bar>)"

definition cdiv :: "int \<Rightarrow> int \<Rightarrow> int" where
  "cdiv a b = sgn a * sgn b * (\<bar>a\<bar> div \<bar>b\<bar>)"

lemma cdiv_nonneg [cint]: "0 \<le> a \<Longrightarrow> 0 < b \<Longrightarrow> cdiv a b = a div b"
  by (cases "a = 0") (simp_all add: cdiv_def)

lemma cmod_nonneg [cint]: "0 \<le> a \<Longrightarrow> 0 < b \<Longrightarrow> cmod a b = a mod b"
  by (cases "a = 0") (simp_all add: cmod_def)

section \<open>Failures as values\<close>

datatype err =
    runtime_error string
  | length_error
  | out_of_range
  | invalid_argument
  | AssertionFailed
  | NullDereference
  | OutOfBounds
  | SignedOverflow
  | DivisionByZero
  | BadConversion

type_synonym 'a res = "err + 'a"

definition bindE :: "'a res \<Rightarrow> ('a \<Rightarrow> 'b res) \<Rightarrow> 'b res" where
  "bindE r f = (case r of Inl e \<Rightarrow> Inl e | Inr x \<Rightarrow> f x)"

definition add32 :: "int \<Rightarrow> int \<Rightarrow> int res" where
  "add32 a b = (if int32_ok (a + b) then Inr (a + b) else Inl SignedOverflow)"

definition sub32 :: "int \<Rightarrow> int \<Rightarrow> int res" where
  "sub32 a b = (if int32_ok (a - b) then Inr (a - b) else Inl SignedOverflow)"

lemma bindE_Inl [simp]: "bindE (Inl e) f = Inl e"
  by (simp add: bindE_def)

lemma bindE_Inr [simp]: "bindE (Inr x) f = f x"
  by (simp add: bindE_def)

lemma bindE_eq_Inr [simp]: "bindE r f = Inr y \<longleftrightarrow> (\<exists>x. r = Inr x \<and> f x = Inr y)"
  by (cases r) auto

lemma add32_eq_Inr [cint]: "add32 a b = Inr c \<longleftrightarrow> int32_ok (a + b) \<and> c = a + b"
  by (auto simp: add32_def)

lemma sub32_eq_Inr [cint]: "sub32 a b = Inr c \<longleftrightarrow> int32_ok (a - b) \<and> c = a - b"
  by (auto simp: sub32_def)

lemma add32_ok [cint]: "int32_ok (a + b) \<Longrightarrow> add32 a b = Inr (a + b)"
  by (simp add: add32_def)

lemma sub32_ok [cint]: "int32_ok (a - b) \<Longrightarrow> sub32 a b = Inr (a - b)"
  by (simp add: sub32_def)

lemma int32_ok_between: "int32_ok a \<Longrightarrow> int32_ok c \<Longrightarrow> a \<le> b \<Longrightarrow> b \<le> c \<Longrightarrow> int32_ok b"
  by (auto simp: int32_ok_def)

lemma to_size_t_nonneg [cint]: "0 \<le> i \<Longrightarrow> int32_ok i \<Longrightarrow> to_size_t i = nat i"
  by (simp add: to_size_t_def int32_ok_def)

lemma to_size_t_small: "0 \<le> i \<Longrightarrow> i < 2 ^ 64 \<Longrightarrow> to_size_t i = nat i"
  by (simp add: to_size_t_def)

lemma to_size_t_neg: "i < 0 \<Longrightarrow> int32_ok i \<Longrightarrow> to_size_t i = nat (2 ^ 64 + i)"
proof -
  assume "i < 0" and "int32_ok i"
  then have "i mod 2 ^ 64 = (2 ^ 64 + i) mod 2 ^ 64" and "0 \<le> 2 ^ 64 + i" and "2 ^ 64 + i < 2 ^ 64"
    by (simp_all add: int32_ok_def)
  then show ?thesis by (simp only: to_size_t_def mod_pos_pos_trivial)
qed

lemma to_size_t_neg_large: "i < 0 \<Longrightarrow> int32_ok i \<Longrightarrow> 2 ^ 63 \<le> to_size_t i"
  by (simp add: to_size_t_neg int32_ok_def)

lemma to_int32_id [cint]: "int32_ok x \<Longrightarrow> to_int32 x = x"
  by (simp add: to_int32_def int32_ok_def)

lemma int32_ok_to_int32 [simp, intro]: "int32_ok (to_int32 x)"
proof -
  have "0 \<le> (x + 2 ^ 31) mod 2 ^ 32" and "(x + 2 ^ 31) mod 2 ^ 32 < 2 ^ 32"
    by simp_all
  then show ?thesis by (simp add: int32_ok_def to_int32_def)
qed

text \<open>\<open>std::vector::at\<close> with an \<open>int\<close> index, and a pointer that may dangle.\<close>

definition vec_at :: "'a list \<Rightarrow> int \<Rightarrow> 'a res" where
  "vec_at xs i = (let k = to_size_t i in if k < length xs then Inr (xs ! k) else Inl out_of_range)"

definition deref :: "'a list \<Rightarrow> nat \<Rightarrow> 'a res" where
  "deref heap p = (if p < length heap then Inr (heap ! p) else Inl NullDereference)"

lemma vec_at_ok [simp]: "i < length xs \<Longrightarrow> int32_ok (int i) \<Longrightarrow> vec_at xs (int i) = Inr (xs ! i)"
  by (simp add: vec_at_def to_size_t_nonneg)

lemma vec_at_none: "0 \<le> i \<Longrightarrow> int32_ok i \<Longrightarrow> length xs \<le> nat i \<Longrightarrow> vec_at xs i = Inl out_of_range"
  by (simp add: vec_at_def to_size_t_nonneg)

lemma deref_ok [simp]: "p < length heap \<Longrightarrow> deref heap p = Inr (heap ! p)"
  by (simp add: deref_def)

section \<open>Operations that may block\<close>

text \<open>
  An operation that waits for another thread returns \<^term>\<open>None\<close> as long as it waits; once
  it can finish, it fails or returns a value.
\<close>

type_synonym 'a act = "'a res option"

definition bindA :: "'a act \<Rightarrow> ('a \<Rightarrow> 'b act) \<Rightarrow> 'b act" where
  "bindA r f = (case r of None \<Rightarrow> None | Some (Inl e) \<Rightarrow> Some (Inl e) | Some (Inr x) \<Rightarrow> f x)"

abbreviation done_act :: "'a \<Rightarrow> 'a act" where
  "done_act x \<equiv> Some (Inr x)"

abbreviation fail_act :: "err \<Rightarrow> 'a act" where
  "fail_act e \<equiv> Some (Inl e)"

lemma bindA_None [simp]: "bindA None f = None"
  by (simp add: bindA_def)

lemma bindA_fail [simp]: "bindA (fail_act e) f = fail_act e"
  by (simp add: bindA_def)

lemma bindA_done [simp]: "bindA (done_act x) f = f x"
  by (simp add: bindA_def)

lemma bindA_eq_done [simp]:
  "bindA r f = done_act y \<longleftrightarrow> (\<exists>x. r = done_act x \<and> f x = done_act y)"
  by (auto simp: bindA_def split: option.splits sum.splits)

section \<open>Static instances\<close>

text \<open>A static pointer that is set once, under a \<open>std::once_flag\<close>, to what \<open>new (std::nothrow)\<close> returns.\<close>

record 'a static_instance =
  si_ins :: "'a option"
  si_once :: bool

definition static_get :: "'a option \<Rightarrow> 'a static_instance \<Rightarrow> 'a option \<times> 'a static_instance" where
  "static_get new_object s =
     (let s' = (if si_ins s = None \<and> \<not> si_once s then s\<lparr>si_ins := new_object, si_once := True\<rparr> else s)
      in (si_ins s', s'))"

text \<open>Every later call returns what the first one returned, also when that was null.\<close>

lemma static_get_stable: "static_get x s = (r, s') \<Longrightarrow> static_get y s' = (r, s')"
  by (auto simp: static_get_def Let_def split: if_splits)

section \<open>Reachable states and invariants\<close>

text \<open>
  A component with interleaved operations is a step relation. The interface promises that
  every step keeps \<open>inv\<close>; its client lemma is that every reachable state has it.
\<close>

locale invariant_system =
  fixes step :: "'s \<Rightarrow> 's \<Rightarrow> bool"
    and inv :: "'s \<Rightarrow> bool"
  assumes step_inv: "inv s \<Longrightarrow> step s t \<Longrightarrow> inv t"
begin

lemma reachable_inv:
  assumes "step\<^sup>*\<^sup>* s t" and "inv s"
  shows "inv t"
  using assms by (induction rule: rtranclp_induct) (auto intro: step_inv)

end

end
