(* ===== verification/Wait_Queue.thy ===== *)
theory Wait_Queue
  imports Prelude
begin

text \<open>
  The blocking queue of \<open>src/src/include/queue.h\<close>: the class \<open>Queue<T>\<close> and the wait
  strategy it polls.

  The mutex makes \<open>Enqueue\<close> and \<open>Dequeue\<close> atomic, so each is one function on the queue
  state. The loops \<open>WaitEnqueue\<close> and \<open>WaitDequeue\<close> release the processor in
  \<open>EmptyWait\<close>; what the other threads do to the queue during the successive waits is the
  argument \<open>env\<close>, one queue transformer per wait, and a loop that has used up \<open>env\<close>
  without finishing is \<^term>\<open>None\<close> (still waiting). The finer interleaving, in which the
  threads take turns between any two accesses to the shared queue, is the step relation
  \<open>queue_step\<close>.
\<close>

section \<open>Model\<close>

subsection \<open>The wait strategy\<close>

datatype WaitStrategy = BlockWaitStrategy

fun EmptyWait :: "WaitStrategy \<Rightarrow> bool" where
  "EmptyWait BlockWaitStrategy = True"

subsection \<open>The queue and its atomic operations\<close>

record 'a Queue =
  q_pool :: "'a list"
  q_pool_size :: int
  q_name :: string
  q_uuid :: string
  q_wait :: "WaitStrategy option"
  q_break :: bool

definition Queue_default :: "string \<Rightarrow> 'a Queue" where
  "Queue_default uuid =
     \<lparr>q_pool = [], q_pool_size = 0, q_name = [], q_uuid = uuid, q_wait = None, q_break = False\<rparr>"

definition Queue_Init :: "'a Queue \<Rightarrow> int \<Rightarrow> WaitStrategy \<Rightarrow> bool \<times> 'a Queue" where
  "Queue_Init q sz strategy = (True, q\<lparr>q_pool_size := sz, q_wait := Some strategy\<rparr>)"

definition Queue_new :: "string \<Rightarrow> string \<Rightarrow> int \<Rightarrow> 'a Queue res" where
  "Queue_new uuid name sz =
     (let (res, q) = Queue_Init ((Queue_default uuid)\<lparr>q_name := name\<rparr>) sz BlockWaitStrategy
      in if \<not> res then Inl (runtime_error ''Queue init failed, no enough memory left.'')
         else Inr q)"

definition Enqueue :: "'a Queue \<Rightarrow> 'a \<Rightarrow> (bool \<times> 'a Queue) res" where
  "Enqueue q element =
     (if length (q_pool q) \<ge> to_size_t (q_pool_size q) then Inr (False, q)
      else let q' = q\<lparr>q_pool := q_pool q @ [element]\<rparr>
           in case q_wait q' of None \<Rightarrow> Inl NullDereference | Some _ \<Rightarrow> Inr (True, q'))"

definition Dequeue :: "'a Queue \<Rightarrow> 'a \<Rightarrow> ((bool \<times> 'a) \<times> 'a Queue) res" where
  "Dequeue q element =
     (case q_pool q of [] \<Rightarrow> Inr ((False, element), q)
      | x # xs \<Rightarrow>
          let q' = q\<lparr>q_pool := xs\<rparr>
          in case q_wait q' of None \<Rightarrow> Inl NullDereference | Some _ \<Rightarrow> Inr ((True, x), q'))"

definition BreakAllWait :: "'a Queue \<Rightarrow> 'a Queue res" where
  "BreakAllWait q =
     (let q' = q\<lparr>q_break := True\<rparr>
      in case q_wait q' of None \<Rightarrow> Inl NullDereference | Some _ \<Rightarrow> Inr q')"

text \<open>The destructor.\<close>

definition Queue_destroy :: "'a Queue \<Rightarrow> 'a Queue res" where
  "Queue_destroy q =
     bindE (if q_wait q \<noteq> None then BreakAllWait q else Inr q) (\<lambda>q'. Inr (q'\<lparr>q_pool := []\<rparr>))"

definition Queue_Size :: "'a Queue \<Rightarrow> int" where
  "Queue_Size q = to_int32 (int (length (q_pool q)))"

definition Queue_Empty :: "'a Queue \<Rightarrow> bool" where
  "Queue_Empty q \<longleftrightarrow> Queue_Size q = 0"

subsection \<open>The waiting loops\<close>

type_synonym 'a interference = "('a Queue \<Rightarrow> 'a Queue) list"

fun WaitEnqueue :: "'a interference \<Rightarrow> 'a \<Rightarrow> 'a Queue \<Rightarrow> (bool \<times> 'a Queue) res option" where
  "WaitEnqueue env element q =
     (if q_break q then Some (Inr (False, q))
      else case Enqueue q element of
             Inl e \<Rightarrow> Some (Inl e)
           | Inr (True, q') \<Rightarrow> Some (Inr (True, q'))
           | Inr (False, q') \<Rightarrow>
               (case q_wait q' of
                  None \<Rightarrow> Some (Inl NullDereference)
                | Some w \<Rightarrow>
                    if EmptyWait w
                    then case env of [] \<Rightarrow> None | e # es \<Rightarrow> WaitEnqueue es element (e q')
                    else Some (Inr (False, q'))))"

fun WaitDequeue :: "'a interference \<Rightarrow> 'a \<Rightarrow> 'a Queue \<Rightarrow> ((bool \<times> 'a) \<times> 'a Queue) res option" where
  "WaitDequeue env element q =
     (if q_break q then Some (Inr ((False, element), q))
      else case Dequeue q element of
             Inl e \<Rightarrow> Some (Inl e)
           | Inr ((True, x), q') \<Rightarrow> Some (Inr ((True, x), q'))
           | Inr ((False, x), q') \<Rightarrow>
               (case q_wait q' of
                  None \<Rightarrow> Some (Inl NullDereference)
                | Some w \<Rightarrow>
                    if EmptyWait w
                    then case env of [] \<Rightarrow> None | e # es \<Rightarrow> WaitDequeue es x (e q')
                    else Some (Inr ((False, x), q'))))"

declare WaitEnqueue.simps [simp del] WaitDequeue.simps [simp del]

subsection \<open>Threads sharing one queue\<close>

text \<open>
  A thread inside \<open>WaitEnqueue\<close> is about to read \<open>break_all_wait_\<close> (\<open>EnqTest\<close>), about
  to call \<open>Enqueue\<close> (\<open>EnqTry\<close>) or in \<open>EmptyWait\<close> (\<open>EnqWait\<close>); likewise for
  \<open>WaitDequeue\<close>. The two logs record the elements put in and taken out.
\<close>

datatype 'a qpc = Idle | EnqTest 'a | EnqTry 'a | EnqWait 'a | DeqTest | DeqTry | DeqWait

record 'a qsys =
  sys_q :: "'a Queue"
  sys_pc :: "nat \<Rightarrow> 'a qpc"
  produced :: "'a list"
  consumed :: "'a list"

definition goto :: "nat \<Rightarrow> 'a qpc \<Rightarrow> 'a qsys \<Rightarrow> 'a qsys" where
  "goto i p s = s\<lparr>sys_pc := (sys_pc s)(i := p)\<rparr>"

inductive queue_step :: "nat \<Rightarrow> 'a qsys \<Rightarrow> 'a qsys \<Rightarrow> bool" where
  call_enq: "sys_pc s i = Idle \<Longrightarrow> queue_step i s (goto i (EnqTest x) s)"
| enq_break: "sys_pc s i = EnqTest x \<Longrightarrow> q_break (sys_q s) \<Longrightarrow> queue_step i s (goto i Idle s)"
| enq_go: "sys_pc s i = EnqTest x \<Longrightarrow> \<not> q_break (sys_q s) \<Longrightarrow> queue_step i s (goto i (EnqTry x) s)"
| enq_ok: "sys_pc s i = EnqTry x \<Longrightarrow> Enqueue (sys_q s) x = Inr (True, q') \<Longrightarrow>
     queue_step i s (goto i Idle (s\<lparr>sys_q := q', produced := produced s @ [x]\<rparr>))"
| enq_full: "sys_pc s i = EnqTry x \<Longrightarrow> Enqueue (sys_q s) x = Inr (False, q') \<Longrightarrow>
     queue_step i s (goto i (EnqWait x) (s\<lparr>sys_q := q'\<rparr>))"
| enq_retry: "sys_pc s i = EnqWait x \<Longrightarrow> q_wait (sys_q s) = Some w \<Longrightarrow> EmptyWait w \<Longrightarrow>
     queue_step i s (goto i (EnqTest x) s)"
| enq_timeout: "sys_pc s i = EnqWait x \<Longrightarrow> q_wait (sys_q s) = Some w \<Longrightarrow> \<not> EmptyWait w \<Longrightarrow>
     queue_step i s (goto i Idle s)"
| call_deq: "sys_pc s i = Idle \<Longrightarrow> queue_step i s (goto i DeqTest s)"
| deq_break: "sys_pc s i = DeqTest \<Longrightarrow> q_break (sys_q s) \<Longrightarrow> queue_step i s (goto i Idle s)"
| deq_go: "sys_pc s i = DeqTest \<Longrightarrow> \<not> q_break (sys_q s) \<Longrightarrow> queue_step i s (goto i DeqTry s)"
| deq_ok: "sys_pc s i = DeqTry \<Longrightarrow> Dequeue (sys_q s) e = Inr ((True, x), q') \<Longrightarrow>
     queue_step i s (goto i Idle (s\<lparr>sys_q := q', consumed := consumed s @ [x]\<rparr>))"
| deq_empty: "sys_pc s i = DeqTry \<Longrightarrow> Dequeue (sys_q s) e = Inr ((False, x), q') \<Longrightarrow>
     queue_step i s (goto i DeqWait (s\<lparr>sys_q := q'\<rparr>))"
| deq_retry: "sys_pc s i = DeqWait \<Longrightarrow> q_wait (sys_q s) = Some w \<Longrightarrow> EmptyWait w \<Longrightarrow>
     queue_step i s (goto i DeqTest s)"
| deq_timeout: "sys_pc s i = DeqWait \<Longrightarrow> q_wait (sys_q s) = Some w \<Longrightarrow> \<not> EmptyWait w \<Longrightarrow>
     queue_step i s (goto i Idle s)"
| break_all: "sys_pc s i = Idle \<Longrightarrow> BreakAllWait (sys_q s) = Inr q' \<Longrightarrow>
     queue_step i s (s\<lparr>sys_q := q'\<rparr>)"

abbreviation any_queue_step :: "'a qsys \<Rightarrow> 'a qsys \<Rightarrow> bool" where
  "any_queue_step s t \<equiv> \<exists>i. queue_step i s t"

fun queue_run :: "nat list \<Rightarrow> 'a qsys \<Rightarrow> 'a qsys \<Rightarrow> bool" where
  "queue_run [] s t \<longleftrightarrow> s = t"
| "queue_run (i # is) s t \<longleftrightarrow> (\<exists>u. queue_step i s u \<and> queue_run is u t)"

definition queue_start :: "'a Queue \<Rightarrow> 'a qsys" where
  "queue_start q = \<lparr>sys_q = q, sys_pc = (\<lambda>_. Idle), produced = q_pool q, consumed = []\<rparr>"

section \<open>Lemmas\<close>

subsection \<open>What each operation does\<close>

definition queue_wf :: "'a Queue \<Rightarrow> bool" where
  "queue_wf q \<longleftrightarrow> q_wait q \<noteq> None \<and> length (q_pool q) \<le> to_size_t (q_pool_size q)"

abbreviation queue_cap :: "'a Queue \<Rightarrow> nat" where
  "queue_cap q \<equiv> to_size_t (q_pool_size q)"

lemma EmptyWait_True [simp]: "EmptyWait w"
  by (cases w) simp

lemma Queue_new_eq: "Queue_new uuid name sz =
    Inr \<lparr>q_pool = [], q_pool_size = sz, q_name = name, q_uuid = uuid,
         q_wait = Some BlockWaitStrategy, q_break = False\<rparr>"
  by (simp add: Queue_new_def Queue_Init_def Queue_default_def)

lemma queue_wf_new: "Queue_new uuid name sz = Inr q \<Longrightarrow> queue_wf q"
  by (auto simp: Queue_new_eq queue_wf_def)

lemma Enqueue_room: "queue_wf q \<Longrightarrow> length (q_pool q) < queue_cap q \<Longrightarrow>
    Enqueue q x = Inr (True, q\<lparr>q_pool := q_pool q @ [x]\<rparr>)"
  by (auto simp: Enqueue_def queue_wf_def)

lemma Enqueue_full: "queue_cap q \<le> length (q_pool q) \<Longrightarrow> Enqueue q x = Inr (False, q)"
  by (simp add: Enqueue_def)

lemma Enqueue_cases:
  assumes "queue_wf q"
  obtains (room) "length (q_pool q) < queue_cap q"
      "Enqueue q x = Inr (True, q\<lparr>q_pool := q_pool q @ [x]\<rparr>)"
    | (full) "length (q_pool q) = queue_cap q" "Enqueue q x = Inr (False, q)"
  using assms by (metis Enqueue_full Enqueue_room le_eq_less_or_eq order_refl queue_wf_def)

lemma Enqueue_TrueD: "Enqueue q x = Inr (True, q') \<Longrightarrow>
    q' = q\<lparr>q_pool := q_pool q @ [x]\<rparr> \<and> length (q_pool q) < queue_cap q"
  by (auto simp: Enqueue_def Let_def split: if_splits option.splits)

lemma Enqueue_FalseD: "Enqueue q x = Inr (False, q') \<Longrightarrow> q' = q"
  by (auto simp: Enqueue_def Let_def split: if_splits option.splits)

lemma Dequeue_Cons: "queue_wf q \<Longrightarrow> q_pool q = x # xs \<Longrightarrow>
    Dequeue q e = Inr ((True, x), q\<lparr>q_pool := xs\<rparr>)"
  by (auto simp: Dequeue_def queue_wf_def)

lemma Dequeue_Nil: "q_pool q = [] \<Longrightarrow> Dequeue q e = Inr ((False, e), q)"
  by (simp add: Dequeue_def)

lemma Dequeue_TrueD: "Dequeue q e = Inr ((True, x), q') \<Longrightarrow>
    \<exists>xs. q_pool q = x # xs \<and> q' = q\<lparr>q_pool := xs\<rparr>"
  by (auto simp: Dequeue_def Let_def split: list.splits option.splits)

lemma Dequeue_FalseD: "Dequeue q e = Inr ((False, x), q') \<Longrightarrow> q' = q \<and> x = e \<and> q_pool q = []"
  by (auto simp: Dequeue_def Let_def split: list.splits option.splits)

lemma Queue_destroy_wf: "queue_wf q \<Longrightarrow> Queue_destroy q = Inr (q\<lparr>q_break := True, q_pool := []\<rparr>)"
  by (auto simp: Queue_destroy_def BreakAllWait_def queue_wf_def)

lemma BreakAllWaitD: "BreakAllWait q = Inr q' \<Longrightarrow> q' = q\<lparr>q_break := True\<rparr>"
  by (auto simp: BreakAllWait_def Let_def split: option.splits)

lemmas queue_dests = Enqueue_TrueD Enqueue_FalseD Dequeue_TrueD Dequeue_FalseD BreakAllWaitD


subsection \<open>The waiting loops as atomic blocking operations\<close>

text \<open>
  With no interference a waiting loop either finishes at once or waits. Any run of the loop
  is such an atomic operation, applied at the first moment at which it can finish.
\<close>

definition after :: "'a interference \<Rightarrow> 'a Queue \<Rightarrow> 'a Queue" where
  "after env q = foldl (\<lambda>q e. e q) q env"

lemma after_Nil [simp]: "after [] q = q"
  by (simp add: after_def)

lemma after_Cons [simp]: "after (e # es) q = after es (e q)"
  by (simp add: after_def)

lemma WaitEnqueue_unfold:
  "WaitEnqueue env x q =
     (case WaitEnqueue [] x q of Some r \<Rightarrow> Some r
      | None \<Rightarrow> (case env of [] \<Rightarrow> None | e # es \<Rightarrow> WaitEnqueue es x (e q)))"
  by (auto simp: WaitEnqueue.simps [of env] WaitEnqueue.simps [of "[]"]
      split: sum.splits option.splits bool.splits list.splits dest: Enqueue_FalseD)

lemma WaitDequeue_unfold:
  "WaitDequeue env x q =
     (case WaitDequeue [] x q of Some r \<Rightarrow> Some r
      | None \<Rightarrow> (case env of [] \<Rightarrow> None | e # es \<Rightarrow> WaitDequeue es x (e q)))"
  by (auto simp: WaitDequeue.simps [of env] WaitDequeue.simps [of "[]"]
      split: sum.splits option.splits bool.splits list.splits dest: Dequeue_FalseD)

lemma WaitEnqueue_Nil: "queue_wf q \<Longrightarrow> WaitEnqueue [] x q =
    (if q_break q then Some (Inr (False, q))
     else if length (q_pool q) < queue_cap q
     then Some (Inr (True, q\<lparr>q_pool := q_pool q @ [x]\<rparr>)) else None)"
  by (auto simp: WaitEnqueue.simps Enqueue_room Enqueue_full queue_wf_def)

lemma WaitDequeue_Nil: "queue_wf q \<Longrightarrow> WaitDequeue [] e q =
    (if q_break q then Some (Inr ((False, e), q))
     else case q_pool q of [] \<Rightarrow> None | x # xs \<Rightarrow> Some (Inr ((True, x), q\<lparr>q_pool := xs\<rparr>)))"
  by (auto simp: WaitDequeue.simps Dequeue_Cons Dequeue_Nil queue_wf_def split: list.splits)

text \<open>
  Both loops are instances of one scheme: an operation \<open>f\<close> retried after each wait.
\<close>

locale retry_loop =
  fixes loop :: "'a interference \<Rightarrow> 'a Queue \<Rightarrow> 'r option"
  assumes unfold_loop: "loop env q =
    (case loop [] q of Some r \<Rightarrow> Some r
     | None \<Rightarrow> (case env of [] \<Rightarrow> None | e # es \<Rightarrow> loop es (e q)))"
begin

lemma loop_Some_iff:
  "loop env q = Some r \<longleftrightarrow>
     (\<exists>k\<le>length env. loop [] (after (take k env) q) = Some r \<and>
        (\<forall>j<k. loop [] (after (take j env) q) = None))"
  (is "_ \<longleftrightarrow> ?R env q")
proof (induction env arbitrary: q)
  case Nil
  then show ?case by simp
next
  case (Cons e es)
  show ?case
  proof (cases "loop [] q")
    case None
    then have "loop (e # es) q = Some r \<longleftrightarrow> ?R es (e q)"
      by (simp add: unfold_loop [of "e # es"] Cons.IH)
    also have "\<dots> \<longleftrightarrow> ?R (e # es) q"
    proof
      assume "?R es (e q)"
      then obtain k where "k \<le> length es" "loop [] (after (take k es) (e q)) = Some r"
          "\<forall>j<k. loop [] (after (take j es) (e q)) = None" by blast
      with None show "?R (e # es) q"
        by (intro exI [of _ "Suc k"]) (auto simp: less_Suc_eq_0_disj)
    next
      assume "?R (e # es) q"
      then obtain k where k: "k \<le> Suc (length es)" "loop [] (after (take k (e # es)) q) = Some r"
          "\<forall>j<k. loop [] (after (take j (e # es)) q) = None" by auto
      with None obtain k' where "k = Suc k'" by (cases k) auto
      with k show "?R es (e q)"
        by (intro exI [of _ k']) fastforce
    qed
    finally show ?thesis .
  next
    case (Some r')
    then have "loop (e # es) q = Some r \<longleftrightarrow> r = r'"
      by (auto simp: unfold_loop [of "e # es" q])
    also have "\<dots> \<longleftrightarrow> ?R (e # es) q"
    proof
      assume "r = r'"
      with Some show "?R (e # es) q" by (intro exI [of _ 0]) simp
    next
      assume "?R (e # es) q"
      then obtain k where k: "loop [] (after (take k (e # es)) q) = Some r"
          "\<forall>j<k. loop [] (after (take j (e # es)) q) = None" by blast
      with Some have "k = 0" by (cases k) auto
      with k(1) Some show "r = r'" by simp
    qed
    finally show ?thesis .
  qed
qed

lemma loop_by_first:
  assumes now: "\<And>k. k \<le> length env \<Longrightarrow>
      loop [] (after (take k env) q) = (if ready k then Some (g k) else None)"
  shows "loop env q = map_option g (find ready [0..<Suc (length env)])"
proof (cases "find ready [0..<Suc (length env)]")
  case None
  then have "\<not> (\<exists>k. k \<in> set [0..<Suc (length env)] \<and> ready k)"
    by (simp only: find_None_iff not_False_eq_True)
  then have "\<forall>k\<le>length env. \<not> ready k"
    by (metis atLeastLessThan_iff le0 less_Suc_eq_le set_upt)
  then have "loop [] (after (take k env) q) = None" if "k \<le> length env" for k
    using that now by simp
  then have "loop env q \<noteq> Some r" for r
    unfolding loop_Some_iff [of env q] by (metis option.distinct(1))
  with None show ?thesis by (cases "loop env q") auto
next
  case (Some k)
  then have k: "k \<le> length env" "ready k" "\<forall>j<k. \<not> ready j"
    by (auto simp: find_Some_iff nth_append split: if_splits)
  then have "loop env q = Some (g k)"
    using now by (auto simp: loop_Some_iff [of env q] intro!: exI [of _ k])
  with Some show ?thesis by simp
qed

end

interpretation enq_loop: retry_loop "\<lambda>env. WaitEnqueue env x"
  for x :: 'a
  by unfold_locales (rule WaitEnqueue_unfold)

interpretation deq_loop: retry_loop "\<lambda>env. WaitDequeue env x"
  for x :: 'a
  by unfold_locales (rule WaitDequeue_unfold)


subsection \<open>The contract its clients rely on\<close>

text \<open>
  Channels and the timer manager use the queue through \<open>put\<close> and \<open>get\<close>, which block
  (\<^term>\<open>None\<close>), deliver in order, and give up once the queue has been closed.
\<close>

locale blocking_queue =
  fixes put :: "'a \<Rightarrow> 'q \<Rightarrow> (bool \<times> 'q) res option"
    and get :: "'a \<Rightarrow> 'q \<Rightarrow> ((bool \<times> 'a) \<times> 'q) res option"
    and contents :: "'q \<Rightarrow> 'a list"
    and cap :: "'q \<Rightarrow> nat"
    and closed :: "'q \<Rightarrow> bool"
    and wf :: "'q \<Rightarrow> bool"
  assumes put_room: "wf q \<Longrightarrow> \<not> closed q \<Longrightarrow> length (contents q) < cap q \<Longrightarrow>
      \<exists>q'. put x q = Some (Inr (True, q')) \<and> contents q' = contents q @ [x] \<and>
           cap q' = cap q \<and> \<not> closed q' \<and> wf q'"
    and put_full: "wf q \<Longrightarrow> \<not> closed q \<Longrightarrow> cap q \<le> length (contents q) \<Longrightarrow> put x q = None"
    and put_closed: "wf q \<Longrightarrow> closed q \<Longrightarrow> put x q = Some (Inr (False, q))"
    and get_Cons: "wf q \<Longrightarrow> \<not> closed q \<Longrightarrow> contents q = y # ys \<Longrightarrow>
      \<exists>q'. get e q = Some (Inr ((True, y), q')) \<and> contents q' = ys \<and>
           cap q' = cap q \<and> \<not> closed q' \<and> wf q'"
    and get_Nil: "wf q \<Longrightarrow> \<not> closed q \<Longrightarrow> contents q = [] \<Longrightarrow> get e q = None"
    and get_closed: "wf q \<Longrightarrow> closed q \<Longrightarrow> get e q = Some (Inr ((False, e), q))"

text \<open>
  Clients that ignore the boolean results see a weaker contract: a message is written in the
  order of the calls and read in that order; once the channel is closed, a write has no
  effect and a read leaves the caller's variable as it was.
\<close>

primrec write_all :: "('a \<Rightarrow> 'c \<Rightarrow> 'c act) \<Rightarrow> 'a list \<Rightarrow> 'c \<Rightarrow> 'c act" where
  "write_all send [] c = done_act c"
| "write_all send (x # xs) c = bindA (send x c) (write_all send xs)"

primrec read_all :: "('a \<Rightarrow> 'c \<Rightarrow> ('a \<times> 'c) act) \<Rightarrow> 'a \<Rightarrow> nat \<Rightarrow> 'c \<Rightarrow> ('a list \<times> 'c) act" where
  "read_all recv e 0 c = done_act ([], c)"
| "read_all recv e (Suc n) c =
     bindA (recv e c) (\<lambda>(x, c'). bindA (read_all recv e n c') (\<lambda>(xs, c''). done_act (x # xs, c'')))"

locale message_channel =
  fixes send :: "'a \<Rightarrow> 'c \<Rightarrow> 'c act"
    and recv :: "'a \<Rightarrow> 'c \<Rightarrow> ('a \<times> 'c) act"
    and contents :: "'c \<Rightarrow> 'a list"
    and cap :: "'c \<Rightarrow> nat"
    and closed :: "'c \<Rightarrow> bool"
    and wf :: "'c \<Rightarrow> bool"
  assumes write_room: "wf c \<Longrightarrow> \<not> closed c \<Longrightarrow> length (contents c) < cap c \<Longrightarrow>
      \<exists>c'. send x c = done_act c' \<and> contents c' = contents c @ [x] \<and>
           cap c' = cap c \<and> \<not> closed c' \<and> wf c'"
    and write_full: "wf c \<Longrightarrow> \<not> closed c \<Longrightarrow> cap c \<le> length (contents c) \<Longrightarrow> send x c = None"
    and write_closed: "wf c \<Longrightarrow> closed c \<Longrightarrow> send x c = done_act c"
    and read_Cons: "wf c \<Longrightarrow> \<not> closed c \<Longrightarrow> contents c = y # ys \<Longrightarrow>
      \<exists>c'. recv e c = done_act (y, c') \<and> contents c' = ys \<and>
           cap c' = cap c \<and> \<not> closed c' \<and> wf c'"
    and read_Nil: "wf c \<Longrightarrow> \<not> closed c \<Longrightarrow> contents c = [] \<Longrightarrow> recv e c = None"
    and read_closed: "wf c \<Longrightarrow> closed c \<Longrightarrow> recv e c = done_act (e, c)"
begin

lemma write_all_room:
  "wf c \<Longrightarrow> \<not> closed c \<Longrightarrow> length (contents c) + length xs \<le> cap c \<Longrightarrow>
   \<exists>c'. write_all send xs c = done_act c' \<and> contents c' = contents c @ xs \<and>
        cap c' = cap c \<and> \<not> closed c' \<and> wf c'"
proof (induction xs arbitrary: c)
  case Nil
  then show ?case by simp
next
  case (Cons x xs)
  then obtain c1 where c1: "send x c = done_act c1" "contents c1 = contents c @ [x]"
      "cap c1 = cap c" "\<not> closed c1" "wf c1"
    using write_room [of c x] by auto
  with Cons.prems Cons.IH [of c1] show ?case by auto
qed

lemma read_all_contents:
  "wf c \<Longrightarrow> \<not> closed c \<Longrightarrow> contents c = ys @ zs \<Longrightarrow>
   \<exists>c'. read_all recv e (length ys) c = done_act (ys, c') \<and> contents c' = zs \<and>
        cap c' = cap c \<and> \<not> closed c' \<and> wf c'"
proof (induction ys arbitrary: c)
  case Nil
  then show ?case by simp
next
  case (Cons y ys)
  then obtain c1 where c1: "recv e c = done_act (y, c1)" "contents c1 = ys @ zs"
      "cap c1 = cap c" "\<not> closed c1" "wf c1"
    using read_Cons [of c y "ys @ zs" e] by auto
  with Cons.IH [of c1] show ?case by auto
qed

lemma closed_writes_lost: "wf c \<Longrightarrow> closed c \<Longrightarrow> write_all send xs c = done_act c"
  by (induction xs) (auto simp: write_closed)

lemma closed_reads_null: "wf c \<Longrightarrow> closed c \<Longrightarrow> read_all recv e n c = done_act (replicate n e, c)"
  by (induction n) (auto simp: read_closed)

end

sublocale blocking_queue \<subseteq> message_channel
    "\<lambda>x q. bindA (put x q) (\<lambda>(_, q'). done_act q')"
    "\<lambda>e q. bindA (get e q) (\<lambda>((_, y), q'). done_act (y, q'))"
    contents cap closed wf
proof unfold_locales
  fix q x
  assume "wf q" "\<not> closed q" "length (contents q) < cap q"
  then show "\<exists>c'. bindA (put x q) (\<lambda>(_, q'). done_act q') = done_act c' \<and>
      contents c' = contents q @ [x] \<and> cap c' = cap q \<and> \<not> closed c' \<and> wf c'"
    using put_room [of q x] by auto
next
  fix q y ys e
  assume "wf q" "\<not> closed q" "contents q = y # ys"
  then show "\<exists>c'. bindA (get e q) (\<lambda>((_, y), q'). done_act (y, q')) = done_act (y, c') \<and>
      contents c' = ys \<and> cap c' = cap q \<and> \<not> closed c' \<and> wf c'"
    using get_Cons [of q y ys e] by auto
qed (simp_all add: put_full put_closed get_Nil get_closed)

interpretation wait_queue: blocking_queue "WaitEnqueue []" "WaitDequeue []"
    q_pool queue_cap q_break queue_wf
  by unfold_locales (auto simp: WaitEnqueue_Nil WaitDequeue_Nil queue_wf_def)

subsection \<open>Invariants of the interleaved runs\<close>

definition qsys_inv :: "'a qsys \<Rightarrow> bool" where
  "qsys_inv s \<longleftrightarrow> queue_wf (sys_q s) \<and> produced s = consumed s @ q_pool (sys_q s)"

lemma goto_sel [simp]:
  "sys_q (goto i p s) = sys_q s" "produced (goto i p s) = produced s"
  "consumed (goto i p s) = consumed s" "sys_pc (goto i p s) = (sys_pc s)(i := p)"
  by (simp_all add: goto_def)

lemma queue_step_inv: "qsys_inv s \<Longrightarrow> any_queue_step s t \<Longrightarrow> qsys_inv t"
proof -
  assume inv: "qsys_inv s" and "any_queue_step s t"
  then obtain i where "queue_step i s t" by blast
  then show ?thesis using inv
    by cases (auto simp: qsys_inv_def queue_wf_def dest!: queue_dests)
qed

interpretation qsys: invariant_system any_queue_step qsys_inv
  by unfold_locales (rule queue_step_inv)

lemma qsys_inv_start: "Queue_new uuid name sz = Inr q \<Longrightarrow> qsys_inv (queue_start q)"
  by (simp add: qsys_inv_def queue_start_def queue_wf_new)

lemma queue_step_size: "queue_step i s t \<Longrightarrow> q_pool_size (sys_q t) = q_pool_size (sys_q s)"
  by (erule queue_step.cases) (auto dest!: queue_dests)


lemma queue_run_steps: "queue_run is s t \<Longrightarrow> any_queue_step\<^sup>*\<^sup>* s t"
  by (induction "is" arbitrary: s) (auto intro: converse_rtranclp_into_rtranclp)

lemma reachable_size:
  assumes "any_queue_step\<^sup>*\<^sup>* s t"
  shows "q_pool_size (sys_q t) = q_pool_size (sys_q s)"
  using assms by (induction rule: rtranclp_induct) (auto dest: queue_step_size)

subsection \<open>Waiting threads after the wait is broken\<close>

text \<open>How many of its own steps a thread needs at most to leave its loop.\<close>

fun loop_dist :: "'a qpc \<Rightarrow> nat" where
  "loop_dist Idle = 0"
| "loop_dist (EnqTest x) = 1"
| "loop_dist (EnqWait x) = 2"
| "loop_dist (EnqTry x) = 3"
| "loop_dist DeqTest = 1"
| "loop_dist DeqWait = 2"
| "loop_dist DeqTry = 3"

lemma loop_dist_le: "loop_dist p \<le> 3"
  by (cases p) simp_all

lemma queue_step_break: "queue_step i s t \<Longrightarrow> q_break (sys_q s) \<Longrightarrow> q_break (sys_q t)"
  by (erule queue_step.cases) (auto dest!: queue_dests)

lemma queue_step_other: "queue_step i s t \<Longrightarrow> j \<noteq> i \<Longrightarrow> sys_pc t j = sys_pc s j"
  by (erule queue_step.cases) auto

lemma queue_step_dist:
  "queue_step i s t \<Longrightarrow> q_break (sys_q s) \<Longrightarrow> sys_pc s i \<noteq> Idle \<Longrightarrow>
   loop_dist (sys_pc t i) < loop_dist (sys_pc s i)"
  by (erule queue_step.cases) auto

lemma queue_step_enabled: "qsys_inv s \<Longrightarrow> \<exists>t. queue_step i s t"
proof -
  assume "qsys_inv s"
  then have wf: "queue_wf (sys_q s)" and w: "\<exists>w. q_wait (sys_q s) = Some w"
    by (auto simp: qsys_inv_def queue_wf_def)
  show ?thesis
  proof (cases "sys_pc s i")
    case (EnqTry x)
    with wf show ?thesis
      by (cases rule: Enqueue_cases [of "sys_q s" x]) (auto intro: enq_ok enq_full)
  next
    case DeqTry
    with wf show ?thesis
      by (cases "q_pool (sys_q s)")
         (blast intro: deq_ok [OF _ Dequeue_Cons] deq_empty [OF _ Dequeue_Nil])+
  qed (use w in \<open>blast intro: queue_step.intros EmptyWait_True\<close>)+
qed

lemma queue_run_releases:
  "queue_run is s t \<Longrightarrow> q_break (sys_q s) \<Longrightarrow> loop_dist (sys_pc s i) \<le> count_list is i \<Longrightarrow>
   \<exists>pre suf u. is = pre @ suf \<and> queue_run pre s u \<and> queue_run suf u t \<and> sys_pc u i = Idle"
proof (induction "is" arbitrary: s)
  case Nil
  then have "sys_pc s i = Idle" by (cases "sys_pc s i") auto
  with Nil.prems(1) show ?case by auto
next
  case (Cons j "is")
  show ?case
  proof (cases "sys_pc s i = Idle")
    case True
    with Cons.prems(1) show ?thesis
      by (intro exI [of _ "[]"] exI [of _ "j # is"] exI [of _ s]) simp
  next
    case False
    from Cons.prems(1) obtain v where v: "queue_step j s v" "queue_run is v t" by auto
    have "loop_dist (sys_pc v i) \<le> count_list is i"
      using Cons.prems(3) queue_step_dist [OF v(1) Cons.prems(2)] queue_step_other [OF v(1), of i] False
      by (cases "j = i") auto
    with Cons.IH [OF v(2)] queue_step_break [OF v(1) Cons.prems(2)] obtain pre suf u where
      "is = pre @ suf" "queue_run pre v u" "queue_run suf u t" "sys_pc u i = Idle" by blast
    with v(1) show ?thesis
      by (intro exI [of _ "j # pre"] exI [of _ suf] exI [of _ u]) auto
  qed
qed

section \<open>Properties\<close>

text \<open>(C1) First in, first out, with nothing lost or duplicated: at every moment of every
  interleaving of any number of threads that enqueue, dequeue and break waits on a freshly
  constructed queue, the elements enqueued so far are the elements dequeued so far followed
  by the current contents.\<close>

theorem queue_fifo:
  assumes "Queue_new uuid name sz = Inr q" and "any_queue_step\<^sup>*\<^sup>* (queue_start q) s"
  shows "produced s = consumed s @ q_pool (sys_q s)"
  using qsys.reachable_inv [OF assms(2) qsys_inv_start [OF assms(1)]]
  by (simp add: qsys_inv_def)

text \<open>(C27) A queue constructed with a size that fits an \<open>int\<close> and is not negative never holds
  more elements than that, under every interleaving, and \<open>Size\<close> reports the exact number.\<close>

theorem queue_bounded:
  assumes "Queue_new uuid name sz = Inr q" and "any_queue_step\<^sup>*\<^sup>* (queue_start q) s"
    and "0 \<le> sz" and "int32_ok sz"
  shows "Queue_Size (sys_q s) = int (length (q_pool (sys_q s))) \<and>
         int (length (q_pool (sys_q s))) \<le> sz"
proof -
  have "q_pool_size (sys_q s) = sz"
    using reachable_size [OF assms(2)] assms(1) by (auto simp: queue_start_def Queue_new_eq)
  moreover have "queue_wf (sys_q s)"
    using qsys.reachable_inv [OF assms(2) qsys_inv_start [OF assms(1)]] by (simp add: qsys_inv_def)
  ultimately have "int (length (q_pool (sys_q s))) \<le> sz"
    using assms(3,4) by (simp add: queue_wf_def cint le_nat_iff)
  moreover from this have "int32_ok (int (length (q_pool (sys_q s))))"
    using assms(4) by (auto simp: int32_ok_def)
  ultimately show ?thesis by (simp add: Queue_Size_def cint)
qed

text \<open>(C28) Shutdown is prompt: once \<open>BreakAllWait\<close> has been called, a thread inside
  \<open>WaitEnqueue\<close> or \<open>WaitDequeue\<close> is out of its loop by its third step at the latest,
  whatever the other threads do, and in every state the thread does have a step to take.\<close>

theorem break_releases_waiters:
  assumes "qsys_inv s" and "q_break (sys_q s)" and "queue_run is s t" and "3 \<le> count_list is i"
  shows "(\<exists>pre suf u. is = pre @ suf \<and> queue_run pre s u \<and> queue_run suf u t \<and> sys_pc u i = Idle)
         \<and> (\<exists>u. queue_step i t u)"
proof
  show "\<exists>pre suf u. is = pre @ suf \<and> queue_run pre s u \<and> queue_run suf u t \<and> sys_pc u i = Idle"
    using queue_run_releases [OF assms(3,2), of i] loop_dist_le [of "sys_pc s i"] assms(4) by simp
  show "\<exists>u. queue_step i t u"
    using queue_step_enabled qsys.reachable_inv [OF queue_run_steps [OF assms(3)] assms(1)] by blast
qed

text \<open>\<open>WaitEnqueue\<close> is linearisable, gives up only when told to, and does return.
  Its outcome is decided at the first moment, counted in waits, at which the wait has been
  broken or there is room: if broken it returns \<open>false\<close> and leaves the queue alone,
  otherwise it appends the element as one atomic action and returns \<open>true\<close>. It goes on
  waiting exactly when no such moment comes; there is no timeout.\<close>

theorem WaitEnqueue_outcome:
  assumes "\<And>k. k \<le> length env \<Longrightarrow> queue_wf (after (take k env) q)"
  shows "WaitEnqueue env x q =
    map_option
      (\<lambda>k. let m = after (take k env) q in
         Inr (if q_break m then (False, m) else (True, m\<lparr>q_pool := q_pool m @ [x]\<rparr>)))
      (find (\<lambda>k. let m = after (take k env) q in
               q_break m \<or> length (q_pool m) < to_size_t (q_pool_size m))
        [0..<Suc (length env)])"
  by (rule enq_loop.loop_by_first) (auto simp: WaitEnqueue_Nil assms Let_def)

text \<open>\<open>WaitDequeue\<close> likewise: at the first moment at which the wait has been broken or
  the queue is not empty it returns, with \<open>false\<close> and the caller's variable untouched in
  the first case, with the oldest element, removed from the queue, in the second.\<close>

theorem WaitDequeue_outcome:
  assumes "\<And>k. k \<le> length env \<Longrightarrow> queue_wf (after (take k env) q)"
  shows "WaitDequeue env e q =
    map_option
      (\<lambda>k. let m = after (take k env) q in
         Inr (if q_break m then ((False, e), m)
              else ((True, hd (q_pool m)), m\<lparr>q_pool := tl (q_pool m)\<rparr>)))
      (find (\<lambda>k. let m = after (take k env) q in q_break m \<or> q_pool m \<noteq> [])
        [0..<Suc (length env)])"
  by (rule deq_loop.loop_by_first) (auto simp: WaitDequeue_Nil assms Let_def split: list.splits)

section \<open>Witnesses\<close>

definition sample_queue :: "nat Queue" where
  "sample_queue = \<lparr>q_pool = [], q_pool_size = 1, q_name = ''timerq'', q_uuid = ''00'',
     q_wait = Some BlockWaitStrategy, q_break = False\<rparr>"

lemma sample_queue_new: "Queue_new ''00'' ''timerq'' 1 = Inr sample_queue"
  by (simp add: Queue_new_eq sample_queue_def)

definition sample_after_put :: "nat qsys" where
  "sample_after_put = \<lparr>sys_q = sample_queue\<lparr>q_pool := [7]\<rparr>, sys_pc = (\<lambda>_. Idle)(0 := Idle),
     produced = [7], consumed = []\<rparr>"

lemma sample_put_run: "queue_run [0, 0, 0] (queue_start sample_queue) sample_after_put"
proof -
  let ?s0 = "queue_start sample_queue"
  have "queue_step 0 ?s0 (goto 0 (EnqTest 7) ?s0)"
    by (rule call_enq) (simp add: queue_start_def)
  moreover have "queue_step 0 (goto 0 (EnqTest 7) ?s0) (goto 0 (EnqTry 7) (goto 0 (EnqTest 7) ?s0))"
    by (rule enq_go) (simp_all add: queue_start_def sample_queue_def)
  moreover have "queue_step 0 (goto 0 (EnqTry 7) (goto 0 (EnqTest 7) ?s0)) sample_after_put"
  proof -
    let ?s = "goto 0 (EnqTry 7) (goto 0 (EnqTest 7) ?s0)"
    have "Enqueue (sys_q ?s) 7 = Inr (True, sample_queue\<lparr>q_pool := [7]\<rparr>)"
      by (simp add: queue_start_def sample_queue_def Enqueue_def to_size_t_def)
    from enq_ok [OF _ this, of 0] show ?thesis
      by (simp add: goto_def sample_after_put_def queue_start_def sample_queue_def)
  qed
  ultimately show ?thesis by auto
qed

theorem queue_fifo_witness:
  "produced sample_after_put = consumed sample_after_put @ q_pool (sys_q sample_after_put)"
  by (rule queue_fifo [OF sample_queue_new queue_run_steps [OF sample_put_run]])

theorem queue_bounded_witness:
  "Queue_Size (sys_q sample_after_put) = 1 \<and> (1::int) \<le> 1"
  using queue_bounded [OF sample_queue_new queue_run_steps [OF sample_put_run]]
  by (simp add: sample_after_put_def int32_ok_def)

text \<open>A dequeuing thread waits on an empty queue; the wait is broken; the thread leaves.\<close>

definition sample_waiting :: "nat qsys" where
  "sample_waiting = \<lparr>sys_q = sample_queue\<lparr>q_break := True\<rparr>, sys_pc = (\<lambda>_. Idle)(0 := DeqTry),
     produced = [], consumed = []\<rparr>"

lemma sample_waiting_run:
  "queue_run [0, 0, 0] sample_waiting (goto 0 Idle (goto 0 DeqTest (goto 0 DeqWait sample_waiting)))"
proof -
  let ?s1 = "goto 0 DeqWait (sample_waiting\<lparr>sys_q := sys_q sample_waiting\<rparr>)"
  have "queue_step 0 sample_waiting ?s1"
    by (rule deq_empty [of _ _ 0]) (simp_all add: sample_waiting_def Dequeue_def sample_queue_def)
  moreover have "queue_step 0 ?s1 (goto 0 DeqTest ?s1)"
    by (rule deq_retry [of _ _ BlockWaitStrategy]) (simp_all add: sample_waiting_def sample_queue_def)
  moreover have "queue_step 0 (goto 0 DeqTest ?s1) (goto 0 Idle (goto 0 DeqTest ?s1))"
    by (rule deq_break) (simp_all add: sample_waiting_def)
  moreover have "?s1 = goto 0 DeqWait sample_waiting" by simp
  ultimately show ?thesis by auto
qed

theorem break_releases_waiters_witness:
  "\<exists>pre suf u. [0, 0, 0] = pre @ suf \<and> queue_run pre sample_waiting u \<and> sys_pc u 0 = Idle"
proof -
  have "qsys_inv sample_waiting" and "q_break (sys_q sample_waiting)"
    by (simp_all add: qsys_inv_def queue_wf_def sample_waiting_def sample_queue_def)
  from break_releases_waiters [OF this sample_waiting_run, of 0] show ?thesis
    by auto
qed

text \<open>The queue is full; during the second wait another thread takes the element out.\<close>

definition sample_env :: "nat interference" where
  "sample_env = [id, \<lambda>q. q\<lparr>q_pool := tl (q_pool q)\<rparr>]"

lemma sample_env_wf: "k \<le> length sample_env \<Longrightarrow> queue_wf (after (take k sample_env) (sample_queue\<lparr>q_pool := [7]\<rparr>))"
  by (auto simp: sample_env_def sample_queue_def queue_wf_def to_size_t_def le_Suc_eq numeral_2_eq_2)

theorem WaitEnqueue_outcome_witness:
  "WaitEnqueue sample_env 8 (sample_queue\<lparr>q_pool := [7]\<rparr>) =
     Some (Inr (True, sample_queue\<lparr>q_pool := [8]\<rparr>))"
  by (subst WaitEnqueue_outcome [OF sample_env_wf], assumption)
     (simp add: sample_env_def sample_queue_def to_size_t_def)

theorem WaitDequeue_outcome_witness:
  "WaitDequeue sample_env 0 (sample_queue\<lparr>q_pool := [7]\<rparr>) =
     Some (Inr ((True, 7), sample_queue))"
  by (subst WaitDequeue_outcome [OF sample_env_wf], assumption)
     (simp add: sample_env_def sample_queue_def)

end
