(* ===== verification/Text_Format.thy ===== *)
theory Text_Format
  imports Prelude
begin

text \<open>
  What the sources use of the C++ string and stream library: characters and white space in
  the classic locale, \<open>find\<close> and \<open>substr\<close> on strings, decimal and hexadecimal output
  with a field width, and \<open>std::stoi\<close>.
\<close>

section \<open>Numbers to text\<close>

definition digit_char :: "nat \<Rightarrow> char" where
  "digit_char d = ''0123456789abcdef'' ! d"

fun show_base :: "nat \<Rightarrow> nat \<Rightarrow> string" where
  "show_base b n =
     (if n < b \<or> b < 2 then [digit_char n] else show_base b (n div b) @ [digit_char (n mod b)])"

declare show_base.simps [simp del]

abbreviation show_nat :: "nat \<Rightarrow> string" where
  "show_nat \<equiv> show_base 10"

abbreviation show_hex :: "nat \<Rightarrow> string" where
  "show_hex \<equiv> show_base 16"

definition show_int :: "int \<Rightarrow> string" where
  "show_int i = (if i < 0 then CHR ''-'' # show_nat (nat (- i)) else show_nat (nat i))"

text \<open>\<open>os.width(w)\<close> with \<open>os.fill(c)\<close>, right adjusted.\<close>

definition pad_left :: "nat \<Rightarrow> char \<Rightarrow> string \<Rightarrow> string" where
  "pad_left w c s = replicate (w - length s) c @ s"

section \<open>Text to numbers\<close>

definition digit_value :: "char \<Rightarrow> nat option" where
  "digit_value c = (if 48 \<le> (of_char c :: nat) \<and> (of_char c :: nat) \<le> 57
                    then Some (of_char c - 48) else None)"

fun read_digits :: "nat \<Rightarrow> string \<Rightarrow> nat \<times> string" where
  "read_digits acc [] = (acc, [])"
| "read_digits acc (c # cs) =
     (case digit_value c of None \<Rightarrow> (acc, c # cs) | Some d \<Rightarrow> read_digits (10 * acc + d) cs)"

definition isspace :: "char \<Rightarrow> bool" where
  "isspace c \<longleftrightarrow> (of_char c :: nat) = 32 \<or> 9 \<le> (of_char c :: nat) \<and> (of_char c :: nat) \<le> 13"

text \<open>
  \<open>std::stoi\<close>: leading white space, an optional sign, then decimal digits; what follows is
  ignored. No digit raises \<open>invalid_argument\<close>, a value outside \<open>int\<close> raises
  \<open>out_of_range\<close>.
\<close>

definition stoi :: "string \<Rightarrow> int res" where
  "stoi s =
     (let t = dropWhile isspace s;
          neg = (t \<noteq> [] \<and> hd t = CHR ''-'');
          u = (if t \<noteq> [] \<and> (hd t = CHR ''-'' \<or> hd t = CHR ''+'') then tl t else t)
      in if u = [] \<or> digit_value (hd u) = None then Inl invalid_argument
         else let n = int (fst (read_digits 0 u)); v = (if neg then - n else n)
              in if int32_ok v then Inr v else Inl out_of_range)"

section \<open>Searching and slicing\<close>

text \<open>\<open>s.find(p)\<close>: the least position at which \<open>p\<close> occurs, \<^term>\<open>None\<close> for
  \<open>npos\<close>.\<close>

fun find_str :: "string \<Rightarrow> string \<Rightarrow> nat option" where
  "find_str p [] = (if p = [] then Some 0 else None)"
| "find_str p (c # cs) =
     (if take (length p) (c # cs) = p then Some 0 else map_option Suc (find_str p cs))"

definition substr :: "nat \<Rightarrow> nat \<Rightarrow> string \<Rightarrow> string" where
  "substr pos n s = take n (drop pos s)"

section \<open>Lemmas\<close>

lemma digit_value_digit_char [simp]: "d < 10 \<Longrightarrow> digit_value (digit_char d) = Some d"
proof -
  assume "d < 10"
  then have "d \<in> {0, 1, 2, 3, 4, 5, 6, 7, 8, 9}" by auto
  then show ?thesis by (auto simp: digit_char_def digit_value_def)
qed

lemma digit_char_inj: "d < 16 \<Longrightarrow> e < 16 \<Longrightarrow> digit_char d = digit_char e \<Longrightarrow> d = e"
proof -
  have "distinct ''0123456789abcdef''" by simp
  then show "d < 16 \<Longrightarrow> e < 16 \<Longrightarrow> digit_char d = digit_char e \<Longrightarrow> d = e"
    unfolding digit_char_def by (subst (asm) nth_eq_iff_index_eq) auto
qed

lemma show_base_nonempty [simp]: "show_base b n \<noteq> []"
  by (subst show_base.simps) simp

lemma set_show_nat: "set (show_nat n) \<subseteq> digit_char ` {..<10}"
proof (induction n rule: less_induct)
  case (less n)
  show ?case
  proof (cases "n < 10")
    case True
    then show ?thesis by (subst show_base.simps) auto
  next
    case False
    then have "n div 10 < n" by simp
    with less [of "n div 10"] False show ?thesis by (subst show_base.simps) auto
  qed
qed

lemma read_digits_show_nat:
  "read_digits acc (show_nat n @ cs) = read_digits (acc * 10 ^ length (show_nat n) + n) cs"
proof (induction n arbitrary: acc cs rule: less_induct)
  case (less n)
  show ?case
  proof (cases "n < 10")
    case True
    then show ?thesis by (simp add: show_base.simps [of 10 n] mult.commute)
  next
    case False
    then have "n div 10 < n" by simp
    from less.IH [OF this] False show ?thesis
      by (simp add: show_base.simps [of 10 n] algebra_simps)
  qed
qed

lemma hd_show_nat: "\<exists>d<10. hd (show_nat n) = digit_char d"
proof -
  have "hd (show_nat n) \<in> set (show_nat n)" by simp
  then have "hd (show_nat n) \<in> digit_char ` {..<10}"
    using set_show_nat by (rule rev_subsetD)
  then show ?thesis by auto
qed

lemma digit_char_not:
  assumes "d < 10"
  shows "digit_char d \<noteq> CHR ''-''" and "digit_char d \<noteq> CHR ''+''" and "\<not> isspace (digit_char d)"
proof -
  from assms have "d \<in> {0, 1, 2, 3, 4, 5, 6, 7, 8, 9}" by auto
  then show "digit_char d \<noteq> CHR ''-''" "digit_char d \<noteq> CHR ''+''" "\<not> isspace (digit_char d)"
    by (auto simp: digit_char_def isspace_def)
qed

lemma dropWhile_hd: "s \<noteq> [] \<Longrightarrow> \<not> P (hd s) \<Longrightarrow> dropWhile P s = s"
  by (cases s) auto

text \<open>Printing an \<open>int\<close> and reading it back.\<close>

lemma stoi_show_int: "int32_ok i \<Longrightarrow> stoi (show_int i) = Inr i"
proof -
  assume ok: "int32_ok i"
  obtain d where d: "d < 10" "hd (show_nat (nat \<bar>i\<bar>)) = digit_char d"
    using hd_show_nat by blast
  note nd = digit_char_not [OF d(1)]
  have drop: "dropWhile isspace (show_int i) = show_int i"
    using d nd by (intro dropWhile_hd) (auto simp: show_int_def isspace_def split: if_splits)
  have rd: "read_digits 0 (show_nat (nat \<bar>i\<bar>)) = (nat \<bar>i\<bar>, [])"
    using read_digits_show_nat [of 0 "nat \<bar>i\<bar>" "[]"] by simp
  show ?thesis
  proof (cases "i < 0")
    case True
    with drop d rd ok show ?thesis by (simp add: stoi_def show_int_def Let_def)
  next
    case False
    with drop d nd rd ok show ?thesis by (simp add: stoi_def show_int_def Let_def)
  qed
qed

end
