(* ===== verification/Base_Msg.thy ===== *)
theory Base_Msg
  imports Text_Format
begin

text \<open>
  The message object of \<open>src/src/include/msg.h\<close>: a byte buffer with room for headers at the
  front (\<open>head_\<close>, \<open>curr_\<close>) and a fill position (\<open>tail_\<close>).

  The buffer is a \<open>std::vector<uint8_t>\<close>; its bytes are \<open>m_data\<close> and its capacity is
  \<open>m_cap\<close>. The standard fixes only that the capacity after a reallocation is at least the
  new size, so the reallocation policy is the argument \<open>g\<close> of the operations that may
  reallocate, and \<open>growth_ok\<close> is what the standard promises about it. Access past
  \<open>size()\<close> is \<open>OutOfBounds\<close>. A pointer into the buffer is its offset from
  \<open>begin()\<close>.
\<close>

section \<open>Model\<close>

subsection \<open>Vectors of bytes\<close>

type_synonym growth = "nat \<Rightarrow> nat \<Rightarrow> nat"


definition vec_max_size :: nat where
  "vec_max_size = 2 ^ 63 - 1"

definition growth_ok :: "growth \<Rightarrow> bool" where
  "growth_ok g \<longleftrightarrow> (\<forall>c n. n \<le> g c n \<and> (n \<le> vec_max_size \<longrightarrow> g c n \<le> vec_max_size))"

definition vec_resize :: "growth \<Rightarrow> nat \<Rightarrow> u8 list \<times> nat \<Rightarrow> (u8 list \<times> nat) res" where
  "vec_resize g n v =
     (case v of (xs, c) \<Rightarrow>
        if n \<le> length xs then Inr (take n xs, c)
        else if vec_max_size < n then Inl length_error
        else Inr (xs @ replicate (n - length xs) 0, if n \<le> c then c else g c n))"

definition vec_reserve :: "growth \<Rightarrow> nat \<Rightarrow> u8 list \<times> nat \<Rightarrow> (u8 list \<times> nat) res" where
  "vec_reserve g n v =
     (case v of (xs, c) \<Rightarrow>
        if vec_max_size < n then Inl length_error
        else Inr (xs, if n \<le> c then c else g c n))"

subsection \<open>Messages\<close>

datatype MSG_TYPE = TYPE_DATA | TYPE_IPV4_DATA | TYPE_IPV6_DATA | TYPE_SIGNAL

datatype MSG_SIGNAL = SIGNAL_NONE | SIGNAL_STOP

record BaseMsg =
  m_type :: MSG_TYPE
  m_signal :: MSG_SIGNAL
  m_data :: "u8 list"
  m_cap :: nat
  m_id :: u32
  m_seq :: u32
  m_head :: int
  m_curr :: int
  m_tail :: int

definition default_buffer_len :: int where
  "default_buffer_len = 2048"

definition blank_msg :: BaseMsg where
  "blank_msg = \<lparr>m_type = TYPE_DATA, m_signal = SIGNAL_NONE, m_data = [], m_cap = 0, m_id = 0,
     m_seq = 0, m_head = 0, m_curr = 0, m_tail = 0\<rparr>"

definition msg_size :: "'e BaseMsg_scheme \<Rightarrow> int" where
  "msg_size m = to_int32 (int (length (m_data m)))"

definition msg_resize :: "growth \<Rightarrow> 'e BaseMsg_scheme \<Rightarrow> int \<Rightarrow> 'e BaseMsg_scheme res" where
  "msg_resize g m sz =
     bindE (vec_resize g (to_size_t sz) (m_data m, m_cap m))
       (\<lambda>(xs, c). Inr (m\<lparr>m_data := xs, m_cap := c\<rparr>))"

definition msg_reserve :: "growth \<Rightarrow> 'e BaseMsg_scheme \<Rightarrow> int \<Rightarrow> 'e BaseMsg_scheme res" where
  "msg_reserve g m sz =
     bindE (vec_reserve g (to_size_t sz) (m_data m, m_cap m))
       (\<lambda>(xs, c). Inr (m\<lparr>m_data := xs, m_cap := c\<rparr>))"

definition BaseMsg_new :: "growth \<Rightarrow> int \<Rightarrow> BaseMsg res" where
  "BaseMsg_new g len =
     bindE (msg_resize g blank_msg len) (\<lambda>m. Inr (m\<lparr>m_head := 0, m_curr := 0\<rparr>))"

text \<open>The vector handed over keeps its own storage, of capacity \<open>vcap\<close>.\<close>

definition BaseMsg_vec :: "growth \<Rightarrow> u8 list \<Rightarrow> nat \<Rightarrow> BaseMsg res" where
  "BaseMsg_vec g vec vcap =
     bindE (msg_resize g blank_msg (to_int32 (int (length vec))))
       (\<lambda>m. Inr (m\<lparr>m_data := vec, m_cap := vcap, m_head := 0, m_curr := 0\<rparr>))"

definition reserveHeader :: "'e BaseMsg_scheme \<Rightarrow> int \<Rightarrow> (bool \<times> 'e BaseMsg_scheme) res" where
  "reserveHeader m sz =
     (if to_size_t sz > m_cap m then Inr (False, m)
      else bindE (add32 (m_curr m) sz) (\<lambda>c.
           bindE (add32 (m_tail m) sz) (\<lambda>t.
           Inr (True, m\<lparr>m_curr := c, m_tail := t\<rparr>))))"

definition pushHeader :: "'e BaseMsg_scheme \<Rightarrow> int \<Rightarrow> (int option \<times> 'e BaseMsg_scheme) res" where
  "pushHeader m sz =
     bindE (sub32 (m_curr m) (m_head m)) (\<lambda>room.
       if sz \<le> room
       then bindE (add32 (m_head m) sz) (\<lambda>h.
            bindE (sub32 h sz) (\<lambda>off.
            Inr (Some off, m\<lparr>m_head := h\<rparr>)))
       else Inr (None, m))"

text \<open>\<open>buf\<close> is the memory that can be read from the pointer on.\<close>

definition fill :: "'e BaseMsg_scheme \<Rightarrow> u8 list \<Rightarrow> int \<Rightarrow> 'e BaseMsg_scheme res" where
  "fill m buf len =
     bindE (add32 (m_tail m) len) (\<lambda>t.
       if to_size_t t \<le> m_cap m
       then if len < 0 \<or> int (length buf) < len \<or> m_tail m < 0 \<or> int (length (m_data m)) < t
            then Inl OutOfBounds
            else Inr (m\<lparr>m_data := take (nat (m_tail m)) (m_data m) @ take (nat len) buf
                                    @ drop (nat t) (m_data m),
                        m_tail := t\<rparr>)
       else Inl AssertionFailed)"

definition msg_eq :: "'e BaseMsg_scheme \<Rightarrow> 'e BaseMsg_scheme \<Rightarrow> bool" where
  "msg_eq lh rh = (if msg_size lh \<noteq> msg_size rh then False else m_data lh = m_data rh)"

definition msg_out :: "'e BaseMsg_scheme \<Rightarrow> string" where
  "msg_out r =
     ''['' @ show_nat (unat (m_seq r)) @ ''] '' @ ''['' @ show_int (msg_size r) @ ''] ''
     @ concat (map (\<lambda>n. show_nat (unat n) @ '' '') (m_data r))"

fun print_bytes :: "nat \<Rightarrow> int \<Rightarrow> int \<Rightarrow> u8 list \<Rightarrow> string" where
  "print_bytes bytes lines mx [] = []"
| "print_bytes bytes lines mx (x # xs) =
     (if lines < mx
      then (if bytes mod 16 = 1 then ''['' @ pad_left 4 CHR '' '' (show_int lines) @ ''] '' else [])
           @ pad_left 3 CHR '' '' (show_hex (unat x)) @ '' ''
           @ (if bytes \<noteq> 1 \<and> bytes mod 16 = 0
              then CHR 0x0A # print_bytes (Suc bytes) (lines + 1) mx xs
              else print_bytes (Suc bytes) lines mx xs)
      else [])"

definition msg_print :: "'e BaseMsg_scheme \<Rightarrow> int \<Rightarrow> string" where
  "msg_print m mx = print_bytes 1 0 mx (m_data m)"

section \<open>Lemmas\<close>

lemmas msg_alloc_defs = BaseMsg_new_def msg_resize_def vec_resize_def blank_msg_def

definition msg_wf :: "'e BaseMsg_scheme \<Rightarrow> bool" where
  "msg_wf m \<longleftrightarrow> 0 \<le> m_head m \<and> m_head m \<le> m_curr m \<and> m_curr m \<le> m_tail m \<and>
     int32_ok (m_tail m) \<and> length (m_data m) \<le> m_cap m \<and> m_cap m \<le> vec_max_size"

lemma msg_wf_range: "msg_wf m \<Longrightarrow> int32_ok (m_head m) \<and> int32_ok (m_curr m) \<and> int32_ok (m_tail m)"
  by (auto simp: msg_wf_def int32_ok_def)

lemma BaseMsg_new_ok:
  assumes "0 \<le> len" and "int32_ok len"
  shows "BaseMsg_new g len =
    Inr (blank_msg\<lparr>m_data := replicate (nat len) 0, m_cap := (if len = 0 then 0 else g 0 (nat len))\<rparr>)"
  using assms by (auto simp: msg_alloc_defs cint vec_max_size_def int32_ok_def zless_nat_eq_int_zless)

lemma BaseMsg_new_negative:
  assumes "len < 0" and "int32_ok len"
  shows "BaseMsg_new g len = Inl length_error"
  using to_size_t_neg_large [OF assms]
  by (simp add: msg_alloc_defs vec_max_size_def)

lemma fill_within:
  assumes "msg_wf m" and "m_tail m + int (length buf) \<le> int (length (m_data m))"
    and "int32_ok (m_tail m + int (length buf))"
  shows "fill m buf (int (length buf)) =
    Inr (m\<lparr>m_data := take (nat (m_tail m)) (m_data m) @ buf
                       @ drop (nat (m_tail m) + length buf) (m_data m),
           m_tail := m_tail m + int (length buf)\<rparr>)"
proof -
  have "to_size_t (m_tail m + int (length buf)) = nat (m_tail m) + length buf"
    using assms(1,3) by (simp add: cint msg_wf_def nat_add_distrib)
  with assms show ?thesis
    by (auto simp: fill_def cint msg_wf_def nat_add_distrib)
qed

lemma fill_past_size:
  assumes "msg_wf m" and "int (length (m_data m)) < m_tail m + int (length buf)"
    and "m_tail m + int (length buf) \<le> int (m_cap m)" and "int32_ok (m_tail m + int (length buf))"
  shows "fill m buf (int (length buf)) = Inl OutOfBounds"
  using assms by (auto simp: fill_def cint msg_wf_def nat_add_distrib)

lemma fill_past_capacity:
  assumes "msg_wf m" and "int (m_cap m) < m_tail m + int (length buf)"
    and "int32_ok (m_tail m + int (length buf))"
  shows "fill m buf (int (length buf)) = Inl AssertionFailed"
  using assms by (auto simp: fill_def cint msg_wf_def nat_add_distrib)

lemma reserveHeader_accept:
  assumes "msg_wf m" and "0 \<le> sz" and "sz \<le> int (m_cap m)" and "int32_ok (m_tail m + sz)"
  shows "reserveHeader m sz = Inr (True, m\<lparr>m_curr := m_curr m + sz, m_tail := m_tail m + sz\<rparr>)"
proof -
  have "int32_ok sz" and "int32_ok (m_curr m + sz)"
    using assms by (auto simp: msg_wf_def int32_ok_def)
  with assms show ?thesis by (auto simp: reserveHeader_def cint)
qed

lemma reserveHeader_deny:
  assumes "msg_wf m" and "int32_ok sz" and "sz < 0 \<or> int (m_cap m) < sz"
  shows "reserveHeader m sz = Inr (False, m)"
proof -
  have "m_cap m < to_size_t sz"
  proof (cases "sz < 0")
    case True
    with assms(1) to_size_t_neg_large [OF True assms(2)] show ?thesis
      by (simp add: msg_wf_def vec_max_size_def)
  next
    case False
    with assms show ?thesis by (simp add: cint)
  qed
  then show ?thesis by (simp add: reserveHeader_def)
qed

lemma pushHeader_fit:
  assumes "msg_wf m" and "0 \<le> sz" and "sz \<le> m_curr m - m_head m"
  shows "pushHeader m sz = Inr (Some (m_head m), m\<lparr>m_head := m_head m + sz\<rparr>)"
  using assms by (auto simp: pushHeader_def cint msg_wf_def int32_ok_def)

lemma pushHeader_nofit:
  assumes "msg_wf m" and "m_curr m - m_head m < sz"
  shows "pushHeader m sz = Inr (None, m)"
  using assms by (auto simp: pushHeader_def cint msg_wf_def int32_ok_def)

text \<open>Every operation keeps the layout: header position, start of the payload and fill
  position stay in this order, and the buffer stays within its capacity.\<close>

lemma msg_wf_new: "growth_ok g \<Longrightarrow> int32_ok len \<Longrightarrow> BaseMsg_new g len = Inr m \<Longrightarrow> msg_wf m"
  by (cases "len < 0")
     (auto simp: BaseMsg_new_negative BaseMsg_new_ok msg_wf_def blank_msg_def int32_ok_def
        growth_ok_def vec_max_size_def)

lemma msg_wf_reserveHeader: "msg_wf m \<Longrightarrow> int32_ok sz \<Longrightarrow> reserveHeader m sz = Inr (b, m') \<Longrightarrow> msg_wf m'"
  by (cases "sz < 0")
     (auto simp: reserveHeader_deny, auto simp: reserveHeader_def msg_wf_def cint split: if_splits)

lemma msg_wf_pushHeader: "msg_wf m \<Longrightarrow> 0 \<le> sz \<Longrightarrow> pushHeader m sz = Inr (p, m') \<Longrightarrow> msg_wf m'"
  by (auto simp: pushHeader_def msg_wf_def cint split: if_splits)

lemma msg_wf_fill: "msg_wf m \<Longrightarrow> fill m buf len = Inr m' \<Longrightarrow> msg_wf m'"
  by (auto simp: fill_def msg_wf_def cint split: if_splits)


subsection \<open>Sequences of operations\<close>

fun fill_all :: "'e BaseMsg_scheme \<Rightarrow> u8 list list \<Rightarrow> 'e BaseMsg_scheme res" where
  "fill_all m [] = Inr m"
| "fill_all m (b # bs) = bindE (fill m b (int (length b))) (\<lambda>m'. fill_all m' bs)"

fun push_all :: "'e BaseMsg_scheme \<Rightarrow> int list \<Rightarrow> (int option list \<times> 'e BaseMsg_scheme) res" where
  "push_all m [] = Inr ([], m)"
| "push_all m (s # ss) =
     bindE (pushHeader m s) (\<lambda>(p, m'). bindE (push_all m' ss) (\<lambda>(ps, m''). Inr (p # ps, m'')))"

fun offsets :: "int \<Rightarrow> int list \<Rightarrow> int list" where
  "offsets h [] = []"
| "offsets h (s # ss) = h # offsets (h + s) ss"

lemma offsets_length [simp]: "length (offsets h ss) = length ss"
  by (induction ss arbitrary: h) auto

lemma sum_list_nonneg_int: "\<forall>s\<in>set ss. (0::int) \<le> s \<Longrightarrow> 0 \<le> sum_list ss"
  by (induction ss) auto

lemma offsets_nth: "i < length ss \<Longrightarrow> offsets h ss ! i = h + sum_list (take i ss)"
proof (induction ss arbitrary: h i)
  case (Cons s ss)
  then show ?case by (cases i) auto
qed simp

lemma msg_wf_fill_all: "msg_wf m \<Longrightarrow> fill_all m bs = Inr m' \<Longrightarrow> msg_wf m'"
  by (induction bs arbitrary: m) (auto intro: msg_wf_fill)

lemma fill_all_layout:
  assumes "msg_wf m" and "m_tail m + int (length (concat bs)) \<le> int (length (m_data m))"
    and "int32_ok (int (length (m_data m)))"
  shows "fill_all m bs =
    Inr (m\<lparr>m_data := take (nat (m_tail m)) (m_data m) @ concat bs
                       @ drop (nat (m_tail m) + length (concat bs)) (m_data m),
           m_tail := m_tail m + int (length (concat bs))\<rparr>)"
  using assms
proof (induction bs arbitrary: m)
  case Nil
  then show ?case by simp
next
  case (Cons b bs)
  have t0: "0 \<le> m_tail m" using Cons.prems(1) by (simp add: msg_wf_def)
  have fits: "m_tail m + int (length b) \<le> int (length (m_data m))"
    using Cons.prems(2) by simp
  with t0 Cons.prems(3) have ok: "int32_ok (m_tail m + int (length b))"
    by (auto simp: int32_ok_def)
  let ?m = "m\<lparr>m_data := take (nat (m_tail m)) (m_data m) @ b
                       @ drop (nat (m_tail m) + length b) (m_data m),
           m_tail := m_tail m + int (length b)\<rparr>"
  have step: "fill m b (int (length b)) = Inr ?m"
    by (rule fill_within [OF Cons.prems(1) fits ok])
  have len: "length (m_data ?m) = length (m_data m)"
    using fits t0 by simp
  have nt: "nat (m_tail m + int (length b)) = nat (m_tail m) + length b"
    using t0 by (simp add: nat_add_distrib)
  have tk: "nat (m_tail m) \<le> length (m_data m)" using fits t0 by simp
  have "fill_all ?m bs = Inr (?m\<lparr>m_data := take (nat (m_tail ?m)) (m_data ?m) @ concat bs
                       @ drop (nat (m_tail ?m) + length (concat bs)) (m_data ?m),
           m_tail := m_tail ?m + int (length (concat bs))\<rparr>)"
  proof (rule Cons.IH)
    show "msg_wf ?m" by (rule msg_wf_fill [OF Cons.prems(1) step])
    show "m_tail ?m + int (length (concat bs)) \<le> int (length (m_data ?m))"
      unfolding len using Cons.prems(2) by simp
    show "int32_ok (int (length (m_data ?m)))" unfolding len by (rule Cons.prems(3))
  qed
  with step nt tk show ?case by (simp add: ac_simps)
qed

lemma push_all_fit:
  assumes "msg_wf m" and "\<forall>s\<in>set ss. 0 \<le> s" and "sum_list ss \<le> m_curr m - m_head m"
  shows "push_all m ss =
    Inr (map Some (offsets (m_head m) ss), m\<lparr>m_head := m_head m + sum_list ss\<rparr>)"
  using assms
proof (induction ss arbitrary: m)
  case Nil
  then show ?case by simp
next
  case (Cons s ss)
  have "0 \<le> sum_list ss" using Cons.prems(2) by (simp add: sum_list_nonneg_int)
  with Cons.prems have step: "pushHeader m s = Inr (Some (m_head m), m\<lparr>m_head := m_head m + s\<rparr>)"
    by (intro pushHeader_fit) auto
  have "msg_wf (m\<lparr>m_head := m_head m + s\<rparr>)"
    using Cons.prems(1,2) step by (intro msg_wf_pushHeader [OF _ _ step]) auto
  with Cons.IH [of "m\<lparr>m_head := m_head m + s\<rparr>"] Cons.prems step show ?case by (simp add: add.assoc)
qed

section \<open>Properties\<close>

text \<open>(C35) Assembling a message: a fresh message of \<open>len\<close> bytes in which a header room of
  \<open>h\<close> bytes is reserved and then the byte strings \<open>bufs\<close> are filled in, all of it fitting
  into \<open>len\<close>, holds exactly the zeroed header room, the concatenation of the byte strings
  and zeroes; no operation fails, and resizing it to the filled length drops just the
  zeroes.\<close>

theorem msg_assembly:
  assumes "growth_ok g" and "int32_ok len" and "0 \<le> h"
    and "h + int (length (concat bufs)) \<le> len"
  shows "\<exists>m0 m1 m2 m3.
      BaseMsg_new g len = Inr m0 \<and> reserveHeader m0 h = Inr (True, m1) \<and>
      fill_all m1 bufs = Inr m2 \<and> msg_resize g m2 (m_tail m2) = Inr m3 \<and>
      m_data m2 = replicate (nat h) 0 @ concat bufs
                    @ replicate (nat len - nat h - length (concat bufs)) 0 \<and>
      m_data m3 = replicate (nat h) 0 @ concat bufs \<and> msg_wf m2"
proof -
  let ?m0 = "blank_msg\<lparr>m_data := replicate (nat len) 0, m_cap := (if len = 0 then 0 else g 0 (nat len))\<rparr>"
  let ?m1 = "?m0\<lparr>m_curr := h, m_tail := h\<rparr>"
  let ?d = "replicate (nat h) 0 @ concat bufs @ replicate (nat len - nat h - length (concat bufs)) 0"
  let ?t = "h + int (length (concat bufs))"
  let ?m2 = "?m1\<lparr>m_data := ?d, m_tail := ?t\<rparr>"
  have len: "0 \<le> len" and hle: "h \<le> len" using assms(3,4) by simp_all
  have new: "BaseMsg_new g len = Inr ?m0" by (rule BaseMsg_new_ok [OF len assms(2)])
  have wf0: "msg_wf ?m0" by (rule msg_wf_new [OF assms(1,2) new])
  have cap: "len \<le> int (m_cap ?m0)"
  proof -
    have "nat len \<le> g 0 (nat len)" using assms(1) by (simp add: growth_ok_def)
    then show ?thesis by (simp add: nat_le_iff)
  qed
  have okh: "int32_ok h" and okt: "int32_ok ?t" using assms(2-4) by (auto simp: int32_ok_def)
  have res: "reserveHeader ?m0 h = Inr (True, ?m1)"
    using reserveHeader_accept [OF wf0 assms(3)] cap hle okh by (simp add: blank_msg_def)
  have wf1: "msg_wf ?m1" by (rule msg_wf_reserveHeader [OF wf0 okh res])
  have fil: "fill_all ?m1 bufs = Inr ?m2"
    using fill_all_layout [OF wf1, of bufs] assms(2-4) len
    by (simp add: min_def nat_le_iff blank_msg_def)
  have wf2: "msg_wf ?m2"
    by (rule msg_wf_fill_all [OF wf1 fil])
  have nt: "to_size_t ?t = nat h + length (concat bufs)"
    using assms(3) okt by (simp add: cint nat_add_distrib)
  have rsz: "msg_resize g ?m2 (m_tail ?m2) = Inr (?m2\<lparr>m_data := replicate (nat h) 0 @ concat bufs\<rparr>)"
    using nt by (simp add: msg_resize_def vec_resize_def)
  show ?thesis
    by (intro exI conjI, rule new, rule res, rule fil, rule rsz, simp, simp, rule wf2)
qed


text \<open>Headers stay out of the payload and of one another: pushing headers of sizes
  \<open>ss\<close> whose sum fits the reserved room succeeds for each of them, hands out consecutive
  regions that start at the current header position and end before the payload, and changes
  neither the bytes nor the payload bounds; the next header that does not fit is refused
  with a null pointer and no change.\<close>

theorem headers_disjoint:
  assumes "msg_wf m" and "\<forall>s\<in>set ss. 0 \<le> s" and "sum_list ss \<le> m_curr m - m_head m"
    and "m_curr m - m_head m - sum_list ss < s'"
  shows "\<exists>m'. push_all m ss = Inr (map Some (offsets (m_head m) ss), m') \<and>
      pushHeader m' s' = Inr (None, m') \<and> msg_wf m' \<and>
      m_data m' = m_data m \<and> m_curr m' = m_curr m \<and> m_tail m' = m_tail m \<and>
      (\<forall>i<length ss. offsets (m_head m) ss ! i + ss ! i \<le> m_curr m \<and>
         (\<forall>j<i. offsets (m_head m) ss ! j + ss ! j \<le> offsets (m_head m) ss ! i))"
proof -
  let ?m = "m\<lparr>m_head := m_head m + sum_list ss\<rparr>"
  have pre: "sum_list (take j ss) + ss ! j \<le> sum_list (take i ss)" if "j < i" "i \<le> length ss" for i j
  proof -
    have "take i ss = take (Suc j) ss @ drop (Suc j) (take i ss)"
      using that by (metis Suc_leI append_take_drop_id min.absorb1 take_take)
    moreover have "0 \<le> sum_list (drop (Suc j) (take i ss))"
      using assms(2) by (intro sum_list_nonneg_int) (meson in_set_dropD in_set_takeD)
    ultimately have "sum_list (take (Suc j) ss) \<le> sum_list (take i ss)"
      by (metis add_increasing2 order_refl sum_list_append)
    then show ?thesis using that by (simp add: take_Suc_conv_app_nth)
  qed
  have "msg_wf ?m"
    using assms(1,3) sum_list_nonneg_int [OF assms(2)] by (auto simp: msg_wf_def)
  moreover from this have "pushHeader ?m s' = Inr (None, ?m)"
    using assms(4) by (intro pushHeader_nofit) simp_all
  ultimately show ?thesis
    using push_all_fit [OF assms(1-3)] pre pre [of _ "length ss"] assms(3)
    by (intro exI [of _ ?m]) (force simp: offsets_nth)
qed

text \<open>\<open>fill\<close> has exactly three outcomes on a message in good order: the bytes are
  appended when they fit the vector; the assertion fails when they exceed its capacity; and
  between \<open>size()\<close> and \<open>capacity()\<close>, which the guard lets pass, bytes are written past
  the end of the vector.\<close>

theorem fill_outcomes:
  assumes "msg_wf m" and "int32_ok (m_tail m + int (length buf))"
  shows "fill m buf (int (length buf)) =
    (let t = m_tail m + int (length buf) in
     if t \<le> int (length (m_data m))
     then Inr (m\<lparr>m_data := take (nat (m_tail m)) (m_data m) @ buf @ drop (nat t) (m_data m),
                 m_tail := t\<rparr>)
     else if t \<le> int (m_cap m) then Inl OutOfBounds else Inl AssertionFailed)"
proof -
  have "nat (m_tail m + int (length buf)) = nat (m_tail m) + length buf"
    using assms(1) by (simp add: msg_wf_def nat_add_distrib)
  then show ?thesis
    using fill_within [OF assms(1) _ assms(2)] fill_past_size [OF assms(1) _ _ assms(2)]
      fill_past_capacity [OF assms(1) _ assms(2)]
    by (simp add: Let_def)
qed

text \<open>\<open>reserveHeader\<close> compares only its own argument with the capacity, not the room
  already reserved: reserving more than half of the capacity twice is accepted, and
  \<open>pushHeader\<close> then hands out a header region that ends beyond the buffer.\<close>

theorem reserveHeader_twice_overruns:
  assumes "msg_wf m" and "m_head m = 0" and "m_curr m = 0" and "m_tail m = 0"
    and "sz \<le> int (m_cap m)" and "int (m_cap m) < 2 * sz" and "int32_ok (2 * sz)"
  shows "\<exists>m1 m2 m3. reserveHeader m sz = Inr (True, m1) \<and> reserveHeader m1 sz = Inr (True, m2) \<and>
      pushHeader m2 (2 * sz) = Inr (Some 0, m3) \<and> int (m_cap m3) < 0 + 2 * sz"
proof -
  let ?m1 = "m\<lparr>m_curr := sz, m_tail := sz\<rparr>"
  let ?m2 = "m\<lparr>m_curr := 2 * sz, m_tail := 2 * sz\<rparr>"
  have pos: "0 \<le> sz" and ok: "int32_ok sz" using assms(5-7) by (auto simp: int32_ok_def)
  have r1: "reserveHeader m sz = Inr (True, ?m1)"
    using reserveHeader_accept [OF assms(1) pos assms(5)] assms(3,4) ok by simp
  have wf1: "msg_wf ?m1" by (rule msg_wf_reserveHeader [OF assms(1) ok r1])
  have r2: "reserveHeader ?m1 sz = Inr (True, ?m2)"
    using reserveHeader_accept [OF wf1 pos] assms(5,7) by simp
  have wf2: "msg_wf ?m2" by (rule msg_wf_reserveHeader [OF wf1 ok r2])
  have "pushHeader ?m2 (2 * sz) = Inr (Some 0, ?m2\<lparr>m_head := 2 * sz\<rparr>)"
    using pushHeader_fit [OF wf2, of "2 * sz"] pos assms(2) by simp
  with r1 r2 assms(6) show ?thesis by auto
qed

section \<open>Witnesses\<close>

definition exact_growth :: growth where
  "exact_growth c n = n"

lemma growth_ok_exact: "growth_ok exact_growth"
  by (simp add: growth_ok_def exact_growth_def)

theorem msg_assembly_witness:
  "\<exists>m0 m1 m2 m3. BaseMsg_new exact_growth 8 = Inr m0 \<and> reserveHeader m0 2 = Inr (True, m1) \<and>
     fill_all m1 [[1, 2], [3]] = Inr m2 \<and> msg_resize exact_growth m2 (m_tail m2) = Inr m3 \<and>
     m_data m2 = [0, 0, 1, 2, 3, 0, 0, 0] \<and> m_data m3 = [0, 0, 1, 2, 3]"
  using msg_assembly [OF growth_ok_exact, of 8 2 "[[1, 2], [3]]"]
  by (auto simp: int32_ok_def numeral_eq_Suc)

definition sample_msg :: BaseMsg where
  "sample_msg = blank_msg\<lparr>m_data := [0, 0, 0, 0, 9, 0], m_cap := 8, m_curr := 4, m_tail := 5\<rparr>"

lemma sample_msg_wf: "msg_wf sample_msg"
  by (simp add: sample_msg_def msg_wf_def blank_msg_def int32_ok_def vec_max_size_def)

theorem headers_disjoint_witness:
  "\<exists>m'. push_all sample_msg [1, 2] = Inr ([Some 0, Some 1], m') \<and> pushHeader m' 2 = Inr (None, m')"
  using headers_disjoint [OF sample_msg_wf, of "[1, 2]" 2]
  by (auto simp: sample_msg_def blank_msg_def)

theorem fill_outcomes_witness:
  "fill sample_msg [7] 1 = Inr (sample_msg\<lparr>m_data := [0, 0, 0, 0, 9, 7], m_tail := 6\<rparr>) \<and>
   fill sample_msg [7, 7] 2 = Inl OutOfBounds \<and> fill sample_msg [7, 7, 7, 7] 4 = Inl AssertionFailed"
  using fill_outcomes [OF sample_msg_wf, of "[7]"] fill_outcomes [OF sample_msg_wf, of "[7, 7]"]
    fill_outcomes [OF sample_msg_wf, of "[7, 7, 7, 7]"]
  by (simp add: sample_msg_def blank_msg_def int32_ok_def)

theorem reserveHeader_twice_overruns_witness:
  "\<exists>m1 m2 m3. reserveHeader (blank_msg\<lparr>m_cap := 8\<rparr>) 6 = Inr (True, m1) \<and>
     reserveHeader m1 6 = Inr (True, m2) \<and> pushHeader m2 12 = Inr (Some 0, m3) \<and> m_cap m3 < 12"
  using reserveHeader_twice_overruns [of "blank_msg\<lparr>m_cap := 8\<rparr>" 6]
  by (auto simp: msg_wf_def blank_msg_def int32_ok_def vec_max_size_def)

end
