(* ===== verification/Channel.thy ===== *)
theory Channel
  imports Wait_Queue Base_Msg
begin

text \<open>
  The channel between two nodes, \<open>src/src/util/channel.h\<close>: a queue of at most 100 message
  pointers. A message pointer is a \<open>std::shared_ptr<BaseMsg>\<close>, \<^term>\<open>None\<close> when null; the
  message may be of a subclass, whose further members have the type \<open>'e\<close>.
  \<open>ReadMessage\<close> and \<open>WriteMessage\<close> drop the boolean result of the waiting loops, so a
  reader learns that a read was broken off only from its message staying null, and a writer
  does not learn it at all.
\<close>

section \<open>Model\<close>

type_synonym 'e msg_ptr = "'e BaseMsg_scheme option"

record 'T QueueBasedChannel =
  c_queue :: "'T Queue"

definition Channel_new :: "string \<Rightarrow> string \<Rightarrow> 'T QueueBasedChannel res" where
  "Channel_new uuid name = bindE (Queue_new uuid name 100) (\<lambda>q. Inr \<lparr>c_queue = q\<rparr>)"

definition ReadMessage ::
    "'T interference \<Rightarrow> 'T \<Rightarrow> 'T QueueBasedChannel \<Rightarrow> ('T \<times> 'T QueueBasedChannel) act" where
  "ReadMessage env msg ch =
     bindA (WaitDequeue env msg (c_queue ch)) (\<lambda>((_, msg'), q). done_act (msg', ch\<lparr>c_queue := q\<rparr>))"

definition WriteMessage ::
    "'T interference \<Rightarrow> 'T \<Rightarrow> 'T QueueBasedChannel \<Rightarrow> 'T QueueBasedChannel act" where
  "WriteMessage env msg ch =
     bindA (WaitEnqueue env msg (c_queue ch)) (\<lambda>(_, q). done_act (ch\<lparr>c_queue := q\<rparr>))"

definition Channel_Id :: "'T QueueBasedChannel \<Rightarrow> string" where
  "Channel_Id ch = q_uuid (c_queue ch)"

section \<open>Lemmas\<close>

abbreviation pending :: "'T QueueBasedChannel \<Rightarrow> 'T list" where
  "pending ch \<equiv> q_pool (c_queue ch)"

abbreviation broken :: "'T QueueBasedChannel \<Rightarrow> bool" where
  "broken ch \<equiv> q_break (c_queue ch)"

definition chan_wf :: "'T QueueBasedChannel \<Rightarrow> bool" where
  "chan_wf ch \<longleftrightarrow> queue_wf (c_queue ch) \<and> q_pool_size (c_queue ch) = 100"

lemma chan_cap: "chan_wf ch \<Longrightarrow> queue_cap (c_queue ch) = 100"
  by (simp add: chan_wf_def to_size_t_def)

lemma chan_wf_new: "Channel_new uuid name = Inr ch \<Longrightarrow> chan_wf ch \<and> pending ch = [] \<and> \<not> broken ch"
  by (auto simp: Channel_new_def chan_wf_def Queue_new_eq queue_wf_def)

lemma ReadMessage_Cons:
  assumes "chan_wf ch" and "\<not> broken ch" and "pending ch = m # ms"
  shows "ReadMessage [] e ch = done_act (m, ch\<lparr>c_queue := (c_queue ch)\<lparr>q_pool := ms\<rparr>\<rparr>)"
  using assms by (simp add: ReadMessage_def chan_wf_def WaitDequeue_Nil)

lemma ReadMessage_broken:
  assumes "chan_wf ch" and "broken ch"
  shows "ReadMessage [] e ch = done_act (e, ch)"
  using assms by (simp add: ReadMessage_def chan_wf_def WaitDequeue_Nil)

lemma ReadMessage_empty:
  assumes "chan_wf ch" and "\<not> broken ch" and "pending ch = []"
  shows "ReadMessage [] e ch = None"
  using assms by (simp add: ReadMessage_def chan_wf_def WaitDequeue_Nil)

lemma WriteMessage_room:
  assumes "chan_wf ch" and "\<not> broken ch" and "length (pending ch) < 100"
  shows "WriteMessage [] m ch = done_act (ch\<lparr>c_queue := (c_queue ch)\<lparr>q_pool := pending ch @ [m]\<rparr>\<rparr>)"
  using assms chan_cap [OF assms(1)] by (simp add: WriteMessage_def chan_wf_def WaitEnqueue_Nil)

lemma WriteMessage_full:
  assumes "chan_wf ch" and "\<not> broken ch" and "100 \<le> length (pending ch)"
  shows "WriteMessage [] m ch = None"
  using assms chan_cap [OF assms(1)] by (simp add: WriteMessage_def chan_wf_def WaitEnqueue_Nil)

lemma WriteMessage_broken:
  assumes "chan_wf ch" and "broken ch"
  shows "WriteMessage [] m ch = done_act ch"
  using assms by (simp add: WriteMessage_def chan_wf_def WaitEnqueue_Nil)

lemma chan_wf_pool: "chan_wf ch \<Longrightarrow> length ms \<le> 100 \<Longrightarrow>
    chan_wf (ch\<lparr>c_queue := (c_queue ch)\<lparr>q_pool := ms\<rparr>\<rparr>)"
  by (simp add: chan_wf_def queue_wf_def to_size_t_def)

lemma chan_wf_length: "chan_wf ch \<Longrightarrow> length (pending ch) \<le> 100"
  by (auto simp: chan_wf_def queue_wf_def to_size_t_def)

lemma chan_wf_tail: "chan_wf ch \<Longrightarrow> pending ch = m # ms \<Longrightarrow>
    chan_wf (ch\<lparr>c_queue := (c_queue ch)\<lparr>q_pool := ms\<rparr>\<rparr>)"
  using chan_wf_length [of ch] by (intro chan_wf_pool) auto

lemmas channel_ops = ReadMessage_Cons ReadMessage_broken ReadMessage_empty
  WriteMessage_room WriteMessage_full WriteMessage_broken

text \<open>A channel keeps the contract of its queue, with the capacity fixed: the laws are those of
  the queue carried through the field.\<close>

interpretation channel: message_channel "WriteMessage []" "ReadMessage []"
    pending "\<lambda>_. 100" broken chan_wf
  by unfold_locales
     (auto simp: channel_ops chan_wf_pool chan_wf_tail)

section \<open>Properties\<close>

text \<open>A channel delivers: up to 100 messages written to a new channel are accepted without
  blocking and come out of it unchanged and in order, leaving it empty; the 101st write
  blocks.\<close>

theorem channel_delivers:
  assumes "Channel_new uuid name = Inr ch" and "length ms \<le> 100"
  shows "\<exists>ch' ch''. write_all (WriteMessage []) ms ch = done_act ch' \<and>
      read_all (ReadMessage []) e (length ms) ch' = done_act (ms, ch'') \<and> pending ch'' = [] \<and>
      (length ms = 100 \<longrightarrow> (\<forall>m. WriteMessage [] m ch' = None))"
proof -
  have new: "chan_wf ch" "pending ch = []" "\<not> broken ch"
    using chan_wf_new [OF assms(1)] by simp_all
  then obtain ch' where w: "write_all (WriteMessage []) ms ch = done_act ch'"
      "pending ch' = ms" "\<not> broken ch'" "chan_wf ch'"
    using channel.write_all_room [of ch ms] assms(2) by auto
  then obtain ch'' where "read_all (ReadMessage []) e (length ms) ch' = done_act (ms, ch'')"
      "pending ch'' = []"
    using channel.read_all_contents [of ch' ms "[]" e] by auto
  moreover have "length ms = 100 \<Longrightarrow> WriteMessage [] m ch' = None" for m
    using w by (intro channel.write_full) simp_all
  ultimately show ?thesis using w(1) by blast
qed

text \<open>A channel that has been broken loses messages silently: every write returns normally
  and leaves the channel as it is, and every read returns normally with the caller's
  variable untouched, even if messages are pending.\<close>

theorem broken_channel_drops:
  assumes "chan_wf ch" and "broken ch"
  shows "write_all (WriteMessage []) ms ch = done_act ch \<and>
         read_all (ReadMessage []) e n ch = done_act (replicate n e, ch)"
  using channel.closed_writes_lost [OF assms] channel.closed_reads_null [OF assms] by simp

section \<open>Witnesses\<close>

definition sample_channel :: "'e msg_ptr QueueBasedChannel" where
  "sample_channel = \<lparr>c_queue = \<lparr>q_pool = [], q_pool_size = 100, q_name = ''a:b'', q_uuid = ''00'',
     q_wait = Some BlockWaitStrategy, q_break = False\<rparr>\<rparr>"

lemma sample_channel_new: "Channel_new ''00'' ''a:b'' = Inr sample_channel"
  by (simp add: Channel_new_def Queue_new_eq sample_channel_def)

theorem channel_delivers_witness:
  "\<exists>ch' ch''. write_all (WriteMessage []) [Some blank_msg, None] sample_channel = done_act ch' \<and>
     read_all (ReadMessage []) None 2 ch' = done_act ([Some blank_msg, None], ch'')"
  using channel_delivers [OF sample_channel_new, of "[Some blank_msg, None]" None]
  by (auto simp: numeral_2_eq_2)

theorem broken_channel_drops_witness:
  "let ch = sample_channel\<lparr>c_queue := (c_queue sample_channel)\<lparr>q_pool := [Some blank_msg], q_break := True\<rparr>\<rparr>
   in read_all (ReadMessage []) None 1 ch = done_act ([None], ch)"
proof -
  let ?ch = "sample_channel\<lparr>c_queue := (c_queue sample_channel)\<lparr>q_pool := [Some blank_msg], q_break := True\<rparr>\<rparr>"
  have "chan_wf ?ch" "broken ?ch"
    by (simp_all add: chan_wf_def queue_wf_def sample_channel_def to_size_t_def)
  from broken_channel_drops [OF this, of "[]" None 1] show ?thesis by (simp add: Let_def)
qed

end
