(* ===== verification/Node.thy ===== *)
theory Node
  imports Channel
begin

text \<open>
  Nodes, \<open>src/src/util/node.h\<close> and \<open>src/src/util/node_duplex.h\<close>: objects that read
  messages from their input channels and pass them on.

  Channels and nodes are shared objects, so they live in a store (\<open>world\<close>) and are named by
  their position there: a node holds the positions of its channels, and two nodes that hold
  the same position share the channel. The member functions that subclasses override are
  called through the node's type: \<open>NODE_FULL_DUPLEX\<close> nodes are \<open>NodeDuplex\<close> objects,
  whose channel accessors exchange the two sides. \<open>HandleMsg\<close> and \<open>FDWrite\<close> are pure
  virtual here and are arguments; \<open>w_ext\<close> is the state outside the framework that they may
  change, such as the members of the subclass. \<open>ChnType\<close> has the two values the sources name (its header is not part of the
  repository).

  An operation runs at a moment at which it can finish (interference \<^term>\<open>[]\<close>); while a
  channel makes it wait it is \<^term>\<open>None\<close>.
\<close>

section \<open>Model\<close>

datatype NodeType = NODE_SOURCE | NODE_SINK | NODE_FULL_DUPLEX | NODE_RELAY

datatype ChnType = CHN_IN | CHN_OUT

record Node =
  n_type :: NodeType
  n_name :: string
  n_is_stop :: bool
  n_tid :: int
  n_worker_cnt :: int
  n_up :: "nat list"
  n_down :: "nat list"

record ('e, 'x) world =
  w_chans :: "'e msg_ptr QueueBasedChannel list"
  w_nodes :: "Node list"
  w_processor_id :: "NodeType \<Rightarrow> int"
  w_ext :: 'x

definition Node_new :: "NodeType \<Rightarrow> string \<Rightarrow> Node" where
  "Node_new type name = \<lparr>n_type = type, n_name = name, n_is_stop = True, n_tid = 0,
     n_worker_cnt = 0, n_up = [], n_down = []\<rparr>"

definition isOk :: "Node \<Rightarrow> bool" where
  "isOk n \<longleftrightarrow> \<not> n_is_stop n"

subsection \<open>Channel accessors\<close>

definition Node_AddChannel :: "Node \<Rightarrow> nat \<Rightarrow> ChnType \<Rightarrow> Node" where
  "Node_AddChannel n channel ct =
     (if ct = CHN_OUT then n\<lparr>n_down := n_down n @ [channel]\<rparr> else n\<lparr>n_up := n_up n @ [channel]\<rparr>)"

definition Node_GetChannel :: "Node \<Rightarrow> int \<Rightarrow> ChnType \<Rightarrow> nat res" where
  "Node_GetChannel n i ct = vec_at (if ct = CHN_OUT then n_down n else n_up n) i"

definition Node_GetChannelNum :: "Node \<Rightarrow> ChnType \<Rightarrow> int" where
  "Node_GetChannelNum n ct = to_int32 (int (length (if ct = CHN_OUT then n_down n else n_up n)))"

definition NodeDuplex_AddChannel :: "Node \<Rightarrow> nat \<Rightarrow> ChnType \<Rightarrow> Node" where
  "NodeDuplex_AddChannel n channel ct =
     (if ct = CHN_IN then n\<lparr>n_down := n_down n @ [channel]\<rparr> else n\<lparr>n_up := n_up n @ [channel]\<rparr>)"

definition NodeDuplex_GetChannel :: "Node \<Rightarrow> int \<Rightarrow> ChnType \<Rightarrow> nat res" where
  "NodeDuplex_GetChannel n i ct = vec_at (if ct = CHN_IN then n_down n else n_up n) i"

definition NodeDuplex_GetChannelNum :: "Node \<Rightarrow> ChnType \<Rightarrow> int" where
  "NodeDuplex_GetChannelNum n ct = to_int32 (int (length (if ct = CHN_IN then n_down n else n_up n)))"

text \<open>Virtual calls.\<close>

definition AddChannel :: "Node \<Rightarrow> nat \<Rightarrow> ChnType \<Rightarrow> Node" where
  "AddChannel n = (if n_type n = NODE_FULL_DUPLEX then NodeDuplex_AddChannel n else Node_AddChannel n)"

definition GetChannel :: "Node \<Rightarrow> int \<Rightarrow> ChnType \<Rightarrow> nat res" where
  "GetChannel n = (if n_type n = NODE_FULL_DUPLEX then NodeDuplex_GetChannel n else Node_GetChannel n)"

definition GetChannelNum :: "Node \<Rightarrow> ChnType \<Rightarrow> int" where
  "GetChannelNum n =
     (if n_type n = NODE_FULL_DUPLEX then NodeDuplex_GetChannelNum n else Node_GetChannelNum n)"

definition node_out :: "Node \<Rightarrow> string" where
  "node_out n =
     (let label = ''Node:  '' @ n_name n in label @ replicate (12 - length label) CHR '' '')
     @ [CHR 0x09] @ ''threads: '' @ show_int (n_worker_cnt n)
     @ [CHR 0x09] @ ''up-channel: '' @ show_int (GetChannelNum n CHN_IN)
     @ [CHR 0x09] @ ''down-channel: '' @ show_int (GetChannelNum n CHN_OUT)"

subsection \<open>Stopping\<close>

abbreviation set_chan :: "nat \<Rightarrow> 'e msg_ptr QueueBasedChannel \<Rightarrow> ('e, 'x) world \<Rightarrow> ('e, 'x) world" where
  "set_chan c ch w \<equiv> w\<lparr>w_chans := (w_chans w)[c := ch]\<rparr>"

abbreviation set_node :: "nat \<Rightarrow> Node \<Rightarrow> ('e, 'x) world \<Rightarrow> ('e, 'x) world" where
  "set_node i n w \<equiv> w\<lparr>w_nodes := (w_nodes w)[i := n]\<rparr>"

fun break_channels :: "nat list \<Rightarrow> ('e, 'x) world \<Rightarrow> ('e, 'x) world res" where
  "break_channels [] w = Inr w"
| "break_channels (c # cs) w =
     bindE (deref (w_chans w) c) (\<lambda>ch.
     bindE (BreakAllWait (c_queue ch)) (\<lambda>q.
     break_channels cs (set_chan c (ch\<lparr>c_queue := q\<rparr>) w)))"

definition Node_Stop :: "nat \<Rightarrow> ('e, 'x) world \<Rightarrow> ('e, 'x) world res" where
  "Node_Stop i w =
     bindE (deref (w_nodes w) i) (\<lambda>n.
     bindE (break_channels (n_up n) (set_node i (n\<lparr>n_is_stop := True\<rparr>) w)) (\<lambda>w'.
     break_channels (n_down n) w'))"

definition StopSignal :: "Node \<Rightarrow> 'e BaseMsg_scheme \<Rightarrow> bool \<times> Node" where
  "StopSignal n msg =
     (if m_type msg = TYPE_SIGNAL \<and> m_signal msg = SIGNAL_STOP
      then (True, n\<lparr>n_is_stop := True\<rparr>) else (False, n))"

subsection \<open>Passing messages on\<close>

definition Dispatch :: "nat \<Rightarrow> 'e msg_ptr \<Rightarrow> ('e, 'x) world \<Rightarrow> ('e, 'x) world act" where
  "Dispatch i msg w =
     bindA (Some (deref (w_nodes w) i)) (\<lambda>n.
       if GetChannelNum n CHN_OUT = 0 then done_act w
       else case msg of
              None \<Rightarrow> fail_act NullDereference
            | Some m \<Rightarrow>
                let k = int (unat (m_id m)) mod (GetChannelNum n CHN_OUT mod 2 ^ 32) in
                bindA (Some (GetChannel n (to_int32 k) CHN_OUT)) (\<lambda>c.
                bindA (Some (deref (w_chans w) c)) (\<lambda>ch.
                bindA (WriteMessage [] msg ch) (\<lambda>ch'.
                done_act (set_chan c ch' w)))))"

type_synonym ('e, 'x) msg_handler = "nat \<Rightarrow> 'e BaseMsg_scheme \<Rightarrow> ('e, 'x) world \<Rightarrow> ('e, 'x) world act"

definition HandlerRelaying :: "('e, 'x) msg_handler \<Rightarrow> nat \<Rightarrow> nat \<Rightarrow> ('e, 'x) world \<Rightarrow> ('e, 'x) world act" where
  "HandlerRelaying HandleMsg i channel w =
     bindA (Some (deref (w_chans w) channel)) (\<lambda>ch.
     bindA (ReadMessage [] None ch) (\<lambda>(msg, ch').
       let w1 = set_chan channel ch' w in
       case msg of
         None \<Rightarrow> done_act w1
       | Some m \<Rightarrow>
           bindA (Some (deref (w_nodes w1) i)) (\<lambda>n.
             let (stop, n') = StopSignal n m; w2 = set_node i n' w1 in
             if stop then Dispatch i msg w2 else HandleMsg i m w2)))"

text \<open>\<open>NodeDuplex::HandleWritting\<close> with \<open>NodeDuplex::HandleMsg\<close>, which discards the result
  of \<open>FDWrite\<close>.\<close>

type_synonym ('e, 'x) fd_write = "nat \<Rightarrow> 'e BaseMsg_scheme \<Rightarrow> ('e, 'x) world \<Rightarrow> (int \<times> ('e, 'x) world) act"

definition NodeDuplex_HandleMsg :: "('e, 'x) fd_write \<Rightarrow> ('e, 'x) msg_handler" where
  "NodeDuplex_HandleMsg FDWrite i m w = bindA (FDWrite i m w) (\<lambda>(_, w'). done_act w')"

definition HandleWritting :: "('e, 'x) fd_write \<Rightarrow> nat \<Rightarrow> nat \<Rightarrow> ('e, 'x) world \<Rightarrow> ('e, 'x) world act" where
  "HandleWritting FDWrite i channel w =
     bindA (Some (deref (w_chans w) channel)) (\<lambda>ch.
     bindA (ReadMessage [] None ch) (\<lambda>(msg, ch').
       let w1 = set_chan channel ch' w in
       case msg of None \<Rightarrow> done_act w1 | Some m \<Rightarrow> NodeDuplex_HandleMsg FDWrite i m w1))"

subsection \<open>The thread entry\<close>

definition IncThreads :: "Node \<Rightarrow> (int \<times> Node) res" where
  "IncThreads n =
     (if GetChannelNum n CHN_IN = 0 then Inl AssertionFailed
      else let selected = cmod (n_worker_cnt n) (GetChannelNum n CHN_IN)
           in bindE (add32 (n_worker_cnt n) 1) (\<lambda>k. Inr (selected, n\<lparr>n_worker_cnt := k\<rparr>)))"

text \<open>What the operating system answers to \<open>ThreadAffinity\<close>: the number of processors, the
  result of \<open>pthread_setaffinity_np\<close> and the thread id.\<close>

record os_thread =
  os_nproc :: int
  os_setaffinity :: int
  os_tid :: int

definition ThreadAffinity :: "os_thread \<Rightarrow> nat \<Rightarrow> ('e, 'x) world \<Rightarrow> (int \<times> ('e, 'x) world) res" where
  "ThreadAffinity os i w =
     bindE (deref (w_nodes w) i) (\<lambda>n.
     bindE (add32 (w_processor_id w (n_type n)) 1) (\<lambda>p.
       if os_nproc os = 0 then Inl DivisionByZero
       else let cpu = cmod p (os_nproc os);
                w' = w\<lparr>w_processor_id := (w_processor_id w)(n_type n := p)\<rparr>
            in Inr (cpu, if os_setaffinity os \<noteq> 0 then w'
                         else set_node i (n\<lparr>n_tid := os_tid os\<rparr>) w')))"

text \<open>The loop \<open>while (!is_stop_) handler(channel);\<close> runs for at most \<open>fuel\<close> tests of the
  flag.\<close>

fun work_loop :: "nat \<Rightarrow> (('e, 'x) world \<Rightarrow> ('e, 'x) world act) \<Rightarrow> nat \<Rightarrow> ('e, 'x) world \<Rightarrow> ('e, 'x) world act" where
  "work_loop 0 handler i w = None"
| "work_loop (Suc fuel) handler i w =
     bindA (Some (deref (w_nodes w) i)) (\<lambda>n.
       if n_is_stop n then done_act w else bindA (handler w) (work_loop fuel handler i))"

definition DoWork ::
    "nat \<Rightarrow> os_thread \<Rightarrow> ('e, 'x) msg_handler \<Rightarrow> ('e, 'x) fd_write \<Rightarrow> nat \<Rightarrow> ('e, 'x) world \<Rightarrow> ('e, 'x) world act" where
  "DoWork fuel os HandleMsg FDWrite i w =
     bindA (Some (ThreadAffinity os i w)) (\<lambda>(_, w1).
     bindA (Some (deref (w_nodes w1) i)) (\<lambda>n.
     bindA (Some (IncThreads n)) (\<lambda>(chn_index, n').
       let w2 = set_node i n' w1 in
       bindA (Some (GetChannel n' chn_index CHN_IN)) (\<lambda>channel.
         if n_type n' = NODE_FULL_DUPLEX
         then work_loop fuel (HandleWritting FDWrite i channel) i w2
         else work_loop fuel (HandlerRelaying HandleMsg i channel) i w2))))"


section \<open>Lemmas\<close>

subsection \<open>The accessor contract\<close>

text \<open>
  Both kinds of node keep, for each direction, a vector of channels that grows at the end.
  \<open>view\<close> is that vector; which member it is differs between the implementations.
\<close>

locale channel_table =
  fixes add :: "Node \<Rightarrow> nat \<Rightarrow> ChnType \<Rightarrow> Node"
    and get :: "Node \<Rightarrow> int \<Rightarrow> ChnType \<Rightarrow> nat res"
    and num :: "Node \<Rightarrow> ChnType \<Rightarrow> int"
    and view :: "Node \<Rightarrow> ChnType \<Rightarrow> nat list"
  assumes view_add: "view (add n c ct) ct' = (if ct' = ct then view n ct @ [c] else view n ct')"
    and get_view: "get n i ct = vec_at (view n ct) i"
    and num_view: "num n ct = to_int32 (int (length (view n ct)))"
    and add_keeps: "n_type (add n c ct) = n_type n" "n_name (add n c ct) = n_name n"
      "n_is_stop (add n c ct) = n_is_stop n" "n_worker_cnt (add n c ct) = n_worker_cnt n"
begin

lemma num_small: "length (view n ct) < 2 ^ 31 \<Longrightarrow> num n ct = int (length (view n ct))"
  by (simp add: num_view cint int32_ok_def)

lemma get_small: "k < length (view n ct) \<Longrightarrow> length (view n ct) < 2 ^ 31 \<Longrightarrow>
    get n (int k) ct = Inr (view n ct ! k)"
  by (simp add: get_view int32_ok_def)

lemma get_added: "length (view n ct) < 2 ^ 31 \<Longrightarrow> get (add n c ct) (num n ct) ct = Inr c"
  by (simp add: get_view view_add num_small int32_ok_def vec_at_def to_size_t_def)

lemma num_zero_iff: "length (view n ct) < 2 ^ 31 \<Longrightarrow> num n ct = 0 \<longleftrightarrow> view n ct = []"
  by (simp add: num_small)

end

lemma ChnType_not [simp]: "ct \<noteq> CHN_IN \<longleftrightarrow> ct = CHN_OUT" "ct \<noteq> CHN_OUT \<longleftrightarrow> ct = CHN_IN"
  by (cases ct; simp)+

definition side :: "Node \<Rightarrow> ChnType \<Rightarrow> nat list" where
  "side n ct = (if (n_type n = NODE_FULL_DUPLEX) = (ct = CHN_IN) then n_down n else n_up n)"

interpretation node_table: channel_table Node_AddChannel Node_GetChannel Node_GetChannelNum
    "\<lambda>n ct. if ct = CHN_OUT then n_down n else n_up n"
  by unfold_locales (auto simp: Node_AddChannel_def Node_GetChannel_def Node_GetChannelNum_def)

interpretation duplex_table: channel_table NodeDuplex_AddChannel NodeDuplex_GetChannel
    NodeDuplex_GetChannelNum "\<lambda>n ct. if ct = CHN_IN then n_down n else n_up n"
  by unfold_locales
     (auto simp: NodeDuplex_AddChannel_def NodeDuplex_GetChannel_def NodeDuplex_GetChannelNum_def)

lemma AddChannel_kind: "n_type (AddChannel n c ct) = n_type n"
  by (simp add: AddChannel_def node_table.add_keeps duplex_table.add_keeps)

interpretation any_table: channel_table AddChannel GetChannel GetChannelNum side
proof unfold_locales
  fix n c ct ct'
  show "side (AddChannel n c ct) ct' = (if ct' = ct then side n ct @ [c] else side n ct')"
    by (cases ct; cases ct')
       (auto simp: side_def AddChannel_def Node_AddChannel_def NodeDuplex_AddChannel_def)
next
  fix n i ct
  show "GetChannel n i ct = vec_at (side n ct) i"
    by (cases ct) (auto simp: side_def GetChannel_def Node_GetChannel_def NodeDuplex_GetChannel_def)
  show "GetChannelNum n ct = to_int32 (int (length (side n ct)))"
    by (cases ct)
       (auto simp: side_def GetChannelNum_def Node_GetChannelNum_def NodeDuplex_GetChannelNum_def)
qed (simp_all add: AddChannel_def node_table.add_keeps duplex_table.add_keeps)

subsection \<open>Dispatching\<close>

lemma Dispatch_keeps:
  "Dispatch i msg w = done_act w' \<Longrightarrow> w_nodes w' = w_nodes w \<and> w_ext w' = w_ext w \<and>
   length (w_chans w') = length (w_chans w)"
  by (auto simp: Dispatch_def Let_def split: if_splits option.splits)

lemma Dispatch_no_output:
  "i < length (w_nodes w) \<Longrightarrow> side (w_nodes w ! i) CHN_OUT = [] \<Longrightarrow> Dispatch i msg w = done_act w"
  by (simp add: Dispatch_def any_table.num_small)

lemma Dispatch_index:
  assumes "i < length (w_nodes w)" and "side (w_nodes w ! i) CHN_OUT = outs" and "outs \<noteq> []"
    and "length outs < 2 ^ 31" and "c = outs ! (unat (m_id m) mod length outs)"
    and "c < length (w_chans w)"
  shows "Dispatch i (Some m) w =
    bindA (WriteMessage [] (Some m) (w_chans w ! c)) (\<lambda>ch. done_act (set_chan c ch w))"
proof -
  let ?n = "w_nodes w ! i" and ?k = "unat (m_id m) mod length outs"
  have num: "GetChannelNum ?n CHN_OUT = int (length outs)"
    using any_table.num_small [of ?n CHN_OUT] assms(2,4) by simp
  have k: "int (unat (m_id m)) mod (int (length outs) mod 2 ^ 32) = int ?k"
    using assms(4) by (simp add: zmod_int)
  have lt: "?k < length outs" using assms(3) by simp
  then have "to_int32 (int ?k) = int ?k"
    using assms(4) by (intro to_int32_id) (simp add: int32_ok_def)
  moreover have "GetChannel ?n (int ?k) CHN_OUT = Inr c"
    using any_table.get_small [of ?k ?n CHN_OUT] lt assms(2,4,5) by simp
  ultimately show ?thesis
    using assms(1,3,6) num k by (simp add: Dispatch_def Let_def)
qed

subsection \<open>Stopping\<close>

abbreviation broken_chan :: "'e msg_ptr QueueBasedChannel \<Rightarrow> 'e msg_ptr QueueBasedChannel" where
  "broken_chan ch \<equiv> ch\<lparr>c_queue := (c_queue ch)\<lparr>q_break := True\<rparr>\<rparr>"

lemma BreakAllWait_wf: "chan_wf ch \<Longrightarrow> BreakAllWait (c_queue ch) = Inr ((c_queue ch)\<lparr>q_break := True\<rparr>)"
  by (auto simp: BreakAllWait_def chan_wf_def queue_wf_def)

lemma chan_wf_broken: "chan_wf ch \<Longrightarrow> chan_wf (broken_chan ch)"
  by (auto simp: chan_wf_def queue_wf_def)

definition chans_wf :: "('e, 'x) world \<Rightarrow> bool" where
  "chans_wf w \<longleftrightarrow> (\<forall>c<length (w_chans w). chan_wf (w_chans w ! c))"

lemma break_channels_all:
  assumes "chans_wf w" and "\<forall>c\<in>set cs. c < length (w_chans w)"
  shows "\<exists>w'. break_channels cs w = Inr w' \<and> w_nodes w' = w_nodes w \<and> w_ext w' = w_ext w \<and>
      length (w_chans w') = length (w_chans w) \<and>
      (\<forall>c<length (w_chans w). w_chans w' ! c =
         (if c \<in> set cs then broken_chan (w_chans w ! c) else w_chans w ! c))"
  using assms
proof (induction cs arbitrary: w)
  case Nil
  then show ?case by simp
next
  case (Cons c cs)
  let ?w = "set_chan c (broken_chan (w_chans w ! c)) w"
  have step: "break_channels (c # cs) w = break_channels cs ?w"
    using Cons.prems by (simp add: chans_wf_def BreakAllWait_wf)
  have "chans_wf ?w"
    using Cons.prems by (auto simp: chans_wf_def nth_list_update chan_wf_broken)
  with Cons.IH [of ?w] Cons.prems(2) obtain w' where
    "break_channels cs ?w = Inr w'" "w_nodes w' = w_nodes ?w" "w_ext w' = w_ext ?w"
    "length (w_chans w') = length (w_chans ?w)"
    "\<forall>d<length (w_chans ?w). w_chans w' ! d =
       (if d \<in> set cs then broken_chan (w_chans ?w ! d) else w_chans ?w ! d)"
    by auto
  moreover have "c < length (w_chans w)" using Cons.prems(2) by simp
  ultimately show ?case unfolding step by (intro exI [of _ w']) (auto simp: nth_list_update)
qed

lemma broken_chan_simps [simp]: "broken (broken_chan ch)" "broken_chan (broken_chan ch) = broken_chan ch"
  by simp_all

lemma Node_Stop_effect:
  assumes "chans_wf w" and "i < length (w_nodes w)"
    and "\<forall>c\<in>set (n_up (w_nodes w ! i)) \<union> set (n_down (w_nodes w ! i)). c < length (w_chans w)"
  shows "\<exists>w'. Node_Stop i w = Inr w' \<and>
      w_nodes w' = (w_nodes w)[i := (w_nodes w ! i)\<lparr>n_is_stop := True\<rparr>] \<and> w_ext w' = w_ext w \<and>
      length (w_chans w') = length (w_chans w) \<and> chans_wf w' \<and>
      (\<forall>c<length (w_chans w). w_chans w' ! c =
         (if c \<in> set (n_up (w_nodes w ! i)) \<union> set (n_down (w_nodes w ! i))
          then broken_chan (w_chans w ! c) else w_chans w ! c))"
proof -
  let ?n = "w_nodes w ! i"
  let ?w0 = "set_node i (?n\<lparr>n_is_stop := True\<rparr>) w"
  have "chans_wf ?w0" using assms(1) by (simp add: chans_wf_def)
  then obtain w1 where w1: "break_channels (n_up ?n) ?w0 = Inr w1" "w_nodes w1 = w_nodes ?w0"
      "w_ext w1 = w_ext w" "length (w_chans w1) = length (w_chans w)"
      "\<forall>c<length (w_chans w). w_chans w1 ! c =
         (if c \<in> set (n_up ?n) then broken_chan (w_chans w ! c) else w_chans w ! c)"
    using break_channels_all [of ?w0 "n_up ?n"] assms(3) by auto
  have wf1: "chans_wf w1"
    using assms(1) w1(4,5) by (auto simp: chans_wf_def chan_wf_broken)
  then obtain w2 where w2: "break_channels (n_down ?n) w1 = Inr w2" "w_nodes w2 = w_nodes w1"
      "w_ext w2 = w_ext w1" "length (w_chans w2) = length (w_chans w1)"
      "\<forall>c<length (w_chans w1). w_chans w2 ! c =
         (if c \<in> set (n_down ?n) then broken_chan (w_chans w1 ! c) else w_chans w1 ! c)"
    using break_channels_all [of w1 "n_down ?n"] assms(3) w1(4) by auto
  have "chans_wf w2"
    using wf1 w2(4,5) by (auto simp: chans_wf_def chan_wf_broken)
  moreover have "Node_Stop i w = Inr w2"
    using assms(2) w1(1) w2(1) by (simp add: Node_Stop_def)
  ultimately show ?thesis
    using w1 w2 by (intro exI [of _ w2]) auto
qed


subsection \<open>The worker loop\<close>

abbreviation stop_msg :: "'e BaseMsg_scheme \<Rightarrow> bool" where
  "stop_msg m \<equiv> m_type m = TYPE_SIGNAL \<and> m_signal m = SIGNAL_STOP"

text \<open>
  What a worker relies on from \<open>HandleMsg\<close>: it finishes, leaves its own node and the channel
  it was called from alone, and changes the outside by \<open>g\<close>.
\<close>

definition handler_ok :: "('e, 'x) msg_handler \<Rightarrow> nat \<Rightarrow> nat \<Rightarrow> ('e BaseMsg_scheme \<Rightarrow> 'x \<Rightarrow> 'x) \<Rightarrow> bool" where
  "handler_ok H i c g \<longleftrightarrow>
     (\<forall>m w. i < length (w_nodes w) \<longrightarrow> c < length (w_chans w) \<longrightarrow>
        (\<exists>w'. H i m w = done_act w' \<and> i < length (w_nodes w') \<and> w_nodes w' ! i = w_nodes w ! i \<and>
              c < length (w_chans w') \<and> w_chans w' ! c = w_chans w ! c \<and>
              w_ext w' = g m (w_ext w)))"

lemma handler_okE:
  assumes "handler_ok H i c g" and "i < length (w_nodes w)" and "c < length (w_chans w)"
  obtains w' where "H i m w = done_act w'" "i < length (w_nodes w')" "w_nodes w' ! i = w_nodes w ! i"
    "c < length (w_chans w')" "w_chans w' ! c = w_chans w ! c" "w_ext w' = g m (w_ext w)"
  using assms unfolding handler_ok_def by blast

lemma HandlerRelaying_msg:
  assumes "i < length (w_nodes w)" and "c < length (w_chans w)" and "chan_wf (w_chans w ! c)"
    and "\<not> broken (w_chans w ! c)" and "pending (w_chans w ! c) = Some m # ms"
  defines "w1 \<equiv> set_chan c ((w_chans w ! c)\<lparr>c_queue := (c_queue (w_chans w ! c))\<lparr>q_pool := ms\<rparr>\<rparr>) w"
  shows "HandlerRelaying H i c w =
    (if stop_msg m then Dispatch i (Some m) (set_node i ((w_nodes w ! i)\<lparr>n_is_stop := True\<rparr>) w1)
     else H i m w1)"
  using assms by (simp add: HandlerRelaying_def ReadMessage_Cons StopSignal_def)

lemma HandlerRelaying_null:
  assumes "c < length (w_chans w)" and "chan_wf (w_chans w ! c)"
    and "\<not> broken (w_chans w ! c)" and "pending (w_chans w ! c) = None # ms"
  shows "HandlerRelaying H i c w = done_act (set_chan c ((w_chans w ! c)\<lparr>c_queue := (c_queue (w_chans w ! c))\<lparr>q_pool := ms\<rparr>\<rparr>) w)"
  using assms by (simp add: HandlerRelaying_def ReadMessage_Cons)

lemma HandlerRelaying_broken:
  assumes "c < length (w_chans w)" and "chan_wf (w_chans w ! c)" and "broken (w_chans w ! c)"
  shows "HandlerRelaying H i c w = done_act w"
  using assms by (simp add: HandlerRelaying_def ReadMessage_broken)

lemma HandleWritting_broken:
  assumes "c < length (w_chans w)" and "chan_wf (w_chans w ! c)" and "broken (w_chans w ! c)"
  shows "HandleWritting F i c w = done_act w"
  using assms by (simp add: HandleWritting_def ReadMessage_broken)

lemma work_loop_stopped:
  "i < length (w_nodes w) \<Longrightarrow> n_is_stop (w_nodes w ! i) \<Longrightarrow> work_loop (Suc fuel) h i w = done_act w"
  by simp

lemma work_loop_step:
  "i < length (w_nodes w) \<Longrightarrow> \<not> n_is_stop (w_nodes w ! i) \<Longrightarrow>
   work_loop (Suc fuel) h i w = bindA (h w) (work_loop fuel h i)"
  by simp

text \<open>More fuel does not change the outcome of a loop that has ended.\<close>

lemma work_loop_mono: "work_loop fuel h i w = Some r \<Longrightarrow> work_loop (fuel + k) h i w = Some r"
proof (induction fuel arbitrary: w)
  case 0
  then show ?case by simp
next
  case (Suc fuel)
  then show ?case
    by (auto simp: bindA_def split: option.splits sum.splits if_splits)
qed

declare work_loop.simps [simp del]

lemma Dispatch_then_stop:
  assumes "i < length (w_nodes w)" and "n_is_stop (w_nodes w ! i)"
  shows "bindA (Dispatch i msg w) (work_loop (Suc fuel) h i) = Dispatch i msg w"
proof (cases "Dispatch i msg w")
  case (Some r)
  then show ?thesis
    using assms Dispatch_keeps [of i msg w]
    by (cases r) (auto simp: work_loop_stopped)
qed simp

lemma relay_until_stop:
  assumes "handler_ok H i c g" and "i < length (w_nodes w)" and "c < length (w_chans w)"
    and "\<not> n_is_stop (w_nodes w ! i)" and "chan_wf (w_chans w ! c)" and "\<not> broken (w_chans w ! c)"
    and "pending (w_chans w ! c) = map Some ms @ Some s # rest"
    and "\<forall>m\<in>set ms. \<not> stop_msg m" and "stop_msg s"
  shows "\<exists>w1. work_loop (length ms + 2) (HandlerRelaying H i c) i w = Dispatch i (Some s) w1 \<and>
      i < length (w_nodes w1) \<and> w_nodes w1 ! i = (w_nodes w ! i)\<lparr>n_is_stop := True\<rparr> \<and>
      pending (w_chans w1 ! c) = rest \<and> w_ext w1 = fold g ms (w_ext w)"
  using assms(2-9)
proof (induction ms arbitrary: w)
  case Nil
  let ?w1 = "set_node i ((w_nodes w ! i)\<lparr>n_is_stop := True\<rparr>)
    (set_chan c ((w_chans w ! c)\<lparr>c_queue := (c_queue (w_chans w ! c))\<lparr>q_pool := rest\<rparr>\<rparr>) w)"
  have "HandlerRelaying H i c w = Dispatch i (Some s) ?w1"
    using HandlerRelaying_msg [of i w c s rest H] Nil.prems by simp
  then have "work_loop (length [] + 2) (HandlerRelaying H i c) i w = Dispatch i (Some s) ?w1"
    using Nil.prems(1,3) Dispatch_then_stop [of i ?w1 "Some s" 0]
    by (simp add: numeral_2_eq_2 work_loop_step)
  with Nil.prems(1,2) show ?case by (intro exI [of _ ?w1]) simp
next
  case (Cons m ms)
  let ?ch = "(w_chans w ! c)\<lparr>c_queue := (c_queue (w_chans w ! c))\<lparr>q_pool := map Some ms @ Some s # rest\<rparr>\<rparr>"
  let ?w1 = "set_chan c ?ch w"
  obtain w' where w': "H i m ?w1 = done_act w'" "i < length (w_nodes w')"
      "w_nodes w' ! i = w_nodes w ! i" "c < length (w_chans w')" "w_chans w' ! c = ?ch"
      "w_ext w' = g m (w_ext w)"
    using handler_okE [OF assms(1), of ?w1 m] Cons.prems(1,2) by auto
  have "HandlerRelaying H i c w = done_act w'"
    using HandlerRelaying_msg [of i w c m "map Some ms @ Some s # rest" H] Cons.prems w'(1) by simp
  then have "work_loop (length (m # ms) + 2) (HandlerRelaying H i c) i w =
      work_loop (length ms + 2) (HandlerRelaying H i c) i w'"
    using Cons.prems(1,3) by (simp add: work_loop_step)
  moreover have "chan_wf ?ch"
    using chan_wf_tail [of "w_chans w ! c" "Some m" "map Some ms @ Some s # rest"] Cons.prems by simp
  then have "\<exists>w1. work_loop (length ms + 2) (HandlerRelaying H i c) i w' = Dispatch i (Some s) w1 \<and>
      i < length (w_nodes w1) \<and> w_nodes w1 ! i = (w_nodes w' ! i)\<lparr>n_is_stop := True\<rparr> \<and>
      pending (w_chans w1 ! c) = rest \<and> w_ext w1 = fold g ms (w_ext w')"
    using w' Cons.prems by (intro Cons.IH) simp_all
  ultimately show ?case using w'(3,6) by auto
qed

subsection \<open>Threads and channels\<close>

fun IncThreads_times :: "nat \<Rightarrow> Node \<Rightarrow> (int list \<times> Node) res" where
  "IncThreads_times 0 n = Inr ([], n)"
| "IncThreads_times (Suc k) n =
     bindE (IncThreads n) (\<lambda>(sel, n'). bindE (IncThreads_times k n') (\<lambda>(sels, n''). Inr (sel # sels, n'')))"

lemma IncThreads_ok:
  assumes "side n CHN_IN \<noteq> []" and "length (side n CHN_IN) < 2 ^ 31"
    and "0 \<le> n_worker_cnt n" and "n_worker_cnt n < 2 ^ 31 - 1"
  shows "IncThreads n = Inr (n_worker_cnt n mod int (length (side n CHN_IN)),
           n\<lparr>n_worker_cnt := n_worker_cnt n + 1\<rparr>)"
proof -
  have "GetChannelNum n CHN_IN = int (length (side n CHN_IN))"
    by (rule any_table.num_small [OF assms(2)])
  moreover have "int32_ok (n_worker_cnt n + 1)" using assms(3,4) by (simp add: int32_ok_def)
  ultimately show ?thesis
    using assms(1,3) by (simp add: IncThreads_def cint)
qed

lemma side_worker_cnt [simp]:
  "side (n\<lparr>n_worker_cnt := k\<rparr>) ct = side n ct" "side (n\<lparr>n_tid := t\<rparr>) ct = side n ct"
  "side (n\<lparr>n_is_stop := b\<rparr>) ct = side n ct"
  by (cases ct; simp add: side_def)+

lemma IncThreads_times_ok:
  assumes "side n CHN_IN \<noteq> []" and "length (side n CHN_IN) < 2 ^ 31"
    and "0 \<le> n_worker_cnt n" and "n_worker_cnt n + int k < 2 ^ 31"
  shows "IncThreads_times k n =
    Inr (map (\<lambda>j. (n_worker_cnt n + int j) mod int (length (side n CHN_IN))) [0..<k],
         n\<lparr>n_worker_cnt := n_worker_cnt n + int k\<rparr>)"
  using assms
proof (induction k arbitrary: n)
  case 0
  then show ?case by simp
next
  case (Suc k)
  let ?n = "n\<lparr>n_worker_cnt := n_worker_cnt n + 1\<rparr>"
  have "IncThreads n = Inr (n_worker_cnt n mod int (length (side n CHN_IN)), ?n)"
    using Suc.prems by (intro IncThreads_ok) simp_all
  moreover have "IncThreads_times k ?n =
      Inr (map (\<lambda>j. (n_worker_cnt ?n + int j) mod int (length (side ?n CHN_IN))) [0..<k],
           ?n\<lparr>n_worker_cnt := n_worker_cnt ?n + int k\<rparr>)"
    using Suc.prems by (intro Suc.IH) simp_all
  moreover have "[0..<Suc k] = 0 # map Suc [0..<k]"
    by (metis upt_conv_Cons map_Suc_upt zero_less_Suc)
  ultimately show ?case by (simp add: o_def ac_simps)
qed


lemma ThreadAffinity_ok:
  assumes "i < length (w_nodes w)" and "os_nproc os \<noteq> 0"
    and "int32_ok (w_processor_id w (n_type (w_nodes w ! i)) + 1)"
  shows "\<exists>cpu w'. ThreadAffinity os i w = Inr (cpu, w') \<and> w_chans w' = w_chans w \<and>
      w_ext w' = w_ext w \<and> length (w_nodes w') = length (w_nodes w) \<and>
      (\<exists>t. w_nodes w' ! i = (w_nodes w ! i)\<lparr>n_tid := t\<rparr>)"
proof -
  have same: "w_nodes w ! i = (w_nodes w ! i)\<lparr>n_tid := n_tid (w_nodes w ! i)\<rparr>" by simp
  show ?thesis
    using assms by (cases "os_setaffinity os = 0") (auto simp: ThreadAffinity_def cint Let_def intro: same)
qed

section \<open>Properties\<close>

text \<open>(C17) A relay node's worker processes the messages of its input channel in order and stops
  at the stop signal. Given a worker thread that starts on a running node, whose next input
  channel (round robin over the input channels) holds the messages \<open>ms\<close>, none of them a
  stop signal, then a stop signal and then \<open>rest\<close>: the thread hands \<open>ms\<close> to
  \<open>HandleMsg\<close> one by one in order, marks the node stopped, forwards the stop signal once by
  \<open>Dispatch\<close> and ends with it, having read nothing of \<open>rest\<close>. Two more loop tests than
  messages are enough fuel.\<close>

theorem DoWork_relays:
  assumes "handler_ok H i c g" and "i < length (w_nodes w)" and "c < length (w_chans w)"
    and "os_nproc os \<noteq> 0" and "int32_ok (w_processor_id w (n_type (w_nodes w ! i)) + 1)"
    and "n_type (w_nodes w ! i) \<noteq> NODE_FULL_DUPLEX" and "\<not> n_is_stop (w_nodes w ! i)"
    and "0 \<le> n_worker_cnt (w_nodes w ! i)" and "n_worker_cnt (w_nodes w ! i) < 2 ^ 31 - 1"
    and "n_up (w_nodes w ! i) = ins" and "ins \<noteq> []" and "length ins < 2 ^ 31"
    and "c = ins ! (nat (n_worker_cnt (w_nodes w ! i)) mod length ins)"
    and "chan_wf (w_chans w ! c)" and "\<not> broken (w_chans w ! c)"
    and "pending (w_chans w ! c) = map Some ms @ Some s # rest"
    and "\<forall>m\<in>set ms. \<not> stop_msg m" and "stop_msg s"
  shows "\<exists>w1. DoWork (length ms + 2) os H F i w = Dispatch i (Some s) w1 \<and>
      n_is_stop (w_nodes w1 ! i) \<and>
      n_worker_cnt (w_nodes w1 ! i) = n_worker_cnt (w_nodes w ! i) + 1 \<and>
      pending (w_chans w1 ! c) = rest \<and> w_ext w1 = fold g ms (w_ext w)"
proof -
  let ?n = "w_nodes w ! i"
  obtain cpu wa t where wa: "ThreadAffinity os i w = Inr (cpu, wa)" "w_chans wa = w_chans w"
      "w_ext wa = w_ext w" "length (w_nodes wa) = length (w_nodes w)"
      "w_nodes wa ! i = ?n\<lparr>n_tid := t\<rparr>"
    using ThreadAffinity_ok [OF assms(2,4,5)] by blast
  let ?na = "w_nodes wa ! i"
  let ?nb = "?na\<lparr>n_worker_cnt := n_worker_cnt ?n + 1\<rparr>"
  let ?sel = "n_worker_cnt ?n mod int (length ins)"
  let ?wb = "set_node i ?nb wa"
  have ins: "side ?na CHN_IN = ins" using assms(6,10) wa(5) by (simp add: side_def)
  have inc: "IncThreads ?na = Inr (?sel, ?nb)"
    using IncThreads_ok [of ?na] ins assms(8,9,11,12) wa(5) by simp
  have sel: "?sel = int (nat (n_worker_cnt ?n) mod length ins)"
    using assms(8) by (simp add: zmod_int)
  have "GetChannel ?nb ?sel CHN_IN = Inr c"
    using any_table.get_small [of "nat (n_worker_cnt ?n) mod length ins" ?nb CHN_IN] ins
      assms(11-13) unfolding sel by simp
  then have dw: "DoWork fuel os H F i w = work_loop fuel (HandlerRelaying H i c) i ?wb" for fuel
    using wa assms(2,6) inc by (simp add: DoWork_def Let_def)
  have "\<exists>w1. work_loop (length ms + 2) (HandlerRelaying H i c) i ?wb = Dispatch i (Some s) w1 \<and>
      i < length (w_nodes w1) \<and> w_nodes w1 ! i = (w_nodes ?wb ! i)\<lparr>n_is_stop := True\<rparr> \<and>
      pending (w_chans w1 ! c) = rest \<and> w_ext w1 = fold g ms (w_ext ?wb)"
    using assms(2,3,7,14-18) wa by (intro relay_until_stop [OF assms(1)]) simp_all
  then show ?thesis using dw wa assms(2) by auto
qed

text \<open>\<open>Dispatch\<close> is a stable choice by message id: a message goes to the end of the output
  channel whose index is its id modulo the number of output channels, so that messages with
  one id stay in order; no other channel and no node changes; it waits exactly while that
  channel is full and open, and it drops the message when the channel has been broken.\<close>

theorem Dispatch_by_id:
  assumes "i < length (w_nodes w)" and "side (w_nodes w ! i) CHN_OUT = outs" and "outs \<noteq> []"
    and "length outs < 2 ^ 31" and "c = outs ! (unat (m_id m) mod length outs)"
    and "c < length (w_chans w)" and "chan_wf (w_chans w ! c)"
  shows "Dispatch i (Some m) w =
    (let ch = w_chans w ! c in
     if broken ch then done_act w
     else if length (pending ch) < 100
     then done_act (set_chan c (ch\<lparr>c_queue := (c_queue ch)\<lparr>q_pool := pending ch @ [Some m]\<rparr>\<rparr>) w)
     else None)"
  using Dispatch_index [OF assms(1-6)] assms(7)
  by (auto simp: Let_def WriteMessage_broken WriteMessage_room WriteMessage_full)

text \<open>Stopping a node ends its workers: \<open>Stop\<close> succeeds, marks the node stopped and breaks
  all of its channels and no others; then a worker loop of the node ends at its next test of
  the flag, and a worker that is inside a read of one of the channels returns from its handler
  at once without an effect.\<close>

theorem Stop_ends_workers:
  assumes "chans_wf w" and "i < length (w_nodes w)"
    and "\<forall>c\<in>set (n_up (w_nodes w ! i)) \<union> set (n_down (w_nodes w ! i)). c < length (w_chans w)"
  shows "\<exists>w'. Node_Stop i w = Inr w' \<and> \<not> isOk (w_nodes w' ! i) \<and>
      (\<forall>c<length (w_chans w). broken (w_chans w' ! c) \<longleftrightarrow>
         broken (w_chans w ! c) \<or> c \<in> set (n_up (w_nodes w ! i)) \<union> set (n_down (w_nodes w ! i))) \<and>
      (\<forall>h fuel. work_loop (Suc fuel) h i w' = done_act w') \<and>
      (\<forall>c\<in>set (n_up (w_nodes w ! i)) \<union> set (n_down (w_nodes w ! i)). \<forall>H F.
         HandlerRelaying H i c w' = done_act w' \<and> HandleWritting F i c w' = done_act w')"
proof -
  obtain w' where w': "Node_Stop i w = Inr w'"
      "w_nodes w' = (w_nodes w)[i := (w_nodes w ! i)\<lparr>n_is_stop := True\<rparr>]"
      "length (w_chans w') = length (w_chans w)" "chans_wf w'"
      "\<forall>c<length (w_chans w). w_chans w' ! c =
         (if c \<in> set (n_up (w_nodes w ! i)) \<union> set (n_down (w_nodes w ! i))
          then broken_chan (w_chans w ! c) else w_chans w ! c)"
    using Node_Stop_effect [OF assms] by blast
  have "work_loop (Suc fuel) h i w' = done_act w'" for h fuel
    using w'(2) assms(2) by (intro work_loop_stopped) simp_all
  moreover have "HandlerRelaying H i c w' = done_act w' \<and> HandleWritting F i c w' = done_act w'"
    if "c \<in> set (n_up (w_nodes w ! i)) \<union> set (n_down (w_nodes w ! i))" for c H F
    using that assms(3) w'(3-5)
    by (intro conjI HandlerRelaying_broken HandleWritting_broken) (auto simp: chans_wf_def)
  ultimately show ?thesis
    using w' assms(2) by (intro exI [of _ w']) (auto simp: isOk_def)
qed

text \<open>Worker threads are spread over the input channels in turn: the first \<open>k\<close> threads
  that start on a node with \<open>N\<close> input channels get the channels \<open>0, 1, \<dots>\<close> modulo
  \<open>N\<close>; so with fewer threads than channels exactly the first \<open>k\<close> channels are ever
  read, and with at least as many threads every channel is.\<close>

theorem threads_round_robin:
  assumes "side n CHN_IN \<noteq> []" and "length (side n CHN_IN) < 2 ^ 31"
    and "n_worker_cnt n = 0" and "int k < 2 ^ 31"
  shows "\<exists>n'. IncThreads_times k n =
      Inr (map (\<lambda>j. int (j mod length (side n CHN_IN))) [0..<k], n') \<and> n_worker_cnt n' = int k \<and>
      {j mod length (side n CHN_IN) | j. j < k} = {..<min k (length (side n CHN_IN))}"
proof -
  let ?N = "length (side n CHN_IN)"
  have "{j mod ?N | j. j < k} = {..<min k ?N}"
  proof
    show "{j mod ?N | j. j < k} \<subseteq> {..<min k ?N}"
      using assms(1) by (auto intro: le_less_trans [OF mod_less_eq_dividend])
    show "{..<min k ?N} \<subseteq> {j mod ?N | j. j < k}"
      by (auto intro!: exI mod_less [symmetric])
  qed
  moreover have "IncThreads_times k n =
      Inr (map (\<lambda>j. int (j mod ?N)) [0..<k], n\<lparr>n_worker_cnt := int k\<rparr>)"
    using IncThreads_times_ok [OF assms(1,2), of k] assms(3,4) by (simp add: zmod_int)
  ultimately show ?thesis by auto
qed

text \<open>A node without input channels cannot be run: its thread fails the assertion in
  \<open>IncThreads\<close> before the loop, whatever its type; in particular a source, which by its
  definition has no up channels.\<close>

theorem no_input_asserts:
  assumes "i < length (w_nodes w)" and "side (w_nodes w ! i) CHN_IN = []" and "os_nproc os \<noteq> 0"
    and "int32_ok (w_processor_id w (n_type (w_nodes w ! i)) + 1)"
  shows "DoWork fuel os H F i w = fail_act AssertionFailed"
proof -
  obtain cpu wa t where wa: "ThreadAffinity os i w = Inr (cpu, wa)"
      "length (w_nodes wa) = length (w_nodes w)" "w_nodes wa ! i = (w_nodes w ! i)\<lparr>n_tid := t\<rparr>"
    using ThreadAffinity_ok [OF assms(1,3,4)] by blast
  have "IncThreads (w_nodes wa ! i) = Inl AssertionFailed"
    using assms(2) wa(3) by (simp add: IncThreads_def any_table.num_small)
  with wa assms(1) show ?thesis by (simp add: DoWork_def)
qed

section \<open>Witnesses\<close>

definition msg_with :: "MSG_TYPE \<Rightarrow> MSG_SIGNAL \<Rightarrow> u32 \<Rightarrow> BaseMsg" where
  "msg_with t sg k = blank_msg\<lparr>m_type := t, m_signal := sg, m_id := k\<rparr>"

definition demo_chan :: "'e msg_ptr list \<Rightarrow> 'e msg_ptr QueueBasedChannel" where
  "demo_chan ms = sample_channel\<lparr>c_queue := (c_queue sample_channel)\<lparr>q_pool := ms\<rparr>\<rparr>"

lemma demo_chan_wf: "length ms \<le> 100 \<Longrightarrow> chan_wf (demo_chan ms)"
  by (simp add: chan_wf_def queue_wf_def demo_chan_def sample_channel_def to_size_t_def)

lemma demo_chan_sel [simp]: "pending (demo_chan ms) = ms" "\<not> broken (demo_chan ms)"
  by (simp_all add: demo_chan_def sample_channel_def)

text \<open>A relay with one input channel, holding two messages and a stop signal, and one output.\<close>

definition demo_world :: "(unit, BaseMsg list) world" where
  "demo_world =
     \<lparr>w_chans = [demo_chan [Some (msg_with TYPE_DATA SIGNAL_NONE 3), Some (msg_with TYPE_DATA SIGNAL_NONE 4),
                            Some (msg_with TYPE_SIGNAL SIGNAL_STOP 0)], demo_chan []],
      w_nodes = [(Node_new NODE_RELAY ''relay'')\<lparr>n_is_stop := False, n_up := [0], n_down := [1]\<rparr>],
      w_processor_id = (\<lambda>_. 0), w_ext = []\<rparr>"

definition log_handler :: "(unit, BaseMsg list) msg_handler" where
  "log_handler i m w = done_act (w\<lparr>w_ext := w_ext w @ [m]\<rparr>)"

definition demo_os :: os_thread where
  "demo_os = \<lparr>os_nproc = 4, os_setaffinity = 0, os_tid = 77\<rparr>"

lemma log_handler_ok: "handler_ok log_handler i c (\<lambda>m log. log @ [m])"
  by (simp add: handler_ok_def log_handler_def)

theorem DoWork_relays_witness:
  "\<exists>w1. DoWork 4 demo_os log_handler (\<lambda>_ _ _. None) 0 demo_world =
      Dispatch 0 (Some (msg_with TYPE_SIGNAL SIGNAL_STOP 0)) w1 \<and> n_is_stop (w_nodes w1 ! 0) \<and>
      w_ext w1 = [msg_with TYPE_DATA SIGNAL_NONE 3, msg_with TYPE_DATA SIGNAL_NONE 4]"
proof -
  let ?ms = "[msg_with TYPE_DATA SIGNAL_NONE 3, msg_with TYPE_DATA SIGNAL_NONE 4]"
  let ?s = "msg_with TYPE_SIGNAL SIGNAL_STOP 0"
  have "chan_wf (demo_chan [Some (?ms ! 0), Some (?ms ! 1), Some ?s])"
    by (rule demo_chan_wf) simp
  then have "\<exists>w1. DoWork (length ?ms + 2) demo_os log_handler (\<lambda>_ _ _. None) 0 demo_world =
        Dispatch 0 (Some ?s) w1 \<and> n_is_stop (w_nodes w1 ! 0) \<and>
        n_worker_cnt (w_nodes w1 ! 0) = n_worker_cnt (w_nodes demo_world ! 0) + 1 \<and>
        pending (w_chans w1 ! 0) = [] \<and> w_ext w1 = fold (\<lambda>m log. log @ [m]) ?ms (w_ext demo_world)"
    by (intro DoWork_relays [OF log_handler_ok, of 0 _ 0 _ "[0]"])
       (simp_all add: demo_world_def demo_os_def Node_new_def int32_ok_def msg_with_def blank_msg_def)
  then show ?thesis by (auto simp: eval_nat_numeral demo_world_def)
qed

theorem Dispatch_by_id_witness:
  "Dispatch 0 (Some (msg_with TYPE_DATA SIGNAL_NONE 3)) demo_world =
     done_act (set_chan 1 (demo_chan [Some (msg_with TYPE_DATA SIGNAL_NONE 3)]) demo_world)"
  using Dispatch_by_id [of 0 demo_world "[1]" 1 "msg_with TYPE_DATA SIGNAL_NONE 3"] demo_chan_wf [of "[]"]
  by (simp add: demo_world_def Node_new_def side_def demo_chan_def sample_channel_def)

theorem Stop_ends_workers_witness:
  "\<exists>w'. Node_Stop 0 demo_world = Inr w' \<and> \<not> isOk (w_nodes w' ! 0) \<and> broken (w_chans w' ! 1)"
proof -
  have "chans_wf demo_world"
    by (auto simp: chans_wf_def demo_world_def less_Suc_eq demo_chan_wf)
  moreover have "w_nodes demo_world ! 0 = (Node_new NODE_RELAY ''relay'')\<lparr>n_is_stop := False, n_up := [0], n_down := [1]\<rparr>"
    and "length (w_nodes demo_world) = 1" and "length (w_chans demo_world) = 2"
    by (simp_all add: demo_world_def)
  ultimately show ?thesis
    using Stop_ends_workers [of demo_world 0] by (auto simp: Node_new_def)
qed

theorem threads_round_robin_witness:
  "\<exists>n'. IncThreads_times 3 ((Node_new NODE_RELAY ''r'')\<lparr>n_up := [5, 6]\<rparr>) = Inr ([0, 1, 0], n')"
  using threads_round_robin [of "(Node_new NODE_RELAY ''r'')\<lparr>n_up := [5, 6]\<rparr>" 3]
  by (auto simp: Node_new_def side_def upt_rec)

theorem no_input_asserts_witness:
  "DoWork 9 demo_os log_handler (\<lambda>_ _ _. None) 0
     (demo_world\<lparr>w_nodes := [(Node_new NODE_SOURCE ''src'')\<lparr>n_down := [1]\<rparr>]\<rparr>) = fail_act AssertionFailed"
  by (rule no_input_asserts) (simp_all add: Node_new_def side_def demo_os_def demo_world_def int32_ok_def)

end
