(* ===== verification/Node_Manager.thy ===== *)
theory Node_Manager
  imports Node
begin

text \<open>
  The node manager, \<open>src/src/util/node_manager.h\<close>: it connects nodes by channels, starts
  their worker threads and shuts them down.

  \<open>node_list_\<close> is an unordered map from names to the type and address of a node: an
  association list with distinct keys, whose order stands for the iteration order. A worker
  thread is recorded by the node it runs on; it returns from \<open>DoWork\<close> once its node is
  stopped, so \<open>join\<close> waits (\<^term>\<open>None\<close>) while it is not. An exception leaves behind what
  was changed before it was thrown, so \<open>RunAsThreads\<close> returns the manager beside its
  result. The random identifier of a new channel is an argument; what is only logged is left
  out.
\<close>

section \<open>Model\<close>

record NodeManager =
  mg_node_list :: "(string \<times> NodeType \<times> nat) list"
  mg_channel_list :: "nat list"
  mg_worker_list :: "nat list"
  mg_stop :: bool

definition NodeManager_new :: NodeManager where
  "NodeManager_new = \<lparr>mg_node_list = [], mg_channel_list = [], mg_worker_list = [], mg_stop = False\<rparr>"

subsection \<open>Connecting\<close>

text \<open>The reuse of an existing channel.\<close>

definition Connect_reuse :: "nat \<Rightarrow> nat \<Rightarrow> ('e, 'x) world \<Rightarrow> ('e, 'x) world res" where
  "Connect_reuse up down w =
     bindE (deref (w_nodes w) up) (\<lambda>u. bindE (deref (w_nodes w) down) (\<lambda>d.
       if GetChannelNum u CHN_OUT \<noteq> 0
       then bindE (GetChannel u 0 CHN_OUT) (\<lambda>c. Inr (set_node down (AddChannel d c CHN_IN) w))
       else if GetChannelNum d CHN_IN \<noteq> 0
       then bindE (GetChannel d 0 CHN_IN) (\<lambda>c. Inr (set_node up (AddChannel u c CHN_OUT) w))
       else Inr w))"

text \<open>A new channel, allocated at the end of the store.\<close>

definition Connect_fresh ::
    "string \<Rightarrow> string \<Rightarrow> nat \<Rightarrow> nat \<Rightarrow> NodeManager \<Rightarrow> ('e, 'x) world \<Rightarrow> (NodeManager \<times> ('e, 'x) world) res" where
  "Connect_fresh uuid qname up down mg w =
     bindE (Channel_new uuid qname) (\<lambda>ch.
       let c = length (w_chans w); w0 = w\<lparr>w_chans := w_chans w @ [ch]\<rparr> in
       bindE (deref (w_nodes w0) up) (\<lambda>u.
       let w1 = set_node up (AddChannel u c CHN_OUT) w0 in
       bindE (deref (w_nodes w1) down) (\<lambda>d.
       let w2 = set_node down (AddChannel d c CHN_IN) w1 in
       Inr (mg\<lparr>mg_channel_list := mg_channel_list mg @ [c]\<rparr>, w2))))"

definition Connect ::
    "string \<Rightarrow> nat \<Rightarrow> nat \<Rightarrow> bool \<Rightarrow> NodeManager \<Rightarrow> ('e, 'x) world \<Rightarrow> (bool \<times> NodeManager \<times> ('e, 'x) world) res" where
  "Connect uuid up down reuse_chn mg w =
     bindE (deref (w_nodes w) up) (\<lambda>u. bindE (deref (w_nodes w) down) (\<lambda>d.
       let qname = n_name u @ '':'' @ n_name d in
       if n_type u = NODE_SINK
       then Inl (runtime_error ''A sink service can't be a upstream service! ref: source --> sink'')
       else if n_type d = NODE_SOURCE
       then Inl (runtime_error ''A source service can't be a downstream service! ref: source --> sink'')
       else bindE (if reuse_chn then Connect_reuse up down w else Inr w) (\<lambda>w1.
            bindE (deref (w_nodes w1) up) (\<lambda>u1. bindE (deref (w_nodes w1) down) (\<lambda>d1.
            bindE (add32 (GetChannelNum u1 CHN_OUT) (GetChannelNum d1 CHN_IN)) (\<lambda>total.
              if \<not> reuse_chn \<or> total = 0
              then bindE (Connect_fresh uuid qname up down mg w1) (\<lambda>(mg', w2). Inr (True, mg', w2))
              else Inr (True, mg, w1)))))))"

subsection \<open>Running\<close>

definition RunAsThreads :: "nat \<Rightarrow> int \<Rightarrow> ('e, 'x) world \<Rightarrow> NodeManager \<Rightarrow> bool res \<times> NodeManager" where
  "RunAsThreads i num w mg =
     (case deref (w_nodes w) i of
        Inl e \<Rightarrow> (Inl e, mg)
      | Inr n \<Rightarrow>
          if n_type n = NODE_FULL_DUPLEX \<and> num > 1
          then (Inl (runtime_error ''Duplex node can only bind one thread.''), mg)
          else (case map_of (mg_node_list mg) (n_name n) of
             Some _ \<Rightarrow> (Inl (runtime_error ''Duplicate node!''), mg)
           | None \<Rightarrow>
               let mg1 = mg\<lparr>mg_node_list := (n_name n, n_type n, i) # mg_node_list mg\<rparr> in
               (case add32 (GetChannelNum n CHN_IN) (GetChannelNum n CHN_OUT) of
                  Inl e \<Rightarrow> (Inl e, mg1)
                | Inr c \<Rightarrow>
                    if c \<le> 0 then (Inl (runtime_error ''node has no available channels.''), mg1)
                    else (Inr True,
                          mg1\<lparr>mg_worker_list := mg_worker_list mg1 @ replicate (nat num) i\<rparr>))))"

definition Verify :: "NodeManager \<Rightarrow> bool" where
  "Verify mg = True"

text \<open>\<open>View\<close>: the lines that it logs. How a channel is printed is the argument \<open>chn_out\<close>, since the sources have no
  output operator for it.\<close>

fun view_nodes :: "(string \<times> NodeType \<times> nat) list \<Rightarrow> ('e, 'x) world \<Rightarrow> string list res" where
  "view_nodes [] w = Inr []"
| "view_nodes ((name, type, i) # items) w =
     bindE (case type of
              NODE_RELAY \<Rightarrow> bindE (deref (w_nodes w) i) (\<lambda>n. Inr [node_out n])
            | NODE_FULL_DUPLEX \<Rightarrow> bindE (deref (w_nodes w) i) (\<lambda>n. Inr [node_out n])
            | _ \<Rightarrow> Inr []) (\<lambda>line.
     bindE (view_nodes items w) (\<lambda>lines. Inr (line @ lines)))"

fun view_channels :: "('e msg_ptr QueueBasedChannel \<Rightarrow> string) \<Rightarrow> nat list \<Rightarrow> ('e, 'x) world \<Rightarrow> string list res" where
  "view_channels chn_out [] w = Inr []"
| "view_channels chn_out (c # cs) w =
     bindE (deref (w_chans w) c) (\<lambda>ch. bindE (view_channels chn_out cs w) (\<lambda>lines. Inr (chn_out ch # lines)))"

definition View :: "('e msg_ptr QueueBasedChannel \<Rightarrow> string) \<Rightarrow> NodeManager \<Rightarrow> ('e, 'x) world \<Rightarrow> string list res" where
  "View chn_out mg w =
     bindE (view_nodes (mg_node_list mg) w) (\<lambda>nodes.
     bindE (view_channels chn_out (mg_channel_list mg) w) (\<lambda>chans.
     Inr ([''==================== Node view ('' @ show_nat (length (mg_node_list mg)) @ '') ===================''] @ nodes @
          [''==================== Channel view ('' @ show_nat (length (mg_channel_list mg)) @ '') ===================''] @ chans)))"

subsection \<open>Shutting down\<close>

fun stop_nodes :: "(string \<times> NodeType \<times> nat) list \<Rightarrow> ('e, 'x) world \<Rightarrow> ('e, 'x) world res" where
  "stop_nodes [] w = Inr w"
| "stop_nodes ((name, type, i) # items) w =
     bindE (case type of NODE_RELAY \<Rightarrow> Node_Stop i w
            | NODE_FULL_DUPLEX \<Rightarrow> Node_Stop i w
            | _ \<Rightarrow> Inr w) (stop_nodes items)"

fun join_workers :: "nat list \<Rightarrow> ('e, 'x) world \<Rightarrow> unit act" where
  "join_workers [] w = done_act ()"
| "join_workers (i # is) w =
     bindA (Some (deref (w_nodes w) i)) (\<lambda>n.
       if n_is_stop n then join_workers is w else None)"

definition NodeManager_Shutdown :: "NodeManager \<Rightarrow> ('e, 'x) world \<Rightarrow> (NodeManager \<times> ('e, 'x) world) act" where
  "NodeManager_Shutdown mg w =
     (if mg_stop mg then done_act (mg, w)
      else bindA (Some (stop_nodes (mg_node_list mg) w)) (\<lambda>w'.
           bindA (join_workers (mg_worker_list mg) w') (\<lambda>_.
           done_act (mg\<lparr>mg_stop := True, mg_channel_list := [], mg_worker_list := []\<rparr>, w'))))"

subsection \<open>The instance\<close>

text \<open>
  The static pointer and the once flag of \<open>Instance\<close>, and the manager objects that exist,
  by address. A new object gets the address \<open>sg_next\<close>.
\<close>

record manager_instance =
  sg_instance :: "nat option"
  sg_once :: bool
  sg_objects :: "(nat \<times> NodeManager) list"
  sg_next :: nat

definition Instance :: "bool \<Rightarrow> manager_instance \<Rightarrow> nat option \<times> manager_instance" where
  "Instance create_if_needed s =
     (let s' = (if sg_instance s = None \<and> create_if_needed \<and> \<not> sg_once s
                then s\<lparr>sg_instance := Some (sg_next s), sg_once := True,
                       sg_objects := (sg_next s, NodeManager_new) # sg_objects s,
                       sg_next := Suc (sg_next s)\<rparr>
                else s)
      in (sg_instance s', s'))"

definition CleanUp :: "manager_instance \<Rightarrow> ('e, 'x) world \<Rightarrow> (manager_instance \<times> ('e, 'x) world) act" where
  "CleanUp s w =
     (case Instance False s of
        (None, s') \<Rightarrow> done_act (s', w)
      | (Some p, s') \<Rightarrow>
          (case map_of (sg_objects s') p of
             None \<Rightarrow> fail_act NullDereference
           | Some mg \<Rightarrow>
               bindA (NodeManager_Shutdown mg w) (\<lambda>(_, w').
               done_act (s'\<lparr>sg_objects := filter (\<lambda>(q, _). q \<noteq> p) (sg_objects s')\<rparr>, w'))))"


section \<open>Lemmas\<close>

subsection \<open>Connecting\<close>

abbreviation fresh_channel :: "string \<Rightarrow> string \<Rightarrow> 'e msg_ptr QueueBasedChannel" where
  "fresh_channel uuid qname \<equiv>
     \<lparr>c_queue = \<lparr>q_pool = [], q_pool_size = 100, q_name = qname, q_uuid = uuid,
                 q_wait = Some BlockWaitStrategy, q_break = False\<rparr>\<rparr>"

lemma Channel_new_eq: "Channel_new uuid qname = Inr (fresh_channel uuid qname)"
  by (simp add: Channel_new_def Queue_new_eq)

lemma side_nonempty_get0: "side n ct = c # cs \<Longrightarrow> GetChannel n 0 ct = Inr c"
  by (simp add: any_table.get_view vec_at_def to_size_t_def)

lemma Connect_fresh_eq:
  assumes "up < length (w_nodes w)" and "down < length (w_nodes w)"
  shows "Connect_fresh uuid qname up down mg w =
    (let c = length (w_chans w);
         nodes1 = (w_nodes w)[up := AddChannel (w_nodes w ! up) c CHN_OUT]
     in Inr (mg\<lparr>mg_channel_list := mg_channel_list mg @ [c]\<rparr>,
             w\<lparr>w_chans := w_chans w @ [fresh_channel uuid qname],
               w_nodes := nodes1[down := AddChannel (nodes1 ! down) c CHN_IN]\<rparr>))"
  using assms by (simp add: Connect_fresh_def Channel_new_eq Let_def)

lemma Connect_reuse_eq:
  assumes "up < length (w_nodes w)" and "down < length (w_nodes w)"
    and "length (side (w_nodes w ! up) CHN_OUT) < 2 ^ 31"
    and "length (side (w_nodes w ! down) CHN_IN) < 2 ^ 31"
  shows "Connect_reuse up down w =
    Inr (case (side (w_nodes w ! up) CHN_OUT, side (w_nodes w ! down) CHN_IN) of
           (c # cs, _) \<Rightarrow> set_node down (AddChannel (w_nodes w ! down) c CHN_IN) w
         | ([], c # cs) \<Rightarrow> set_node up (AddChannel (w_nodes w ! up) c CHN_OUT) w
         | ([], []) \<Rightarrow> w)"
  using assms
  by (auto simp: Connect_reuse_def any_table.num_small split: list.splits dest: side_nonempty_get0)

lemma Connect_types:
  assumes "up < length (w_nodes w)" and "down < length (w_nodes w)"
    and "n_type (w_nodes w ! up) = NODE_SINK \<or> n_type (w_nodes w ! down) = NODE_SOURCE"
  shows "\<exists>e. Connect uuid up down reuse mg w = Inl (runtime_error e)"
  using assms by (auto simp: Connect_def Let_def)

subsection \<open>Stopping all nodes\<close>

definition links_ok :: "('e, 'x) world \<Rightarrow> bool" where
  "links_ok w \<longleftrightarrow> (\<forall>i<length (w_nodes w).
     \<forall>c\<in>set (n_up (w_nodes w ! i)) \<union> set (n_down (w_nodes w ! i)). c < length (w_chans w))"

definition stoppable :: "(string \<times> NodeType \<times> nat) list \<Rightarrow> nat set" where
  "stoppable items = {i. \<exists>name t. (name, t, i) \<in> set items \<and> (t = NODE_RELAY \<or> t = NODE_FULL_DUPLEX)}"

lemma stoppable_simps [simp]:
  "stoppable [] = {}"
  "stoppable ((name, t, i) # items) =
     (if t = NODE_RELAY \<or> t = NODE_FULL_DUPLEX then insert i (stoppable items) else stoppable items)"
  by (auto simp: stoppable_def)

lemma stop_nodes_all:
  assumes "chans_wf w" and "links_ok w" and "\<forall>(name, t, i)\<in>set items. i < length (w_nodes w)"
  shows "\<exists>w'. stop_nodes items w = Inr w' \<and> chans_wf w' \<and> links_ok w' \<and>
      length (w_nodes w') = length (w_nodes w) \<and> length (w_chans w') = length (w_chans w) \<and>
      (\<forall>j<length (w_nodes w). w_nodes w' ! j =
         (if j \<in> stoppable items then (w_nodes w ! j)\<lparr>n_is_stop := True\<rparr> else w_nodes w ! j)) \<and>
      (\<forall>c<length (w_chans w). w_chans w' ! c =
         (if \<exists>j\<in>stoppable items. c \<in> set (n_up (w_nodes w ! j)) \<union> set (n_down (w_nodes w ! j))
          then broken_chan (w_chans w ! c) else w_chans w ! c))"
  using assms
proof (induction items arbitrary: w)
  case Nil
  then show ?case by simp
next
  case (Cons item items)
  obtain name t i where item: "item = (name, t, i)" by (cases item)
  have i: "i < length (w_nodes w)" using Cons.prems(3) item by simp
  show ?case
  proof (cases "t = NODE_RELAY \<or> t = NODE_FULL_DUPLEX")
    case False
    then have "stop_nodes (item # items) w = stop_nodes items w"
      by (cases t) (simp_all add: item)
    with False Cons.IH [of w] Cons.prems show ?thesis by (simp add: item)
  next
    case True
    have "\<forall>c\<in>set (n_up (w_nodes w ! i)) \<union> set (n_down (w_nodes w ! i)). c < length (w_chans w)"
      using Cons.prems(2) i by (simp add: links_ok_def)
    then obtain w1 where w1: "Node_Stop i w = Inr w1" "chans_wf w1"
        "w_nodes w1 = (w_nodes w)[i := (w_nodes w ! i)\<lparr>n_is_stop := True\<rparr>]"
        "length (w_chans w1) = length (w_chans w)"
        "\<forall>c<length (w_chans w). w_chans w1 ! c =
           (if c \<in> set (n_up (w_nodes w ! i)) \<union> set (n_down (w_nodes w ! i))
            then broken_chan (w_chans w ! c) else w_chans w ! c)"
      using Node_Stop_effect [OF Cons.prems(1) i] by blast
    have same: "n_up (w_nodes w1 ! j) = n_up (w_nodes w ! j)"
      "n_down (w_nodes w1 ! j) = n_down (w_nodes w ! j)" for j
      using w1(3) i by (cases "j = i"; simp)+
    have "links_ok w1"
      using Cons.prems(2) w1(3,4) same by (simp add: links_ok_def)
    with Cons.IH [of w1] w1(2,3) Cons.prems(3) obtain w2 where w2:
      "stop_nodes items w1 = Inr w2" "chans_wf w2" "links_ok w2"
      "length (w_nodes w2) = length (w_nodes w1)" "length (w_chans w2) = length (w_chans w1)"
      "\<forall>j<length (w_nodes w1). w_nodes w2 ! j =
         (if j \<in> stoppable items then (w_nodes w1 ! j)\<lparr>n_is_stop := True\<rparr> else w_nodes w1 ! j)"
      "\<forall>c<length (w_chans w1). w_chans w2 ! c =
         (if \<exists>j\<in>stoppable items. c \<in> set (n_up (w_nodes w1 ! j)) \<union> set (n_down (w_nodes w1 ! j))
          then broken_chan (w_chans w1 ! c) else w_chans w1 ! c)"
      by auto
    have "stop_nodes (item # items) w = Inr w2"
      using True w1(1) w2(1) by (auto simp: item)
    moreover have "\<forall>j<length (w_nodes w). w_nodes w2 ! j =
        (if j \<in> stoppable (item # items) then (w_nodes w ! j)\<lparr>n_is_stop := True\<rparr> else w_nodes w ! j)"
      using w2(6) w1(3) True i by (simp add: item nth_list_update)
    moreover have "\<forall>c<length (w_chans w). w_chans w2 ! c =
        (if \<exists>j\<in>stoppable (item # items). c \<in> set (n_up (w_nodes w ! j)) \<union> set (n_down (w_nodes w ! j))
         then broken_chan (w_chans w ! c) else w_chans w ! c)"
      using w2(7) w1(4,5) True by (auto simp: item same)
    ultimately show ?thesis
      using w2(2-5) w1(3,4) by (intro exI [of _ w2]) simp
  qed
qed

lemma join_workers_iff:
  assumes "\<forall>i\<in>set is. i < length (w_nodes w)"
  shows "join_workers is w =
    (if \<forall>i\<in>set is. n_is_stop (w_nodes w ! i) then done_act () else None)"
  using assms by (induction "is") auto


section \<open>Properties\<close>

text \<open>(C36) \<open>Connect\<close> links the two nodes: for node types that may be connected it returns
  \<open>true\<close>, and then some channel is both an output of the upstream node and an input of the
  downstream node, also when one of them is a duplex node or the node is connected to itself.
  Every other node is as before. If reuse was asked for and a channel to reuse existed, no
  channel is created; otherwise that channel is a new, empty, open one, recorded in
  \<open>channel_list_\<close>.\<close>

theorem Connect_links:
  assumes "up < length (w_nodes w)" and "down < length (w_nodes w)"
    and "n_type (w_nodes w ! up) \<noteq> NODE_SINK" and "n_type (w_nodes w ! down) \<noteq> NODE_SOURCE"
    and "length (side (w_nodes w ! up) CHN_OUT) < 2 ^ 29"
    and "length (side (w_nodes w ! down) CHN_IN) < 2 ^ 29"
  shows "\<exists>mg' w' c. Connect uuid up down reuse mg w = Inr (True, mg', w') \<and>
      c \<in> set (side (w_nodes w' ! up) CHN_OUT) \<and> c \<in> set (side (w_nodes w' ! down) CHN_IN) \<and>
      (\<forall>j. j \<noteq> up \<longrightarrow> j \<noteq> down \<longrightarrow> w_nodes w' ! j = w_nodes w ! j) \<and>
      (if reuse \<and> (side (w_nodes w ! up) CHN_OUT \<noteq> [] \<or> side (w_nodes w ! down) CHN_IN \<noteq> [])
       then w_chans w' = w_chans w \<and> mg' = mg
       else c = length (w_chans w) \<and> length (w_chans w') = Suc c \<and>
            pending (w_chans w' ! c) = [] \<and> \<not> broken (w_chans w' ! c) \<and> chan_wf (w_chans w' ! c) \<and>
            mg_channel_list mg' = mg_channel_list mg @ [c])"
proof -
  let ?u = "w_nodes w ! up" and ?d = "w_nodes w ! down"
  let ?reused = "case (side ?u CHN_OUT, side ?d CHN_IN) of
           (c # cs, _) \<Rightarrow> set_node down (AddChannel ?d c CHN_IN) w
         | ([], c # cs) \<Rightarrow> set_node up (AddChannel ?u c CHN_OUT) w
         | ([], []) \<Rightarrow> w"
  have reuse_eq: "Connect_reuse up down w = Inr ?reused"
    using Connect_reuse_eq [OF assms(1,2)] assms(5,6) by simp
  have num: "GetChannelNum n ct = int (length (side n ct))" if "length (side n ct) < 2 ^ 30" for n ct
    using that by (intro any_table.num_small) simp
  note connect = Connect_def Let_def num add32_def int32_ok_def any_table.view_add nth_list_update
    chan_wf_def queue_wf_def
  show ?thesis
  proof (cases "reuse \<and> (side ?u CHN_OUT \<noteq> [] \<or> side ?d CHN_IN \<noteq> [])")
    case False
    then have "Connect uuid up down reuse mg w =
        bindE (Connect_fresh uuid (n_name ?u @ '':'' @ n_name ?d) up down mg w) (\<lambda>(mg', w2). Inr (True, mg', w2))"
      using assms reuse_eq by (cases reuse) (auto simp: connect)
    with False assms(1,2) show ?thesis
      by (cases "up = down") (simp_all add: connect Connect_fresh_eq)
  next
    case True
    show ?thesis
    proof (cases "side ?u CHN_OUT")
      case (Cons c cs)
      then have "Connect uuid up down reuse mg w = Inr (True, mg, set_node down (AddChannel ?d c CHN_IN) w)"
        using assms True reuse_eq by (cases "up = down") (auto simp: connect)
      with True Cons assms(1,2) show ?thesis
        by (intro exI [of _ mg] exI [of _ "set_node down (AddChannel ?d c CHN_IN) w"] exI [of _ c])
           (auto simp: connect)
    next
      case Nil
      with True obtain c cs where c: "side ?d CHN_IN = c # cs" by (cases "side ?d CHN_IN") auto
      then have "Connect uuid up down reuse mg w = Inr (True, mg, set_node up (AddChannel ?u c CHN_OUT) w)"
        using assms True Nil reuse_eq by (cases "up = down") (auto simp: connect)
      with True c assms(1,2) show ?thesis
        by (intro exI [of _ mg] exI [of _ "set_node up (AddChannel ?u c CHN_OUT) w"] exI [of _ c])
           (auto simp: connect)
    qed
  qed
qed


text \<open>Shutting down does not stop sources and sinks: if a worker thread runs on a node that
  is registered only as a source or a sink and is not stopped, \<open>Shutdown\<close> waits for that
  thread (nothing in \<open>Shutdown\<close> ends it).\<close>

theorem Shutdown_waits_for_sink:
  assumes "chans_wf w" and "links_ok w" and "\<not> mg_stop mg"
    and "\<forall>(name, t, i)\<in>set (mg_node_list mg). i < length (w_nodes w)"
    and "\<forall>i\<in>set (mg_worker_list mg). i < length (w_nodes w)"
    and "i \<in> set (mg_worker_list mg)" and "i \<notin> stoppable (mg_node_list mg)"
    and "\<not> n_is_stop (w_nodes w ! i)"
  shows "NodeManager_Shutdown mg w = None"
proof -
  obtain w' where w': "stop_nodes (mg_node_list mg) w = Inr w'"
      "length (w_nodes w') = length (w_nodes w)"
      "\<forall>j<length (w_nodes w). w_nodes w' ! j =
         (if j \<in> stoppable (mg_node_list mg) then (w_nodes w ! j)\<lparr>n_is_stop := True\<rparr> else w_nodes w ! j)"
    using stop_nodes_all [OF assms(1,2,4)] by blast
  then have "\<not> n_is_stop (w_nodes w' ! i)" using assms(5-8) by simp
  then have "join_workers (mg_worker_list mg) w' = None"
    using assms(5,6) w'(2) by (subst join_workers_iff) auto
  with w'(1) assms(3) show ?thesis by (simp add: NodeManager_Shutdown_def)
qed

text \<open>\<open>RunAsThreads\<close> registers the node before it checks for channels. A node without
  channels is refused, but its name stays taken: once it has been given a channel and is run
  again it is refused as a duplicate, and no thread is ever started for it.\<close>

theorem RunAsThreads_failure_sticks:
  assumes "i < length (w_nodes w)" and "n_up (w_nodes w ! i) = []" and "n_down (w_nodes w ! i) = []"
    and "map_of (mg_node_list mg) (n_name (w_nodes w ! i)) = None"
    and "n_type (w_nodes w ! i) \<noteq> NODE_FULL_DUPLEX \<or> num \<le> 1"
    and "i < length (w_nodes w')" and "n_name (w_nodes w' ! i) = n_name (w_nodes w ! i)"
    and "n_type (w_nodes w' ! i) = n_type (w_nodes w ! i)"
  shows "\<exists>mg'. RunAsThreads i num w mg = (Inl (runtime_error ''node has no available channels.''), mg') \<and>
      RunAsThreads i num w' mg' = (Inl (runtime_error ''Duplicate node!''), mg') \<and>
      mg_worker_list mg' = mg_worker_list mg"
proof -
  let ?n = "w_nodes w ! i"
  have "GetChannelNum ?n ct = 0" for ct
    using assms(2,3) by (cases ct) (simp_all add: any_table.num_small side_def)
  then show ?thesis
    using assms by (auto simp: RunAsThreads_def Let_def add32_def int32_ok_def)
qed

text \<open>\<open>RunAsThreads\<close> on a node with channels whose name is new starts the requested number
  of threads and registers the node under its name; a duplex node with more than one thread
  and a second node with the same name are refused without any change.\<close>

theorem RunAsThreads_starts:
  assumes "i < length (w_nodes w)" and "n_up (w_nodes w ! i) \<noteq> [] \<or> n_down (w_nodes w ! i) \<noteq> []"
    and "length (n_up (w_nodes w ! i)) < 2 ^ 30" and "length (n_down (w_nodes w ! i)) < 2 ^ 30"
  shows "RunAsThreads i num w mg =
    (let n = w_nodes w ! i in
     if n_type n = NODE_FULL_DUPLEX \<and> 1 < num
     then (Inl (runtime_error ''Duplex node can only bind one thread.''), mg)
     else if n_name n \<in> fst ` set (mg_node_list mg)
     then (Inl (runtime_error ''Duplicate node!''), mg)
     else (Inr True, mg\<lparr>mg_node_list := (n_name n, n_type n, i) # mg_node_list mg,
                        mg_worker_list := mg_worker_list mg @ replicate (nat num) i\<rparr>))"
proof -
  let ?n = "w_nodes w ! i"
  have num: "GetChannelNum ?n ct = int (length (side ?n ct))" for ct
    using assms(3,4) by (intro any_table.num_small) (cases ct; simp add: side_def)
  have total: "int (length (side ?n CHN_IN)) + int (length (side ?n CHN_OUT)) =
      int (length (n_up ?n)) + int (length (n_down ?n))"
    by (simp add: side_def)
  have "add32 (GetChannelNum ?n CHN_IN) (GetChannelNum ?n CHN_OUT) =
      Inr (int (length (n_up ?n)) + int (length (n_down ?n)))"
    using assms(3,4) by (simp add: num total add32_def int32_ok_def)
  moreover have "0 < int (length (n_up ?n)) + int (length (n_down ?n))"
    using assms(2) by (cases "n_up ?n"; cases "n_down ?n") auto
  moreover have "(n_name ?n \<in> fst ` set (mg_node_list mg)) \<longleftrightarrow>
      (map_of (mg_node_list mg) (n_name ?n) \<noteq> None)"
    by (simp add: map_of_eq_None_iff)
  ultimately show ?thesis
    using assms(1) by (auto simp: RunAsThreads_def Let_def split: option.splits)
qed

text \<open>After \<open>CleanUp\<close> the static pointer of \<open>Instance\<close> dangles: it still names the
  manager that was deleted, and \<open>Instance\<close> keeps returning it, because the once flag
  prevents a new one from being created.\<close>

theorem CleanUp_leaves_dangling:
  assumes "sg_instance s = Some p" and "CleanUp s w = done_act (s', w')"
  shows "fst (Instance create s') = Some p \<and> map_of (sg_objects s') p = None"
proof -
  have "map_of (filter (\<lambda>(q, _). q \<noteq> p) xs) p = None" for xs :: "(nat \<times> NodeManager) list"
    by (induction xs) auto
  then show ?thesis
    using assms by (auto simp: CleanUp_def Instance_def Let_def split: option.splits)
qed


subsection \<open>Witnesses\<close>

text \<open>A running relay, a running sink and an unlinked relay; the first two share a channel.\<close>

definition plant :: "(unit, unit) world" where
  "plant = \<lparr>w_chans = [demo_chan []],
     w_nodes = [(Node_new NODE_RELAY ''relay'')\<lparr>n_is_stop := False, n_down := [0]\<rparr>,
                (Node_new NODE_SINK ''sink'')\<lparr>n_is_stop := False, n_up := [0]\<rparr>, Node_new NODE_RELAY ''new''],
     w_processor_id = (\<lambda>_. 0), w_ext = ()\<rparr>"

definition plant_manager :: "(string \<times> NodeType \<times> nat) list \<Rightarrow> nat list \<Rightarrow> NodeManager" where
  "plant_manager items workers =
     \<lparr>mg_node_list = items, mg_channel_list = [0], mg_worker_list = workers, mg_stop = False\<rparr>"

lemma plant_ok: "chans_wf plant" "links_ok plant"
  by (auto simp: plant_def chans_wf_def links_ok_def demo_chan_wf Node_new_def less_Suc_eq numeral_3_eq_3)

theorem Connect_links_witness:
  "\<exists>mg' w' c. Connect ''id'' 0 2 True NodeManager_new plant = Inr (True, mg', w') \<and>
      c \<in> set (side (w_nodes w' ! 0) CHN_OUT) \<and> c \<in> set (side (w_nodes w' ! 2) CHN_IN) \<and>
      w_chans w' = w_chans plant"
proof -
  have "length (w_nodes plant) = 3" "n_type (w_nodes plant ! 0) = NODE_RELAY"
    "n_type (w_nodes plant ! 2) = NODE_RELAY" "side (w_nodes plant ! 0) CHN_OUT = [0]"
    "side (w_nodes plant ! 2) CHN_IN = []"
    by (simp_all add: plant_def Node_new_def side_def)
  then show ?thesis
    using Connect_links [of 0 plant 2 "''id''" True NodeManager_new] by auto
qed


theorem Shutdown_waits_for_sink_witness:
  "NodeManager_Shutdown (plant_manager [(''sink'', NODE_SINK, 1), (''relay'', NODE_RELAY, 0)] [0, 1]) plant = None"
  by (rule Shutdown_waits_for_sink [OF plant_ok, where i = 1])
     (simp_all add: plant_manager_def plant_def Node_new_def)

theorem RunAsThreads_failure_sticks_witness:
  "\<exists>mg'. RunAsThreads 2 1 plant NodeManager_new = (Inl (runtime_error ''node has no available channels.''), mg') \<and>
      RunAsThreads 2 1 (set_node 2 (AddChannel (w_nodes plant ! 2) 0 CHN_IN) plant) mg' =
        (Inl (runtime_error ''Duplicate node!''), mg')"
proof -
  let ?w = "set_node 2 (AddChannel (w_nodes plant ! 2) 0 CHN_IN) plant"
  have "n_name (w_nodes ?w ! 2) = n_name (w_nodes plant ! 2)" "n_type (w_nodes ?w ! 2) = n_type (w_nodes plant ! 2)"
    "length (w_nodes ?w) = 3" "n_up (w_nodes plant ! 2) = []" "n_down (w_nodes plant ! 2) = []" "length (w_nodes plant) = 3"
    "map_of (mg_node_list NodeManager_new) (n_name (w_nodes plant ! 2)) = None"
    by (simp_all add: plant_def Node_new_def NodeManager_new_def AddChannel_def Node_AddChannel_def)
  then show ?thesis
    using RunAsThreads_failure_sticks [of 2 plant NodeManager_new 1 ?w] by auto
qed

theorem RunAsThreads_starts_witness:
  "RunAsThreads 0 1 plant NodeManager_new = (Inr True, plant_manager [(''relay'', NODE_RELAY, 0)] [0]\<lparr>mg_channel_list := []\<rparr>)"
  using RunAsThreads_starts [of 0 plant 1 NodeManager_new]
  by (simp add: plant_def Node_new_def NodeManager_new_def plant_manager_def Let_def)

theorem CleanUp_leaves_dangling_witness:
  "\<exists>s' w'. CleanUp \<lparr>sg_instance = Some 7, sg_once = True, sg_objects = [(7, NodeManager_new)], sg_next = 8\<rparr> plant
      = done_act (s', w') \<and> fst (Instance True s') = Some 7 \<and> map_of (sg_objects s') 7 = None"
proof -
  let ?s = "\<lparr>sg_instance = Some 7, sg_once = True, sg_objects = [(7, NodeManager_new)], sg_next = 8\<rparr>"
  have "CleanUp ?s plant = done_act (?s\<lparr>sg_objects := []\<rparr>, plant)"
    by (simp add: CleanUp_def Instance_def NodeManager_Shutdown_def NodeManager_new_def)
  with CleanUp_leaves_dangling [of ?s 7 plant "?s\<lparr>sg_objects := []\<rparr>" plant True] show ?thesis by auto
qed

end
