(* ===== verification/Node_System.thy ===== *)
theory Node_System
  imports Node "HOL-Library.Multiset"
begin

text \<open>
  A node among threads: the workers that \<open>RunAsThreads\<close> of \<open>src/src/util/node_manager.h\<close> starts on it, which run \<open>DoWork\<close> of
  \<open>src/src/util/node.h\<close> and share the node and its channels, with the threads that write to its input channels and those that
  call \<open>Stop\<close>, as the step relation \<open>node_step\<close>.

  A step is what a thread does between two accesses to what it shares: a part that holds \<open>mutex_\<close>, an access to
  \<open>is_stop_\<close>, an operation of a channel, a call of \<open>HandleMsg\<close>. An operation that has to wait is a step that is not
  possible yet. \<open>HandleMsg\<close> is an argument; what the workers rely on from it is the locale \<open>quiet_handler\<close>.
\<close>

section \<open>Model\<close>

text \<open>Where a worker is in \<open>DoWork\<close>, from \<open>IncThreads\<close> on with its channel: before \<open>ThreadAffinity\<close>, before \<open>IncThreads\<close>, at
  the test of the loop, at the read, with a message, with a stop signal to pass on, or returned.\<close>

datatype 'e node_pc =
    WNew
  | WStart
  | WTest nat
  | WRead nat
  | WHandle nat "'e BaseMsg_scheme"
  | WForward nat "'e BaseMsg_scheme"
  | WDone nat

text \<open>\<open>ns_stops\<close> has the channels that each caller of \<open>Stop\<close> has still to break. The last three fields record the past of
  each channel: what it accepted, what was taken from it, and the messages of it whose handling has ended.\<close>

record ('e, 'x) node_sys =
  ns_w :: "('e, 'x) world"
  ns_workers :: "'e node_pc list"
  ns_stops :: "nat list list"
  ns_accepted :: "nat \<Rightarrow> 'e msg_ptr list"
  ns_taken :: "nat \<Rightarrow> 'e msg_ptr list"
  ns_finished :: "nat \<Rightarrow> 'e BaseMsg_scheme list"

datatype node_label = Worker nat | Writer nat | Stopper nat | Elsewhere

definition worker_at :: "nat \<Rightarrow> 'e node_pc \<Rightarrow> ('e, 'x) node_sys \<Rightarrow> bool" where
  "worker_at k pc s \<longleftrightarrow> k < length (ns_workers s) \<and> ns_workers s ! k = pc"

definition worker_goto :: "nat \<Rightarrow> 'e node_pc \<Rightarrow> ('e, 'x) world \<Rightarrow> ('e, 'x) node_sys \<Rightarrow> ('e, 'x) node_sys" where
  "worker_goto k pc w s = s\<lparr>ns_w := w, ns_workers := (ns_workers s)[k := pc]\<rparr>"

definition log_at :: "nat \<Rightarrow> 'a list \<Rightarrow> (nat \<Rightarrow> 'a list) \<Rightarrow> nat \<Rightarrow> 'a list" where
  "log_at c xs l = l(c := l c @ xs)"

text \<open>Two states of a node between which neither its kind nor its channels changed.\<close>

definition same_shape :: "Node \<Rightarrow> Node \<Rightarrow> bool" where
  "same_shape n n' \<longleftrightarrow> n_type n' = n_type n \<and> n_up n' = n_up n \<and> n_down n' = n_down n"

text \<open>What no thread does to the world of node \<open>i\<close> once it runs: remove channels or nodes, change the kind or the channels of
  the node, clear its flag, make a broken channel whole.\<close>

definition evolves :: "nat \<Rightarrow> ('e, 'x) world \<Rightarrow> ('e, 'x) world \<Rightarrow> bool" where
  "evolves i w w' \<longleftrightarrow> length (w_chans w') = length (w_chans w) \<and> length (w_nodes w') = length (w_nodes w) \<and>
     same_shape (w_nodes w ! i) (w_nodes w' ! i) \<and> chans_wf w' \<and>
     (n_is_stop (w_nodes w ! i) \<longrightarrow> n_is_stop (w_nodes w' ! i)) \<and>
     (\<forall>c<length (w_chans w). broken (w_chans w ! c) \<longrightarrow> broken (w_chans w' ! c))"

text \<open>What threads that are not in the node and the handler may do: all that leaves what is pending in the input channels
  alone.\<close>

definition quiet :: "nat \<Rightarrow> ('e, 'x) world \<Rightarrow> ('e, 'x) world \<Rightarrow> bool" where
  "quiet i w w' \<longleftrightarrow> evolves i w w' \<and>
     (\<forall>c\<in>set (side (w_nodes w ! i) CHN_IN). pending (w_chans w' ! c) = pending (w_chans w ! c))"

inductive node_step :: "('e, 'x) msg_handler \<Rightarrow> nat \<Rightarrow> node_label \<Rightarrow> ('e, 'x) node_sys \<Rightarrow> ('e, 'x) node_sys \<Rightarrow> bool"
  for HandleMsg :: "('e, 'x) msg_handler" and i :: nat where
  affinity: "worker_at k WNew s \<Longrightarrow> ThreadAffinity os i (ns_w s) = Inr (cpu, w) \<Longrightarrow>
     node_step HandleMsg i (Worker k) s (worker_goto k WStart w s)"
| start: "worker_at k WStart s \<Longrightarrow> deref (w_nodes (ns_w s)) i = Inr n \<Longrightarrow> IncThreads n = Inr (idx, n') \<Longrightarrow>
     GetChannel n' idx CHN_IN = Inr c \<Longrightarrow>
     node_step HandleMsg i (Worker k) s (worker_goto k (WTest c) (set_node i n' (ns_w s)) s)"
| test: "worker_at k (WTest c) s \<Longrightarrow> deref (w_nodes (ns_w s)) i = Inr n \<Longrightarrow>
     node_step HandleMsg i (Worker k) s (worker_goto k (if n_is_stop n then WDone c else WRead c) (ns_w s) s)"
| read: "worker_at k (WRead c) s \<Longrightarrow> deref (w_chans (ns_w s)) c = Inr ch \<Longrightarrow> ReadMessage [] None ch = done_act (msg, ch') \<Longrightarrow>
     node_step HandleMsg i (Worker k) s
       ((worker_goto k (case msg of None \<Rightarrow> WTest c | Some m \<Rightarrow> WHandle c m) (set_chan c ch' (ns_w s)) s)
          \<lparr>ns_taken := log_at c (if broken ch then [] else [msg]) (ns_taken s)\<rparr>)"
| stop_signal: "worker_at k (WHandle c m) s \<Longrightarrow> deref (w_nodes (ns_w s)) i = Inr n \<Longrightarrow> n_type n \<noteq> NODE_FULL_DUPLEX \<Longrightarrow>
     StopSignal n m = (True, n') \<Longrightarrow>
     node_step HandleMsg i (Worker k) s (worker_goto k (WForward c m) (set_node i n' (ns_w s)) s)"
| forward: "worker_at k (WForward c m) s \<Longrightarrow> Dispatch i (Some m) (ns_w s) = done_act w \<Longrightarrow>
     node_step HandleMsg i (Worker k) s ((worker_goto k (WTest c) w s)\<lparr>ns_finished := log_at c [m] (ns_finished s)\<rparr>)"
| handle: "worker_at k (WHandle c m) s \<Longrightarrow> deref (w_nodes (ns_w s)) i = Inr n \<Longrightarrow>
     n_type n = NODE_FULL_DUPLEX \<or> \<not> fst (StopSignal n m) \<Longrightarrow> HandleMsg i m (ns_w s) = done_act w \<Longrightarrow>
     node_step HandleMsg i (Worker k) s ((worker_goto k (WTest c) w s)\<lparr>ns_finished := log_at c [m] (ns_finished s)\<rparr>)"
| write_msg: "c \<in> set (side (w_nodes (ns_w s) ! i) CHN_IN) \<Longrightarrow> deref (w_chans (ns_w s)) c = Inr ch \<Longrightarrow>
     WriteMessage [] msg ch = done_act ch' \<Longrightarrow>
     node_step HandleMsg i (Writer c) s (s\<lparr>ns_w := set_chan c ch' (ns_w s),
       ns_accepted := log_at c (if broken ch then [] else [msg]) (ns_accepted s)\<rparr>)"
| stop_flag: "deref (w_nodes (ns_w s)) i = Inr n \<Longrightarrow> j = length (ns_stops s) \<Longrightarrow>
     node_step HandleMsg i (Stopper j) s (s\<lparr>ns_w := set_node i (n\<lparr>n_is_stop := True\<rparr>) (ns_w s),
       ns_stops := ns_stops s @ [n_up n @ n_down n]\<rparr>)"
| stop_break: "j < length (ns_stops s) \<Longrightarrow> ns_stops s ! j = c # cs \<Longrightarrow> break_channels [c] (ns_w s) = Inr w \<Longrightarrow>
     node_step HandleMsg i (Stopper j) s (s\<lparr>ns_w := w, ns_stops := (ns_stops s)[j := cs]\<rparr>)"
| elsewhere: "quiet i (ns_w s) w \<Longrightarrow> node_step HandleMsg i Elsewhere s (s\<lparr>ns_w := w\<rparr>)"

inductive_cases node_stepE: "node_step H i l s t"

fun node_run :: "('e, 'x) msg_handler \<Rightarrow> nat \<Rightarrow> node_label list \<Rightarrow> ('e, 'x) node_sys \<Rightarrow> ('e, 'x) node_sys \<Rightarrow> bool" where
  "node_run H i [] s t \<longleftrightarrow> s = t"
| "node_run H i (l # ls) s t \<longleftrightarrow> (\<exists>u. node_step H i l s u \<and> node_run H i ls u t)"

text \<open>\<open>RunAsThreads\<close> has started \<open>num\<close> threads.\<close>

definition node_start :: "nat \<Rightarrow> ('e, 'x) world \<Rightarrow> ('e, 'x) node_sys" where
  "node_start num w = \<lparr>ns_w = w, ns_workers = replicate num WNew, ns_stops = [],
     ns_accepted = (\<lambda>c. pending (w_chans w ! c)), ns_taken = (\<lambda>_. []), ns_finished = (\<lambda>_. [])\<rparr>"

section \<open>Lemmas\<close>

lemma worker_goto_sel [simp]:
  "ns_w (worker_goto k pc w s) = w" "ns_accepted (worker_goto k pc w s) = ns_accepted s"
  "ns_taken (worker_goto k pc w s) = ns_taken s" "ns_finished (worker_goto k pc w s) = ns_finished s"
  "ns_workers (worker_goto k pc w s) = (ns_workers s)[k := pc]" "ns_stops (worker_goto k pc w s) = ns_stops s"
  by (simp_all add: worker_goto_def)

lemma log_at_simps [simp]: "log_at c xs l c = l c @ xs" "d \<noteq> c \<Longrightarrow> log_at c xs l d = l d" "log_at c [] l = l"
  by (simp_all add: log_at_def)

lemma node_run_append: "node_run H i (ls @ ms) s t \<longleftrightarrow> (\<exists>u. node_run H i ls s u \<and> node_run H i ms u t)"
  by (induction ls arbitrary: s) auto

subsection \<open>The world of a node\<close>

definition node_ok :: "nat \<Rightarrow> ('e, 'x) world \<Rightarrow> bool" where
  "node_ok i w \<longleftrightarrow> chans_wf w \<and> i < length (w_nodes w) \<and>
     set (side (w_nodes w ! i) CHN_IN) \<inter> set (side (w_nodes w ! i) CHN_OUT) = {} \<and>
     (\<forall>c\<in>set (n_up (w_nodes w ! i)) \<union> set (n_down (w_nodes w ! i)). c < length (w_chans w))"

lemma same_shape_side: "same_shape n n' \<Longrightarrow> side n' ct = side n ct"
  by (cases ct) (simp_all add: same_shape_def side_def)

lemma side_members: "set (side n CHN_IN) \<union> set (side n CHN_OUT) = set (n_up n) \<union> set (n_down n)"
  by (auto simp: side_def)

lemma node_ok_range: "node_ok i w \<Longrightarrow> c \<in> set (side (w_nodes w ! i) ct) \<Longrightarrow> c < length (w_chans w)"
  by (cases ct) (auto simp: node_ok_def side_def split: if_splits)

lemma node_ok_wf: "node_ok i w \<Longrightarrow> c < length (w_chans w) \<Longrightarrow> chan_wf (w_chans w ! c)"
  by (simp add: node_ok_def chans_wf_def)

lemma IncThreads_shape: "IncThreads n = Inr (idx, n') \<Longrightarrow> same_shape n n' \<and> n_is_stop n' = n_is_stop n"
  by (auto simp: IncThreads_def same_shape_def Let_def bindE_def split: if_splits sum.splits)

lemma ThreadAffinity_shape:
  "ThreadAffinity os i w = Inr (cpu, w') \<Longrightarrow> i < length (w_nodes w) \<Longrightarrow> w_chans w' = w_chans w \<and>
   length (w_nodes w') = length (w_nodes w) \<and> same_shape (w_nodes w ! i) (w_nodes w' ! i) \<and>
   n_is_stop (w_nodes w' ! i) = n_is_stop (w_nodes w ! i)"
  by (auto simp: ThreadAffinity_def same_shape_def Let_def bindE_def split: if_splits sum.splits)

lemma ReadMessage_outcome:
  assumes "chan_wf ch" and "ReadMessage [] None ch = done_act (msg, ch')"
  shows "chan_wf ch' \<and> broken ch' = broken ch \<and>
    (if broken ch then [] else [msg]) @ pending ch' = pending ch \<and> (broken ch \<longrightarrow> msg = None)"
proof (cases "broken ch")
  case True
  with assms show ?thesis by (auto simp: channel_ops)
next
  case False
  with assms obtain ms where "pending ch = msg # ms" "ch' = ch\<lparr>c_queue := (c_queue ch)\<lparr>q_pool := ms\<rparr>\<rparr>"
    by (cases "pending ch") (auto simp: channel_ops)
  with False assms(1) show ?thesis by (simp add: chan_wf_tail)
qed

lemma WriteMessage_outcome:
  assumes "chan_wf ch" and "WriteMessage [] msg ch = done_act ch'"
  shows "chan_wf ch' \<and> broken ch' = broken ch \<and> pending ch' = pending ch @ (if broken ch then [] else [msg])"
proof (cases "broken ch")
  case True
  with assms show ?thesis by (auto simp: channel_ops)
next
  case False
  with assms show ?thesis
    by (cases "length (pending ch) < 100") (auto simp: channel_ops chan_wf_pool)
qed

lemma evolves_refl: "chans_wf w \<Longrightarrow> evolves i w w"
  by (simp add: evolves_def same_shape_def)

lemma evolves_trans: "evolves i w w1 \<Longrightarrow> evolves i w1 w2 \<Longrightarrow> evolves i w w2"
  by (simp add: evolves_def same_shape_def)

lemma evolves_ok: "evolves i w w' \<Longrightarrow> node_ok i w \<Longrightarrow> node_ok i w'"
  by (auto simp: evolves_def node_ok_def same_shape_side) (auto simp: same_shape_def)

lemma evolves_side: "evolves i w w' \<Longrightarrow> side (w_nodes w' ! i) ct = side (w_nodes w ! i) ct"
  by (simp add: evolves_def same_shape_side)

lemma quiet_refl: "chans_wf w \<Longrightarrow> quiet i w w"
  by (simp add: quiet_def evolves_refl)

lemma quiet_evolves: "quiet i w w' \<Longrightarrow> evolves i w w'"
  by (simp add: quiet_def)

lemma quiet_trans: "quiet i w w1 \<Longrightarrow> quiet i w1 w2 \<Longrightarrow> quiet i w w2"
  using evolves_trans by (auto simp: quiet_def evolves_side)

lemma set_chan_evolves:
  "chans_wf w \<Longrightarrow> c < length (w_chans w) \<Longrightarrow> chan_wf ch' \<Longrightarrow> (broken (w_chans w ! c) \<longrightarrow> broken ch') \<Longrightarrow> evolves i w (set_chan c ch' w)"
  by (auto simp: evolves_def same_shape_def chans_wf_def nth_list_update)

lemma set_node_evolves:
  "chans_wf w \<Longrightarrow> i < length (w_nodes w) \<Longrightarrow> same_shape (w_nodes w ! i) n' \<Longrightarrow>
   (n_is_stop (w_nodes w ! i) \<longrightarrow> n_is_stop n') \<Longrightarrow> evolves i w (set_node i n' w)"
  by (simp add: evolves_def chans_wf_def)

text \<open>\<open>Dispatch\<close> writes to an output channel or does nothing.\<close>

lemma vec_at_member: "vec_at xs k = Inr x \<Longrightarrow> x \<in> set xs"
  by (auto simp: vec_at_def Let_def split: if_splits)

lemma Dispatch_writes:
  assumes "Dispatch i (Some m) w = done_act w'"
  shows "w' = w \<or> (\<exists>c ch. c \<in> set (side (w_nodes w ! i) CHN_OUT) \<and> c < length (w_chans w) \<and>
    WriteMessage [] (Some m) (w_chans w ! c) = done_act ch \<and> w' = set_chan c ch w)"
  using assms
  by (auto simp: Dispatch_def Let_def any_table.get_view bindA_def deref_def dest!: vec_at_member
      split: if_splits option.splits sum.splits)

lemma Dispatch_quiet:
  assumes "node_ok i w" and "Dispatch i (Some m) w = done_act w'"
  shows "quiet i w w'"
  using Dispatch_writes [OF assms(2)]
proof
  assume "w' = w"
  with assms(1) show ?thesis by (simp add: quiet_refl node_ok_def)
next
  assume "\<exists>c ch. c \<in> set (side (w_nodes w ! i) CHN_OUT) \<and> c < length (w_chans w) \<and>
    WriteMessage [] (Some m) (w_chans w ! c) = done_act ch \<and> w' = set_chan c ch w"
  then obtain c ch where c: "c \<in> set (side (w_nodes w ! i) CHN_OUT)" "c < length (w_chans w)"
    "WriteMessage [] (Some m) (w_chans w ! c) = done_act ch" "w' = set_chan c ch w"
    by blast
  have "chan_wf ch \<and> broken ch = broken (w_chans w ! c)"
    using WriteMessage_outcome [OF node_ok_wf [OF assms(1) c(2)] c(3)] by blast
  moreover have "c \<notin> set (side (w_nodes w ! i) CHN_IN)"
    using c(1) assms(1) by (auto simp: node_ok_def)
  ultimately show ?thesis
    using assms(1) c by (auto simp: quiet_def node_ok_def nth_list_update intro: set_chan_evolves)
qed

subsection \<open>The handler\<close>

text \<open>What the workers rely on from \<open>HandleMsg\<close>: it leaves what is pending in the input channels alone. Passing the messages
  on does.\<close>

locale quiet_handler =
  fixes H :: "('e, 'x) msg_handler" and i :: nat
  assumes quiet: "node_ok i w \<Longrightarrow> H i m w = done_act w' \<Longrightarrow> quiet i w w'"
begin

lemma step_evolves:
  assumes "node_ok i (ns_w s)" and "node_step H i l s t"
  shows "evolves i (ns_w s) (ns_w t)"
  using assms(2)
proof (cases rule: node_step.cases)
  case (affinity k os cpu w)
  with assms(1) ThreadAffinity_shape [OF affinity(4)] show ?thesis
    by (auto simp: evolves_def node_ok_def chans_wf_def)
next
  case (start k n idx n' c)
  with assms(1) IncThreads_shape [OF start(5)] show ?thesis
    by (auto intro!: set_node_evolves simp: node_ok_def deref_def)
next
  case (read k c ch msg ch')
  with assms(1) ReadMessage_outcome [of ch msg ch'] show ?thesis
    by (auto intro!: set_chan_evolves simp: node_ok_def deref_def chans_wf_def split: if_splits)
next
  case (stop_signal k c m n n')
  with assms(1) show ?thesis
    by (auto intro!: set_node_evolves simp: node_ok_def deref_def StopSignal_def same_shape_def split: if_splits)
next
  case (forward k c m w)
  with assms(1) show ?thesis by (auto intro: quiet_evolves [OF Dispatch_quiet])
next
  case (handle k c m n w)
  with assms(1) show ?thesis by (auto intro: quiet_evolves [OF quiet])
next
  case (write_msg c ch msg ch')
  with assms(1) WriteMessage_outcome [of ch msg ch'] show ?thesis
    by (auto intro!: set_chan_evolves simp: node_ok_def deref_def chans_wf_def split: if_splits)
next
  case (stop_flag n j)
  with assms(1) show ?thesis
    by (auto intro!: set_node_evolves simp: node_ok_def deref_def same_shape_def split: if_splits)
next
  case (stop_break j c cs w)
  with assms(1) show ?thesis
    by (auto intro!: set_chan_evolves chan_wf_broken simp: node_ok_def deref_def chans_wf_def BreakAllWait_wf split: if_splits)
qed (use assms(1) in \<open>auto intro: evolves_refl quiet_evolves simp: node_ok_def\<close>)

lemma step_ok: "node_ok i (ns_w s) \<Longrightarrow> node_step H i l s t \<Longrightarrow> node_ok i (ns_w t)"
  using evolves_ok step_evolves by blast

lemma run_evolves:
  "node_ok i (ns_w s) \<Longrightarrow> node_run H i ls s t \<Longrightarrow> evolves i (ns_w s) (ns_w t) \<and> node_ok i (ns_w t)"
proof (induction ls arbitrary: s)
  case Nil
  then show ?case by (auto intro: evolves_refl simp: node_ok_def)
next
  case (Cons l ls)
  then show ?case by (auto intro: evolves_trans dest: step_evolves step_ok)
qed

end

interpretation forwarding: quiet_handler "\<lambda>i m. Dispatch i (Some m)" i
  by unfold_locales (rule Dispatch_quiet)

subsection \<open>Messages in the hands of the workers\<close>

fun pc_channel :: "'e node_pc \<Rightarrow> nat option" where
  "pc_channel WNew = None"
| "pc_channel WStart = None"
| "pc_channel (WTest c) = Some c"
| "pc_channel (WRead c) = Some c"
| "pc_channel (WHandle c m) = Some c"
| "pc_channel (WForward c m) = Some c"
| "pc_channel (WDone c) = Some c"

fun in_hand :: "nat \<Rightarrow> 'e node_pc \<Rightarrow> 'e BaseMsg_scheme list" where
  "in_hand d (WHandle c m) = (if c = d then [m] else [])"
| "in_hand d (WForward c m) = (if c = d then [m] else [])"
| "in_hand d pc = []"

primrec hands :: "nat \<Rightarrow> 'e node_pc list \<Rightarrow> 'e BaseMsg_scheme list" where
  "hands d [] = []"
| "hands d (pc # ws) = in_hand d pc @ hands d ws"

primrec readers :: "nat \<Rightarrow> 'e node_pc list \<Rightarrow> nat" where
  "readers d [] = 0"
| "readers d (pc # ws) = (if pc_channel pc = Some d then 1 else 0) + readers d ws"

lemma hands_append [simp]: "hands d (xs @ ys) = hands d xs @ hands d ys"
  by (induction xs) simp_all

lemma readers_append [simp]: "readers d (xs @ ys) = readers d xs + readers d ys"
  by (induction xs) simp_all

text \<open>The messages among the pointers.\<close>

fun non_null :: "'a option list \<Rightarrow> 'a list" where
  "non_null [] = []"
| "non_null (None # xs) = non_null xs"
| "non_null (Some x # xs) = x # non_null xs"

lemma non_null_append [simp]: "non_null (xs @ ys) = non_null xs @ non_null ys"
  by (induction xs rule: non_null.induct) simp_all

lemma in_hand_channel: "in_hand d pc \<noteq> [] \<Longrightarrow> pc_channel pc = Some d"
  by (cases pc) (auto split: if_splits)

lemma no_reader_no_hands: "readers d ws = 0 \<Longrightarrow> hands d ws = []"
  by (induction ws) (auto dest: in_hand_channel split: if_splits)

text \<open>A worker's step changes what is in hand by what it has itself.\<close>

lemma around:
  assumes "k < length ws"
  obtains xs x ys where "ws = xs @ x # ys" "ws ! k = x" "\<And>y. ws[k := y] = xs @ y # ys"
  using id_take_nth_drop [OF assms] upd_conv_take_nth_drop [OF assms] by blast

lemma hands_update:
  "k < length ws \<Longrightarrow> mset (hands d (ws[k := pc])) + mset (in_hand d (ws ! k)) = mset (hands d ws) + mset (in_hand d pc)"
  by (erule around) simp

lemma hands_same: "k < length ws \<Longrightarrow> in_hand d pc = in_hand d (ws ! k) \<Longrightarrow> hands d (ws[k := pc]) = hands d ws"
  by (erule around) simp

lemma readers_update:
  "k < length ws \<Longrightarrow> readers d (ws[k := pc]) + (if pc_channel (ws ! k) = Some d then 1 else 0) =
     readers d ws + (if pc_channel pc = Some d then 1 else 0)"
  by (erule around) simp

lemma hands_alone:
  "k < length ws \<Longrightarrow> readers d ws \<le> 1 \<Longrightarrow> pc_channel (ws ! k) = Some d \<Longrightarrow> hands d (ws[k := pc]) = in_hand d pc"
  by (erule around) (simp add: no_reader_no_hands)

subsection \<open>Every message is handled once\<close>

text \<open>What the past of a channel says of its messages; in order if the channel has one reader.\<close>

definition handled :: "nat \<Rightarrow> ('e, 'x) node_sys \<Rightarrow> bool" where
  "handled d s \<longleftrightarrow> mset (ns_finished s d) + mset (hands d (ns_workers s)) = mset (non_null (ns_taken s d)) \<and>
     (readers d (ns_workers s) \<le> 1 \<longrightarrow> ns_finished s d @ hands d (ns_workers s) = non_null (ns_taken s d))"

text \<open>The three ways in which a worker's step touches it.\<close>

lemma handled_move:
  assumes "handled d s" and "worker_at k pc s" and "in_hand d pc' = in_hand d pc"
    and "pc_channel pc = Some d \<longrightarrow> pc_channel pc' = Some d"
    and "ns_workers t = (ns_workers s)[k := pc']" and "ns_finished t d = ns_finished s d"
    and "non_null (ns_taken t d) = non_null (ns_taken s d)"
  shows "handled d t"
proof -
  have "hands d (ns_workers t) = hands d (ns_workers s)"
    using assms(2,3,5) by (simp add: worker_at_def hands_same)
  moreover have "readers d (ns_workers s) \<le> readers d (ns_workers t)"
    using readers_update [of k "ns_workers s" d pc'] assms(2,4,5) by (auto simp: worker_at_def split: if_splits)
  ultimately show ?thesis using assms(1,6,7) by (auto simp: handled_def)
qed

lemma handled_take:
  assumes "handled d s" and "worker_at k (WRead d) s"
    and "ns_workers t = (ns_workers s)[k := WHandle d m]" and "ns_finished t d = ns_finished s d"
    and "ns_taken t d = ns_taken s d @ [Some m]"
  shows "handled d t"
proof -
  have k: "k < length (ns_workers s)" "ns_workers s ! k = WRead d" using assms(2) by (simp_all add: worker_at_def)
  have "readers d (ns_workers t) = readers d (ns_workers s)"
    using readers_update [OF k(1), of d "WHandle d m"] k(2) assms(3) by simp
  moreover have "hands d (ns_workers s) = []" "hands d (ns_workers t) = [m]" if "readers d (ns_workers s) \<le> 1"
    using hands_alone [OF k(1) that, of "WRead d"] hands_alone [OF k(1) that, of "WHandle d m"] k assms(3)
      list_update_id [of "ns_workers s" k] by simp_all
  moreover have "mset (hands d (ns_workers t)) = mset (hands d (ns_workers s)) + {#m#}"
    using hands_update [OF k(1), of d "WHandle d m"] k(2) assms(3) by simp
  ultimately show ?thesis using assms(1,4,5) by (auto simp: handled_def)
qed

lemma handled_finish:
  assumes "handled d s" and "worker_at k pc s" and "pc_channel pc = Some d" and "in_hand d pc = [m]"
    and "ns_workers t = (ns_workers s)[k := WTest d]" and "ns_finished t d = ns_finished s d @ [m]"
    and "ns_taken t d = ns_taken s d"
  shows "handled d t"
proof -
  have k: "k < length (ns_workers s)" "ns_workers s ! k = pc" using assms(2) by (simp_all add: worker_at_def)
  have "readers d (ns_workers t) = readers d (ns_workers s)"
    using readers_update [OF k(1), of d "WTest d"] k(2) assms(3,5) by simp
  moreover have "hands d (ns_workers s) = [m]" "hands d (ns_workers t) = []" if "readers d (ns_workers s) \<le> 1"
    using hands_alone [OF k(1) that, of pc] hands_alone [OF k(1) that, of "WTest d"] k assms(3-5)
      list_update_id [of "ns_workers s" k] by simp_all
  moreover have "mset (hands d (ns_workers s)) = add_mset m (mset (hands d (ns_workers t)))"
    using hands_update [OF k(1), of d "WTest d"] k(2) assms(4,5) by simp
  ultimately show ?thesis using assms(1,6,7) by (auto simp: handled_def)
qed

lemma handled_other:
  assumes "handled d s" and "worker_at k pc s" and "pc_channel pc = Some c" and "pc_channel pc' = Some c" and "c \<noteq> d"
    and "ns_workers t = (ns_workers s)[k := pc']" and "ns_finished t d = ns_finished s d" and "ns_taken t d = ns_taken s d"
  shows "handled d t"
proof -
  have "in_hand d pc = []" "in_hand d pc' = []"
    using assms(3-5) in_hand_channel [of d] by fastforce+
  with assms show ?thesis by (intro handled_move [OF assms(1,2)]) simp_all
qed

lemma handled_done:
  assumes "handled d s" and "worker_at k pc s" and "pc_channel pc = Some c" and "in_hand c pc = [m]"
  shows "handled d ((worker_goto k (WTest c) w s)\<lparr>ns_finished := log_at c [m] (ns_finished s)\<rparr>)"
proof (cases "c = d")
  case True
  with assms show ?thesis by (intro handled_finish [OF assms(1,2), of m]) simp_all
next
  case False
  with assms(3) show ?thesis by (intro handled_other [OF assms(1,2), of c "WTest c"]) simp_all
qed

lemma step_handled:
  assumes "handled d s" and "node_step H i l s t" and "node_ok i (ns_w s)"
  shows "handled d t"
  using assms(2)
proof (cases rule: node_step.cases)
  case (affinity k os cpu w)
  then show ?thesis by (intro handled_move [OF assms(1), of k WNew]) simp_all
next
  case (start k n idx n' c)
  then show ?thesis by (intro handled_move [OF assms(1), of k WStart]) simp_all
next
  case (test k c n)
  then show ?thesis by (intro handled_move [OF assms(1), of k "WTest c"]) simp_all
next
  case (read k c ch msg ch')
  note t = read(1-3)
  show ?thesis
  proof (cases "c = d")
    case c: True
    show ?thesis
    proof (cases msg)
      case None
      with c t show ?thesis by (intro handled_move [OF assms(1), of k "WRead d" "WTest d"]) simp_all
    next
      case (Some m)
      then have "\<not> broken ch"
        using ReadMessage_outcome [OF _ read(5)] node_ok_wf [OF assms(3), of c] read(4) by (auto simp: deref_def split: if_splits)
      with c t Some show ?thesis by (intro handled_take [OF assms(1), of k]) simp_all
    qed
  next
    case False
    with t show ?thesis
      by (intro handled_other [OF assms(1), of k "WRead c" c]) (simp_all split: option.split)
  qed
next
  case (stop_signal k c m n n')
  then show ?thesis by (intro handled_move [OF assms(1), of k "WHandle c m"]) simp_all
next
  case (forward k c m w)
  then show ?thesis by (simp add: handled_done [OF assms(1)])
next
  case (handle k c m n w)
  then show ?thesis by (simp add: handled_done [OF assms(1)])
qed (use assms(1) in \<open>simp_all add: handled_def\<close>)

text \<open>What a channel accepted has been taken from it or is pending.\<close>

definition flows :: "nat \<Rightarrow> ('e, 'x) node_sys \<Rightarrow> bool" where
  "flows d s \<longleftrightarrow> ns_accepted s d = ns_taken s d @ pending (w_chans (ns_w s) ! d)"

lemma flows_same:
  "flows d s \<Longrightarrow> ns_accepted t d = ns_accepted s d \<Longrightarrow> ns_taken t d = ns_taken s d \<Longrightarrow>
   pending (w_chans (ns_w t) ! d) = pending (w_chans (ns_w s) ! d) \<Longrightarrow> flows d t"
  by (simp add: flows_def)

text \<open>The workers read input channels.\<close>

definition placed :: "nat \<Rightarrow> ('e, 'x) node_sys \<Rightarrow> bool" where
  "placed i s \<longleftrightarrow> (\<forall>pc\<in>set (ns_workers s). \<forall>c. pc_channel pc = Some c \<longrightarrow> c \<in> set (side (w_nodes (ns_w s) ! i) CHN_IN))"

text \<open>A caller of \<open>Stop\<close> has set the flag, and the channels that it has no more to break are broken.\<close>

definition stopping :: "nat \<Rightarrow> ('e, 'x) node_sys \<Rightarrow> bool" where
  "stopping i s \<longleftrightarrow> (\<forall>cs\<in>set (ns_stops s). n_is_stop (w_nodes (ns_w s) ! i) \<and>
     (\<forall>c\<in>set (n_up (w_nodes (ns_w s) ! i)) \<union> set (n_down (w_nodes (ns_w s) ! i)). broken (w_chans (ns_w s) ! c) \<or> c \<in> set cs))"

definition node_inv :: "nat \<Rightarrow> ('e, 'x) node_sys \<Rightarrow> bool" where
  "node_inv i s \<longleftrightarrow> node_ok i (ns_w s) \<and> (\<forall>d\<in>set (side (w_nodes (ns_w s) ! i) CHN_IN). flows d s) \<and>
     (\<forall>d. handled d s) \<and> placed i s \<and> stopping i s"

lemma placed_move:
  assumes "placed i s" and "worker_at k pc s" and "evolves i (ns_w s) (ns_w t)" and "ns_workers t = (ns_workers s)[k := pc']"
    and "pc_channel pc' = pc_channel pc"
  shows "placed i t"
proof -
  have "pc \<in> set (ns_workers s)" using assms(2) by (auto simp: worker_at_def)
  with assms(1,5) have "\<forall>c. pc_channel pc' = Some c \<longrightarrow> c \<in> set (side (w_nodes (ns_w s) ! i) CHN_IN)"
    by (auto simp: placed_def)
  with assms(1) show ?thesis
    using set_update_subset_insert [of "ns_workers s" k pc'] unfolding placed_def evolves_side [OF assms(3)] assms(4) by blast
qed

lemma placed_same: "placed i s \<Longrightarrow> evolves i (ns_w s) (ns_w t) \<Longrightarrow> ns_workers t = ns_workers s \<Longrightarrow> placed i t"
  by (simp add: placed_def evolves_side)

lemma stopping_same:
  assumes "stopping i s" and "node_ok i (ns_w s)" and "evolves i (ns_w s) (ns_w t)" and "ns_stops t = ns_stops s"
  shows "stopping i t"
proof -
  have "n_up (w_nodes (ns_w t) ! i) = n_up (w_nodes (ns_w s) ! i)" "n_down (w_nodes (ns_w t) ! i) = n_down (w_nodes (ns_w s) ! i)"
    using assms(3) by (simp_all add: evolves_def same_shape_def)
  with assms show ?thesis unfolding stopping_def evolves_def node_ok_def by metis
qed

context quiet_handler
begin

lemma step_flows:
  assumes "node_ok i (ns_w s)" and "node_step H i l s t" and "d \<in> set (side (w_nodes (ns_w s) ! i) CHN_IN)" and "flows d s"
  shows "flows d t"
  using assms(2)
proof (cases rule: node_step.cases)
  case (affinity k os cpu w)
  with assms(1) ThreadAffinity_shape [OF affinity(4)] show ?thesis
    by (intro flows_same [OF assms(4)]) (auto simp: node_ok_def)
next
  case (read k c ch msg ch')
  have "chan_wf ch" using read(4) node_ok_wf [OF assms(1), of c] by (auto simp: deref_def split: if_splits)
  from read ReadMessage_outcome [OF this read(5)] assms(4) show ?thesis
    by (cases "c = d") (auto simp: flows_def deref_def split: if_splits)
next
  case (forward k c m w)
  with assms Dispatch_quiet [OF assms(1), of m w] show ?thesis
    by (intro flows_same [OF assms(4)]) (auto simp: quiet_def)
next
  case (handle k c m n w)
  with assms quiet [OF assms(1), of m w] show ?thesis by (intro flows_same [OF assms(4)]) (auto simp: quiet_def)
next
  case (write_msg c ch msg ch')
  have "chan_wf ch" using write_msg(4) node_ok_wf [OF assms(1), of c] by (auto simp: deref_def split: if_splits)
  from write_msg WriteMessage_outcome [OF this write_msg(5)] assms(4) show ?thesis
    by (cases "c = d") (auto simp: flows_def deref_def split: if_splits)
next
  case (stop_break j c cs w)
  with assms(1,4) show ?thesis
    by (cases "c = d") (auto simp: flows_def node_ok_def deref_def chans_wf_def BreakAllWait_wf split: if_splits)
next
  case (elsewhere w)
  with assms(3) show ?thesis by (intro flows_same [OF assms(4)]) (auto simp: quiet_def)
qed (use assms(4) in \<open>auto simp: flows_def\<close>)

end

context quiet_handler
begin

lemma step_placed:
  assumes "placed i s" and "node_ok i (ns_w s)" and step: "node_step H i l s t"
  shows "placed i t"
proof -
  note ev = step_evolves [OF assms(2) step]
  note move = placed_move [OF assms(1) _ ev]
  show ?thesis
    using step
  proof (cases rule: node_step.cases)
    case (affinity k os cpu w)
    then show ?thesis by (intro move [of k WNew WStart]) simp_all
  next
    case (start k n idx n' c)
    have "c \<in> set (side n' CHN_IN)" using start(6) by (auto simp: any_table.get_view dest: vec_at_member)
    then have "c \<in> set (side (w_nodes (ns_w t) ! i) CHN_IN)"
      using start(2) assms(2) by (simp add: node_ok_def)
    moreover have "set (ns_workers t) \<subseteq> insert (WTest c) (set (ns_workers s))"
      using start(2) by (simp add: set_update_subset_insert)
    ultimately show ?thesis
      using assms(1) unfolding placed_def evolves_side [OF ev] by (metis insert_iff option.inject pc_channel.simps(3) subsetD)
  next
    case (test k c n)
    then show ?thesis by (intro move [of k "WTest c" "if n_is_stop n then WDone c else WRead c"]) simp_all
  next
    case (read k c ch msg ch')
    then show ?thesis by (intro move [of k "WRead c" "case msg of None \<Rightarrow> WTest c | Some m \<Rightarrow> WHandle c m"])
        (simp_all split: option.split)
  next
    case (stop_signal k c m n n')
    then show ?thesis by (intro move [of k "WHandle c m" "WForward c m"]) simp_all
  next
    case (forward k c m w)
    then show ?thesis by (intro move [of k "WForward c m" "WTest c"]) simp_all
  next
    case (handle k c m n w)
    then show ?thesis by (intro move [of k "WHandle c m" "WTest c"]) simp_all
  qed (use placed_same [OF assms(1) ev] in simp_all)
qed

lemma step_stopping:
  assumes "stopping i s" and "node_ok i (ns_w s)" and step: "node_step H i l s t"
  shows "stopping i t"
proof -
  note same = stopping_same [OF assms(1,2) step_evolves [OF assms(2) step]]
  show ?thesis
    using step
  proof (cases rule: node_step.cases)
    case (stop_flag n j)
    with assms(1,2) show ?thesis by (auto simp: stopping_def node_ok_def deref_def)
  next
    case (stop_break j c cs w)
    have c: "c < length (w_chans (ns_w s))" "w = set_chan c (broken_chan (w_chans (ns_w s) ! c)) (ns_w s)"
      using stop_break(5) assms(2) by (auto simp: node_ok_def deref_def chans_wf_def BreakAllWait_wf split: if_splits)
    have "set (ns_stops t) \<subseteq> insert cs (set (ns_stops s))" "c # cs \<in> set (ns_stops s)"
      using stop_break(2-4) by (auto simp: set_update_subset_insert intro: nth_mem [of j "ns_stops s", simplified stop_break(4)])
    with c assms(1) stop_break(2) show ?thesis
      by (fastforce simp: stopping_def nth_list_update)
  qed (use same in simp_all)
qed

lemma step_inv: "node_inv i s \<Longrightarrow> node_step H i l s t \<Longrightarrow> node_inv i t"
  using step_evolves [of s l t] unfolding node_inv_def
  by (auto intro: step_ok step_placed step_stopping step_handled step_flows simp: evolves_side)

lemma run_inv: "node_inv i s \<Longrightarrow> node_run H i ls s t \<Longrightarrow> node_inv i t"
  by (induction ls arbitrary: s) (auto dest: step_inv)

end

lemma node_start_inv: "node_ok i w \<Longrightarrow> node_inv i (node_start num w)"
proof -
  have "hands d (replicate num WNew) = []" for d by (induction num) simp_all
  moreover assume "node_ok i w"
  ultimately show ?thesis
    by (auto simp: node_inv_def node_start_def flows_def handled_def placed_def stopping_def)
qed

subsection \<open>After a stop\<close>

text \<open>Once the flag is set, a worker makes at most so many steps.\<close>

fun steps_left :: "'e node_pc \<Rightarrow> nat" where
  "steps_left WNew = 3"
| "steps_left WStart = 2"
| "steps_left (WTest c) = 1"
| "steps_left (WRead c) = 4"
| "steps_left (WHandle c m) = 3"
| "steps_left (WForward c m) = 2"
| "steps_left (WDone c) = 0"

lemma steps_left_le: "steps_left pc \<le> 4"
  by (cases pc) simp_all

lemma step_workers:
  "node_step H i l s t \<Longrightarrow> length (ns_workers t) = length (ns_workers s) \<and>
   (l \<noteq> Worker k \<longrightarrow> k < length (ns_workers s) \<longrightarrow> ns_workers t ! k = ns_workers s ! k)"
  by (erule node_step.cases) (auto simp: worker_at_def)

lemma run_workers: "node_run H i ls s t \<Longrightarrow> length (ns_workers t) = length (ns_workers s)"
  by (induction ls arbitrary: s) (auto dest: step_workers)

lemma step_decreases:
  assumes "node_step H i (Worker k) s t" and "node_ok i (ns_w s)" and "n_is_stop (w_nodes (ns_w s) ! i)"
  shows "Suc (steps_left (ns_workers t ! k)) \<le> steps_left (ns_workers s ! k)"
  using assms(1)
  by (cases rule: node_step.cases) (use assms(2,3) in \<open>auto simp: worker_at_def node_ok_def deref_def split: if_splits option.split\<close>)

context quiet_handler
begin

lemma run_bounded:
  assumes "node_ok i (ns_w s)" and "n_is_stop (w_nodes (ns_w s) ! i)" and "node_run H i ls s t" and "k < length (ns_workers s)"
  shows "count_list ls (Worker k) + steps_left (ns_workers t ! k) \<le> steps_left (ns_workers s ! k)"
  using assms
proof (induction ls arbitrary: s)
  case Nil
  then show ?case by simp
next
  case (Cons l ls)
  then obtain u where u: "node_step H i l s u" "node_run H i ls u t" by auto
  have ok: "node_ok i (ns_w u)" "n_is_stop (w_nodes (ns_w u) ! i)"
    using step_ok [OF Cons.prems(1) u(1)] step_evolves [OF Cons.prems(1) u(1)] Cons.prems(2) by (simp_all add: evolves_def)
  note ws = step_workers [OF u(1), of k]
  have "count_list ls (Worker k) + steps_left (ns_workers t ! k) \<le> steps_left (ns_workers u ! k)"
    using Cons.IH [OF ok u(2)] ws Cons.prems(4) by simp
  then show ?case
    using ws Cons.prems(4) step_decreases [of H i k s u] u(1) Cons.prems(1,2) by (cases "l = Worker k") auto
qed

end

text \<open>A worker of a node whose channels are broken waits for nothing but its handler.\<close>

lemma broken_Dispatch:
  assumes "node_ok i w" and "length (side (w_nodes w ! i) CHN_OUT) < 2 ^ 31"
    and "\<forall>c\<in>set (side (w_nodes w ! i) CHN_OUT). broken (w_chans w ! c)"
  shows "Dispatch i (Some m) w = done_act w"
proof (cases "side (w_nodes w ! i) CHN_OUT = []")
  case True
  with assms(1) show ?thesis by (intro Dispatch_no_output) (simp_all add: node_ok_def)
next
  case False
  let ?outs = "side (w_nodes w ! i) CHN_OUT"
  let ?c = "?outs ! (unat (m_id m) mod length ?outs)"
  have c: "?c \<in> set ?outs" using False by simp
  have "?c < length (w_chans w)" by (rule node_ok_range [OF assms(1) c])
  then show ?thesis
    using Dispatch_index [of i w ?outs ?c m] assms c False node_ok_wf [OF assms(1)]
    by (simp add: WriteMessage_broken node_ok_def)
qed

lemma broken_worker_steps:
  assumes ok: "node_ok i (ns_w s)" and outs: "length (side (w_nodes (ns_w s) ! i) CHN_OUT) < 2 ^ 31"
    and broken: "\<forall>c\<in>set (n_up (w_nodes (ns_w s) ! i)) \<union> set (n_down (w_nodes (ns_w s) ! i)). broken (w_chans (ns_w s) ! c)"
    and "placed i s" and at: "worker_at k pc s" and c: "pc_channel pc = Some c" and "pc \<noteq> WDone c"
    and handler: "\<forall>m. pc = WHandle c m \<longrightarrow> (\<exists>w. H i m (ns_w s) = done_act w)"
  shows "\<exists>t. node_step H i (Worker k) s t"
proof -
  let ?w = "ns_w s" and ?n = "w_nodes (ns_w s) ! i"
  have n: "deref (w_nodes ?w) i = Inr ?n" using ok by (simp add: node_ok_def deref_def)
  have "c \<in> set (side ?n CHN_IN)" using assms(4) at c by (auto simp: placed_def worker_at_def)
  then have ch: "c < length (w_chans ?w)" "broken (w_chans ?w ! c)"
    using broken node_ok_range [OF ok] side_members [of ?n] by auto
  show ?thesis
  proof (cases pc)
    case (WTest d)
    with at n show ?thesis by (blast intro: node_step.test)
  next
    case (WRead d)
    have "ReadMessage [] None (w_chans ?w ! c) = done_act (None, w_chans ?w ! c)"
      using ch node_ok_wf [OF ok] by (simp add: ReadMessage_broken)
    with WRead at c ch show ?thesis
      using node_step.read [of k c s "w_chans ?w ! c"] by (auto simp: deref_def)
  next
    case (WHandle d m)
    with at c n handler show ?thesis
      using node_step.stop_signal [of k c m s i ?n] node_step.handle [of k c m s i ?n H]
      by (cases "StopSignal ?n m") fastforce
  next
    case (WForward d m)
    have "Dispatch i (Some m) ?w = done_act ?w"
      using broken_Dispatch [OF ok outs] broken side_members [of ?n] by auto
    with WForward at show ?thesis by (blast intro: node_step.forward)
  qed (use c assms(7) in auto)
qed

subsection \<open>The sequential worker is a run\<close>

text \<open>\<open>solo H i k s pc w\<close>: from \<open>s\<close>, worker \<open>k\<close> alone can get to \<open>pc\<close> with the world \<open>w\<close>.\<close>

definition solo :: "('e, 'x) msg_handler \<Rightarrow> nat \<Rightarrow> nat \<Rightarrow> ('e, 'x) node_sys \<Rightarrow> 'e node_pc \<Rightarrow> ('e, 'x) world \<Rightarrow> bool" where
  "solo H i k s pc w \<longleftrightarrow> (\<exists>n t. node_run H i (replicate n (Worker k)) s t \<and> worker_at k pc t \<and> ns_w t = w)"

lemma solo_here: "worker_at k pc s \<Longrightarrow> ns_w s = w \<Longrightarrow> solo H i k s pc w"
  unfolding solo_def by (intro exI [of _ 0]) auto

lemma solo_step: "node_step H i (Worker k) s u \<Longrightarrow> solo H i k u pc w \<Longrightarrow> solo H i k s pc w"
  unfolding solo_def by (metis node_run.simps(2) replicate_Suc)

lemma solo_trans:
  assumes "solo H i k s pc w" and "\<And>u. worker_at k pc u \<Longrightarrow> ns_w u = w \<Longrightarrow> solo H i k u pc' w'"
  shows "solo H i k s pc' w'"
proof -
  obtain n u where u: "node_run H i (replicate n (Worker k)) s u" "worker_at k pc u" "ns_w u = w"
    using assms(1) by (auto simp: solo_def)
  obtain m t where "node_run H i (replicate m (Worker k)) u t" "worker_at k pc' t" "ns_w t = w'"
    using assms(2) [OF u(2,3)] by (auto simp: solo_def)
  with u(1) show ?thesis
    unfolding solo_def by (intro exI [of _ "n + m"] exI [of _ t]) (auto simp: replicate_add node_run_append)
qed

lemma worker_at_goto [simp]: "worker_at k pc' (worker_goto k pc w s) \<longleftrightarrow> k < length (ns_workers s) \<and> pc' = pc"
  by (auto simp: worker_at_def)

lemma worker_at_logs [simp]:
  "worker_at k pc (s\<lparr>ns_taken := f\<rparr>) = worker_at k pc s" "worker_at k pc (s\<lparr>ns_finished := g\<rparr>) = worker_at k pc s"
  by (simp_all add: worker_at_def)

lemma worker_at_length: "worker_at k pc s \<Longrightarrow> k < length (ns_workers s)"
  by (simp add: worker_at_def)

lemma forward_solo:
  "worker_at k (WForward c m) s \<Longrightarrow> Dispatch i (Some m) (ns_w s) = done_act w \<Longrightarrow> solo H i k s (WTest c) w"
  by (rule solo_step [OF node_step.forward], assumption+, rule solo_here) (simp_all add: worker_at_length)

lemma handle_solo:
  "worker_at k (WHandle c m) s \<Longrightarrow> deref (w_nodes (ns_w s)) i = Inr n \<Longrightarrow> n_type n = NODE_FULL_DUPLEX \<or> \<not> fst (StopSignal n m) \<Longrightarrow>
   H i m (ns_w s) = done_act w \<Longrightarrow> solo H i k s (WTest c) w"
  by (rule solo_step [OF node_step.handle], assumption+, rule solo_here) (simp_all add: worker_at_length)

lemma HandlerRelaying_solo:
  assumes "worker_at k (WRead c) s" and "HandlerRelaying H i c (ns_w s) = done_act w'" and "i < length (w_nodes (ns_w s))"
    and "n_type (w_nodes (ns_w s) ! i) \<noteq> NODE_FULL_DUPLEX"
  shows "solo H i k s (WTest c) w'"
proof -
  let ?w = "ns_w s" and ?n = "w_nodes (ns_w s) ! i"
  obtain ch msg ch' where ch: "deref (w_chans ?w) c = Inr ch" "ReadMessage [] None ch = done_act (msg, ch')"
    using assms(2) by (auto simp: HandlerRelaying_def bindA_def split: option.splits sum.splits)
  let ?w1 = "set_chan c ch' ?w"
  let ?u = "(worker_goto k (case msg of None \<Rightarrow> WTest c | Some m \<Rightarrow> WHandle c m) ?w1 s)
      \<lparr>ns_taken := log_at c (if broken ch then [] else [msg]) (ns_taken s)\<rparr>"
  have step: "node_step H i (Worker k) s ?u" by (rule node_step.read [OF assms(1) ch])
  note k = worker_at_length [OF assms(1)]
  show ?thesis
  proof (cases msg)
    case None
    with assms(2) ch have "w' = ?w1" by (simp add: HandlerRelaying_def)
    with None k show ?thesis by (intro solo_step [OF step] solo_here) simp_all
  next
    case (Some m)
    then have at: "worker_at k (WHandle c m) ?u" and n: "deref (w_nodes (ns_w ?u)) i = Inr ?n"
      using k assms(3) by (simp_all add: deref_def)
    show ?thesis
    proof (cases "StopSignal ?n m")
      case (Pair stop n')
      show ?thesis
      proof (cases stop)
        case True
        let ?v = "worker_goto k (WForward c m) (set_node i n' (ns_w ?u)) ?u"
        have last: "node_step H i (Worker k) ?u ?v"
          using node_step.stop_signal [OF at n assms(4)] Pair True by simp
        have "Dispatch i (Some m) (ns_w ?v) = done_act w'"
          using assms(2,3) ch Some Pair True by (simp add: HandlerRelaying_def)
        moreover have "worker_at k (WForward c m) ?v" using k by simp
        ultimately show ?thesis by (intro solo_step [OF step] solo_step [OF last] forward_solo)
      next
        case False
        then have "n' = ?n" using Pair by (auto simp: StopSignal_def split: if_splits)
        then have "H i m (ns_w ?u) = done_act w'"
          using assms(2,3) ch Some Pair False by (simp add: HandlerRelaying_def)
        then show ?thesis using Pair False by (intro solo_step [OF step] handle_solo [OF at n]) simp_all
      qed
    qed
  qed
qed

lemma HandleWritting_solo:
  assumes "worker_at k (WRead c) s" and "HandleWritting F i c (ns_w s) = done_act w'" and "i < length (w_nodes (ns_w s))"
    and "n_type (w_nodes (ns_w s) ! i) = NODE_FULL_DUPLEX"
  shows "solo (NodeDuplex_HandleMsg F) i k s (WTest c) w'"
proof -
  let ?w = "ns_w s" and ?n = "w_nodes (ns_w s) ! i"
  obtain ch msg ch' where ch: "deref (w_chans ?w) c = Inr ch" "ReadMessage [] None ch = done_act (msg, ch')"
    using assms(2) by (auto simp: HandleWritting_def bindA_def split: option.splits sum.splits)
  note step = node_step.read [OF assms(1) ch, of "NodeDuplex_HandleMsg F" i]
  note k = worker_at_length [OF assms(1)]
  show ?thesis
  proof (cases msg)
    case None
    with assms(2) ch k show ?thesis by (intro solo_step [OF step] solo_here) (simp_all add: HandleWritting_def)
  next
    case (Some m)
    with assms ch k show ?thesis
      by (intro solo_step [OF step] handle_solo [of k c m _ i ?n])
        (simp_all add: HandleWritting_def deref_def)
  qed
qed

text \<open>The handler that \<open>DoWork\<close> binds.\<close>

abbreviation bound_handler ::
    "('e, 'x) msg_handler \<Rightarrow> ('e, 'x) fd_write \<Rightarrow> nat \<Rightarrow> nat \<Rightarrow> NodeType \<Rightarrow> ('e, 'x) world \<Rightarrow> ('e, 'x) world act" where
  "bound_handler H F i c type \<equiv> (if type = NODE_FULL_DUPLEX then HandleWritting F i c else HandlerRelaying H i c)"

context quiet_handler
begin

lemma solo_evolves: "node_ok i (ns_w s) \<Longrightarrow> solo H i k s pc w \<Longrightarrow> evolves i (ns_w s) w"
  using run_evolves by (auto simp: solo_def)

lemma work_loop_solo:
  assumes "n_type (w_nodes (ns_w s) ! i) = type" and "type = NODE_FULL_DUPLEX \<longrightarrow> H = NodeDuplex_HandleMsg F"
    and "worker_at k (WTest c) s" and "node_ok i (ns_w s)" and "work_loop fuel (bound_handler H F i c type) i (ns_w s) = done_act w'"
  shows "solo H i k s (WDone c) w'"
  using assms
proof (induction fuel arbitrary: s)
  case 0
  then show ?case by (simp add: work_loop.simps)
next
  case (Suc fuel)
  let ?n = "w_nodes (ns_w s) ! i"
  let ?u = "worker_goto k (if n_is_stop ?n then WDone c else WRead c) (ns_w s) s"
  have i: "i < length (w_nodes (ns_w s))" using Suc.prems(4) by (simp add: node_ok_def)
  have step: "node_step H i (Worker k) s ?u"
    using i by (intro node_step.test [OF Suc.prems(3)]) (simp add: deref_def)
  note k = worker_at_length [OF Suc.prems(3)]
  show ?case
  proof (cases "n_is_stop ?n")
    case True
    then have "w' = ns_w s" using Suc.prems(5) i by (simp add: work_loop_stopped)
    with True k show ?thesis by (intro solo_step [OF step] solo_here) simp_all
  next
    case False
    then obtain w1 where w1: "bound_handler H F i c type (ns_w s) = done_act w1"
        "work_loop fuel (bound_handler H F i c type) i w1 = done_act w'"
      using Suc.prems(5) i by (auto simp: work_loop_step bindA_def split: option.splits sum.splits)
    have at: "worker_at k (WRead c) ?u" using False k by simp
    have one: "solo H i k ?u (WTest c) w1"
      using HandlerRelaying_solo [OF at, of H i w1] HandleWritting_solo [OF at, of F i w1] w1(1) i Suc.prems(1,2)
      by (auto split: if_splits)
    have "evolves i (ns_w s) w1" using solo_evolves [OF _ one] Suc.prems(4) by simp
    then have ok: "node_ok i w1" "n_type (w_nodes w1 ! i) = type"
      using Suc.prems(1,4) evolves_ok by (auto simp: evolves_def same_shape_def)
    show ?thesis
    proof (intro solo_step [OF step] solo_trans [OF one])
      fix u assume "worker_at k (WTest c) u" "ns_w u = w1"
      with ok w1(2) Suc.prems(2) show "solo H i k u (WDone c) w'" by (intro Suc.IH) simp_all
    qed
  qed
qed

lemma DoWork_solo:
  assumes "n_type (w_nodes (ns_w s) ! i) = NODE_FULL_DUPLEX \<longrightarrow> H = NodeDuplex_HandleMsg F"
    and "worker_at k WNew s" and "node_ok i (ns_w s)" and "DoWork fuel os H F i (ns_w s) = done_act w'"
  shows "\<exists>c. solo H i k s (WDone c) w'"
proof -
  let ?type = "n_type (w_nodes (ns_w s) ! i)"
  obtain cpu w1 where w1: "ThreadAffinity os i (ns_w s) = Inr (cpu, w1)"
    using assms(4) by (auto simp: DoWork_def bindA_def split: option.splits sum.splits)
  let ?u = "worker_goto k WStart w1 s"
  have affinity: "node_step H i (Worker k) s ?u" by (rule node_step.affinity [OF assms(2) w1])
  have ok: "node_ok i w1" "n_type (w_nodes w1 ! i) = ?type"
    using step_ok [OF assms(3) affinity] step_evolves [OF assms(3) affinity] by (simp_all add: evolves_def same_shape_def)
  then have i: "i < length (w_nodes w1)" by (simp add: node_ok_def)
  obtain idx n' c where n': "IncThreads (w_nodes w1 ! i) = Inr (idx, n')" "GetChannel n' idx CHN_IN = Inr c"
      "work_loop fuel (bound_handler H F i c (n_type n')) i (set_node i n' w1) = done_act w'"
    using assms(4) w1 i by (auto simp: DoWork_def bindA_def Let_def split: option.splits sum.splits if_splits)
  let ?v = "worker_goto k (WTest c) (set_node i n' (ns_w ?u)) ?u"
  have at: "worker_at k WStart ?u" using worker_at_length [OF assms(2)] by simp
  have start: "node_step H i (Worker k) ?u ?v"
    using i n' by (intro node_step.start [OF at]) (simp_all add: deref_def)
  have type: "n_type n' = ?type" using IncThreads_shape [OF n'(1)] ok(2) by (simp add: same_shape_def)
  have "node_ok i (ns_w ?u)" using ok by simp
  from step_ok [OF this start] have "solo H i k ?v (WDone c) w'"
    using type i n'(3) assms(1) worker_at_length [OF at]
    by (intro work_loop_solo [of ?v ?type F k c fuel]) simp_all
  with affinity start show ?thesis by (blast intro: solo_step)
qed

end

subsection \<open>\<open>Stop\<close> by itself is a run\<close>

lemma break_channels_run:
  assumes "break_channels cs (ns_w s) = Inr w" and "j < length (ns_stops s)" and "ns_stops s ! j = cs"
  shows "node_run H i (replicate (length cs) (Stopper j)) s (s\<lparr>ns_w := w, ns_stops := (ns_stops s)[j := []]\<rparr>)"
  using assms
proof (induction cs arbitrary: s)
  case Nil
  then have "(ns_stops s)[j := []] = ns_stops s" by (metis list_update_id)
  with Nil show ?case by simp
next
  case (Cons c cs)
  obtain w1 where w1: "break_channels [c] (ns_w s) = Inr w1" "break_channels cs w1 = Inr w"
    using Cons.prems(1) by (auto simp: bindE_def split: sum.splits)
  let ?u = "s\<lparr>ns_w := w1, ns_stops := (ns_stops s)[j := cs]\<rparr>"
  have "node_step H i (Stopper j) s ?u" by (rule node_step.stop_break [OF Cons.prems(2,3) w1(1)])
  moreover have "node_run H i (replicate (length cs) (Stopper j)) ?u (?u\<lparr>ns_w := w, ns_stops := (ns_stops ?u)[j := []]\<rparr>)"
    using Cons.prems(2) w1(2) by (intro Cons.IH) simp_all
  ultimately show ?case by auto
qed

lemma break_channels_append: "break_channels (cs @ ds) w = bindE (break_channels cs w) (break_channels ds)"
  by (induction cs arbitrary: w) (simp_all add: bindE_def split: sum.splits)

lemma Node_Stop_run:
  assumes "Node_Stop i (ns_w s) = Inr w"
  shows "\<exists>ls. node_run H i ls s (s\<lparr>ns_w := w, ns_stops := ns_stops s @ [[]]\<rparr>)"
proof -
  obtain n where n: "deref (w_nodes (ns_w s)) i = Inr n"
    using assms by (auto simp: Node_Stop_def bindE_def split: sum.splits)
  let ?u = "s\<lparr>ns_w := set_node i (n\<lparr>n_is_stop := True\<rparr>) (ns_w s), ns_stops := ns_stops s @ [n_up n @ n_down n]\<rparr>"
  have "node_step H i (Stopper (length (ns_stops s))) s ?u" by (rule node_step.stop_flag [OF n refl])
  moreover have "break_channels (n_up n @ n_down n) (ns_w ?u) = Inr w"
    using assms n by (simp add: Node_Stop_def break_channels_append bindE_def)
  then have "node_run H i (replicate (length (n_up n @ n_down n)) (Stopper (length (ns_stops s)))) ?u
      (s\<lparr>ns_w := w, ns_stops := ns_stops s @ [[]]\<rparr>)"
    using break_channels_run [of "n_up n @ n_down n" ?u w "length (ns_stops s)" H i] by simp
  ultimately show ?thesis by (metis node_run.simps(2))
qed

text \<open>A worker that waits for a message is not woken by the flag.\<close>

lemma waiting_stuck:
  assumes "worker_at k (WRead c) s" and "c < length (w_chans (ns_w s))" and "chan_wf (w_chans (ns_w s) ! c)"
    and "\<not> broken (w_chans (ns_w s) ! c)" and "pending (w_chans (ns_w s) ! c) = []"
  shows "\<not> node_step H i (Worker k) s t"
  using assms by (auto simp: worker_at_def deref_def ReadMessage_empty elim!: node_stepE)

section \<open>Properties\<close>

text \<open>(C3) Every message is handled exactly once, under every interleaving. In every state that a node's workers can get to, for
  each input channel: what the channel accepted is what has been taken from it, in order, followed by what is pending; the
  messages taken are, as a multiset, those whose handling has ended and those that workers have in hand, null pointers apart; and
  if at most one worker reads the channel the messages have been handled in the order in which they were accepted.\<close>

theorem messages_handled_once:
  assumes "quiet_handler H i" and "node_ok i w" and "node_run H i ls (node_start num w) s"
    and "d \<in> set (side (w_nodes w ! i) CHN_IN)"
  shows "ns_accepted s d = ns_taken s d @ pending (w_chans (ns_w s) ! d) \<and>
      mset (ns_finished s d) + mset (hands d (ns_workers s)) = mset (non_null (ns_taken s d)) \<and>
      (readers d (ns_workers s) \<le> 1 \<longrightarrow> ns_finished s d @ hands d (ns_workers s) = non_null (ns_taken s d))"
proof -
  have "node_inv i s" by (rule quiet_handler.run_inv [OF assms(1) node_start_inv [OF assms(2)] assms(3)])
  moreover have "evolves i w (ns_w s)"
    using quiet_handler.run_evolves [OF assms(1) _ assms(3)] assms(2) by (simp add: node_start_def)
  ultimately show ?thesis
    using assms(4) by (simp add: node_inv_def handled_def flows_def evolves_side)
qed

text \<open>(C4) \<open>Stop\<close> ends every worker. In every state after some call of \<open>Stop\<close> has returned: a worker that has its channel and has not
  returned can make a step, except while \<open>HandleMsg\<close> does not return; and each worker makes at most four more steps of
  its own, whatever else happens. Before it returned the flag was set already, so that this bound holds from then on.\<close>

theorem stop_ends_workers:
  assumes "quiet_handler H i" and "node_ok i w" and "length (side (w_nodes w ! i) CHN_OUT) < 2 ^ 31"
    and "node_run H i ls (node_start num w) s" and "ns_stops s \<noteq> []"
  shows "(\<forall>k ms t. k < num \<longrightarrow> node_run H i ms s t \<longrightarrow> count_list ms (Worker k) \<le> 4) \<and>
      ([] \<in> set (ns_stops s) \<longrightarrow> (\<forall>k pc c. worker_at k pc s \<longrightarrow> pc_channel pc = Some c \<longrightarrow> pc \<noteq> WDone c \<longrightarrow>
         (\<forall>m. pc = WHandle c m \<longrightarrow> (\<exists>w'. H i m (ns_w s) = done_act w')) \<longrightarrow> (\<exists>t. node_step H i (Worker k) s t)))"
proof -
  have inv: "node_inv i s" by (rule quiet_handler.run_inv [OF assms(1) node_start_inv [OF assms(2)] assms(4)])
  have side: "side (w_nodes (ns_w s) ! i) CHN_OUT = side (w_nodes w ! i) CHN_OUT"
    using quiet_handler.run_evolves [OF assms(1) _ assms(4)] assms(2) by (simp add: node_start_def evolves_side)
  have "n_is_stop (w_nodes (ns_w s) ! i)"
    using inv assms(5) by (cases "ns_stops s") (auto simp: node_inv_def stopping_def)
  moreover have "length (ns_workers s) = num" using run_workers [OF assms(4)] by (simp add: node_start_def)
  ultimately have "count_list ms (Worker k) \<le> 4" if "k < num" "node_run H i ms s t" for k ms t
    using quiet_handler.run_bounded [OF assms(1) _ _ that(2), of k] that(1) inv steps_left_le [of "ns_workers s ! k"]
    by (simp add: node_inv_def)
  moreover have "\<exists>t. node_step H i (Worker k) s t"
    if "[] \<in> set (ns_stops s)" "worker_at k pc s" "pc_channel pc = Some c" "pc \<noteq> WDone c"
      "\<forall>m. pc = WHandle c m \<longrightarrow> (\<exists>w'. H i m (ns_w s) = done_act w')" for k pc c
    using inv that assms(3) side by (intro broken_worker_steps) (auto simp: node_inv_def stopping_def)
  ultimately show ?thesis by blast
qed

text \<open>(C18) The worker that runs by itself is one of the runs: whenever \<open>DoWork\<close> returns, the steps of a worker that no other thread
  interrupts lead from its start to its end with the same world, for relay and for duplex nodes.\<close>

theorem DoWork_is_run:
  assumes "quiet_handler H i" and "n_type (w_nodes (ns_w s) ! i) = NODE_FULL_DUPLEX \<longrightarrow> H = NodeDuplex_HandleMsg F"
    and "worker_at k WNew s" and "node_ok i (ns_w s)" and "DoWork fuel os H F i (ns_w s) = done_act w'"
  shows "\<exists>n t c. node_run H i (replicate n (Worker k)) s t \<and> worker_at k (WDone c) t \<and> ns_w t = w'"
  using quiet_handler.DoWork_solo [OF assms] by (auto simp: solo_def)

section \<open>Witnesses\<close>

text \<open>The steps of the workers as a function, to run schedules of them.\<close>

definition worker_next :: "os_thread \<Rightarrow> ('e, 'x) msg_handler \<Rightarrow> nat \<Rightarrow> nat \<Rightarrow> ('e, 'x) node_sys \<Rightarrow> ('e, 'x) node_sys option" where
  "worker_next os H i k s =
     (if \<not> (k < length (ns_workers s) \<and> i < length (w_nodes (ns_w s))) then None
      else let w = ns_w s; n = w_nodes w ! i in
        case ns_workers s ! k of
          WNew \<Rightarrow> (case ThreadAffinity os i w of Inl _ \<Rightarrow> None | Inr (cpu, w') \<Rightarrow> Some (worker_goto k WStart w' s))
        | WStart \<Rightarrow> (case IncThreads n of Inl _ \<Rightarrow> None | Inr (idx, n') \<Rightarrow>
            (case GetChannel n' idx CHN_IN of Inl _ \<Rightarrow> None | Inr c \<Rightarrow> Some (worker_goto k (WTest c) (set_node i n' w) s)))
        | WTest c \<Rightarrow> Some (worker_goto k (if n_is_stop n then WDone c else WRead c) w s)
        | WRead c \<Rightarrow> (case deref (w_chans w) c of Inl _ \<Rightarrow> None | Inr ch \<Rightarrow>
            (case ReadMessage [] None ch of Some (Inr (msg, ch')) \<Rightarrow>
               Some ((worker_goto k (case msg of None \<Rightarrow> WTest c | Some m \<Rightarrow> WHandle c m) (set_chan c ch' w) s)
                 \<lparr>ns_taken := log_at c (if broken ch then [] else [msg]) (ns_taken s)\<rparr>)
             | _ \<Rightarrow> None))
        | WHandle c m \<Rightarrow> (if n_type n \<noteq> NODE_FULL_DUPLEX \<and> fst (StopSignal n m)
            then Some (worker_goto k (WForward c m) (set_node i (snd (StopSignal n m)) w) s)
            else (case H i m w of Some (Inr w') \<Rightarrow>
              Some ((worker_goto k (WTest c) w' s)\<lparr>ns_finished := log_at c [m] (ns_finished s)\<rparr>) | _ \<Rightarrow> None))
        | WForward c m \<Rightarrow> (case Dispatch i (Some m) w of Some (Inr w') \<Rightarrow>
              Some ((worker_goto k (WTest c) w' s)\<lparr>ns_finished := log_at c [m] (ns_finished s)\<rparr>) | _ \<Rightarrow> None)
        | WDone c \<Rightarrow> None)"

lemma worker_next_step:
  assumes "worker_next os H i k s = Some t"
  shows "node_step H i (Worker k) s t"
proof -
  have k: "worker_at k (ns_workers s ! k) s" and n: "deref (w_nodes (ns_w s)) i = Inr (w_nodes (ns_w s) ! i)"
    using assms by (auto simp: worker_next_def worker_at_def deref_def split: if_splits)
  show ?thesis
  proof (cases "ns_workers s ! k")
    case WNew
    with k assms show ?thesis
      by (auto simp: worker_next_def Let_def intro: node_step.affinity split: if_splits sum.splits)
  next
    case WStart
    with k n assms show ?thesis
      by (auto simp: worker_next_def Let_def intro: node_step.start [OF _ n] split: if_splits sum.splits)
  next
    case (WTest c)
    then have "t = worker_goto k (if n_is_stop (w_nodes (ns_w s) ! i) then WDone c else WRead c) (ns_w s) s"
      using assms by (simp add: worker_next_def Let_def split: if_splits)
    with WTest k n show ?thesis using node_step.test [of k c s i] by simp
  next
    case (WRead c)
    with assms obtain ch msg ch' where ch: "deref (w_chans (ns_w s)) c = Inr ch" "ReadMessage [] None ch = done_act (msg, ch')"
      by (auto simp: worker_next_def Let_def split: if_split_asm sum.split_asm option.split_asm)
    with WRead k assms show ?thesis
      using node_step.read [of k c s ch msg ch' H i] by (simp add: worker_next_def Let_def split: if_split_asm)
  next
    case (WHandle c m)
    with k n assms show ?thesis
      by (cases "StopSignal (w_nodes (ns_w s) ! i) m")
        (auto simp: worker_next_def Let_def intro: node_step.stop_signal [OF _ n] node_step.handle [OF _ n]
            split: if_splits sum.splits option.splits)
  next
    case (WForward c m)
    with k assms show ?thesis
      by (auto simp: worker_next_def Let_def intro: node_step.forward split: if_splits sum.splits option.splits)
  next
    case (WDone c)
    with assms show ?thesis by (simp add: worker_next_def Let_def split: if_splits)
  qed
qed

fun schedule :: "os_thread \<Rightarrow> ('e, 'x) msg_handler \<Rightarrow> nat \<Rightarrow> nat list \<Rightarrow> ('e, 'x) node_sys \<Rightarrow> ('e, 'x) node_sys option" where
  "schedule os H i [] s = Some s"
| "schedule os H i (k # ks) s = (case worker_next os H i k s of None \<Rightarrow> None | Some t \<Rightarrow> schedule os H i ks t)"

lemma schedule_run: "schedule os H i ks s = Some t \<Longrightarrow> node_run H i (map Worker ks) s t"
  by (induction ks arbitrary: s) (auto dest: worker_next_step split: option.splits)

text \<open>Two workers on a relay whose one input channel holds a message and a stop signal.\<close>

definition pair_world :: "(unit, unit) world" where
  "pair_world = \<lparr>w_chans = [demo_chan [Some (msg_with TYPE_DATA SIGNAL_NONE 3), Some (msg_with TYPE_SIGNAL SIGNAL_STOP 0)], demo_chan []],
     w_nodes = [(Node_new NODE_RELAY ''relay'')\<lparr>n_is_stop := False, n_up := [0], n_down := [1]\<rparr>],
     w_processor_id = (\<lambda>_. 0), w_ext = ()\<rparr>"

abbreviation pass_on :: "('e, 'x) msg_handler" where
  "pass_on \<equiv> (\<lambda>i m. Dispatch i (Some m))"

lemma pair_world_ok: "node_ok 0 pair_world"
  by (auto simp: node_ok_def pair_world_def chans_wf_def side_def Node_new_def less_Suc_eq demo_chan_wf)

text \<open>Worker 0 has handled the message, worker 1 has the stop signal in hand.\<close>

definition pair_state :: "(unit, unit) node_sys" where
  "pair_state = the (schedule demo_os pass_on 0 [0, 0, 0, 0, 1, 1, 1, 0, 1] (node_start 2 pair_world))"

lemma pair_run: "node_run pass_on 0 (map Worker [0, 0, 0, 0, 1, 1, 1, 0, 1]) (node_start 2 pair_world) pair_state"
proof -
  have "\<not> Option.is_none (schedule demo_os pass_on 0 [0, 0, 0, 0, 1, 1, 1, 0, 1] (node_start 2 pair_world))"
    by code_simp
  then show ?thesis
    unfolding pair_state_def by (intro schedule_run [of demo_os]) (auto simp: Option.is_none_def)
qed

lemma pair_state_workers: "map steps_left (ns_workers pair_state) = [1, 3]" "map pc_channel (ns_workers pair_state) = [Some 0, Some 0]"
  by code_simp+

lemma pair_state_counts:
  "length (ns_finished pair_state 0) = 1" "length (hands 0 (ns_workers pair_state)) = 1" "length (ns_taken pair_state 0) = 2"
  by code_simp+

theorem messages_handled_once_witness:
  "node_run pass_on 0 (map Worker [0, 0, 0, 0, 1, 1, 1, 0, 1]) (node_start 2 pair_world) pair_state \<and>
   length (ns_finished pair_state 0) = 1 \<and> length (hands 0 (ns_workers pair_state)) = 1 \<and>
   ns_accepted pair_state 0 = ns_taken pair_state 0 @ pending (w_chans (ns_w pair_state) ! 0) \<and>
   mset (ns_finished pair_state 0) + mset (hands 0 (ns_workers pair_state)) = mset (non_null (ns_taken pair_state 0))"
  using messages_handled_once [OF forwarding.quiet_handler_axioms pair_world_ok pair_run, of 0] pair_run pair_state_counts
  by (simp add: pair_world_def side_def Node_new_def)

theorem stop_ends_workers_witness:
  "\<exists>ls s. node_run pass_on 0 ls (node_start 2 pair_world) s \<and> [] \<in> set (ns_stops s) \<and>
     (\<exists>t. node_step pass_on 0 (Worker 0) s t) \<and> (\<forall>ms t. node_run pass_on 0 ms s t \<longrightarrow> count_list ms (Worker 0) \<le> 4)"
proof -
  have ok: "node_ok 0 (ns_w pair_state)"
    using forwarding.run_evolves [OF _ pair_run] pair_world_ok by (simp add: node_start_def)
  then obtain w where "Node_Stop 0 (ns_w pair_state) = Inr w"
    using Node_Stop_effect [of "ns_w pair_state" 0] by (auto simp: node_ok_def)
  then obtain ls where "node_run pass_on 0 ls pair_state (pair_state\<lparr>ns_w := w, ns_stops := ns_stops pair_state @ [[]]\<rparr>)"
    using Node_Stop_run by blast
  with pair_run obtain ks where run: "node_run pass_on 0 ks (node_start 2 pair_world) (pair_state\<lparr>ns_w := w, ns_stops := ns_stops pair_state @ [[]]\<rparr>)"
    using node_run_append by blast
  let ?s = "pair_state\<lparr>ns_w := w, ns_stops := ns_stops pair_state @ [[]]\<rparr>"
  have "worker_at 0 (WTest 0) ?s"
    using pair_state_workers by (cases "ns_workers pair_state"; cases "hd (ns_workers pair_state)") (auto simp: worker_at_def)
  with run stop_ends_workers [OF forwarding.quiet_handler_axioms pair_world_ok _ run] show ?thesis
    by (intro exI [of _ ks] exI [of _ ?s]) (fastforce simp: pair_world_def side_def Node_new_def)
qed

theorem DoWork_is_run_witness:
  "\<exists>n t c. node_run pass_on 0 (replicate n (Worker 0)) (node_start 1 demo_world) t \<and> worker_at 0 (WDone c) t \<and>
     DoWork 4 demo_os pass_on (\<lambda>_ _ _. None) 0 demo_world = done_act (ns_w t)"
proof -
  have "case DoWork 4 demo_os pass_on (\<lambda>_ _ _. None) 0 demo_world of Some (Inr _) \<Rightarrow> True | _ \<Rightarrow> False"
    by code_simp
  then obtain w' where w': "DoWork 4 demo_os pass_on (\<lambda>_ _ _. None) 0 demo_world = done_act w'"
    by (auto split: option.splits sum.splits)
  have "node_ok 0 demo_world"
    by (auto simp: node_ok_def demo_world_def chans_wf_def side_def Node_new_def less_Suc_eq demo_chan_wf)
  then show ?thesis
    using DoWork_is_run [OF forwarding.quiet_handler_axioms, of "node_start 1 demo_world" 0 "\<lambda>_ _ _. None" 0 4 demo_os w'] w'
    by (auto simp: node_start_def worker_at_def demo_world_def Node_new_def)
qed

text \<open>Worker 0 has handled the message and passed the stop signal on, worker 1 waits.\<close>

lemma stopped_pair:
  defines "r \<equiv> schedule demo_os pass_on 0 [0, 0, 0, 0, 1, 1, 1, 0, 0, 0, 0, 0, 0] (node_start 2 pair_world)"
  shows "r \<noteq> None" "n_is_stop (w_nodes (ns_w (the r)) ! 0)" "ns_workers (the r) = [WDone 0, WRead 0]"
    "0 < length (w_chans (ns_w (the r)))" "\<not> broken (w_chans (ns_w (the r)) ! 0)" "pending (w_chans (ns_w (the r)) ! 0) = []"
  unfolding r_def Option.is_none_def [symmetric] by code_simp+

text \<open>A stop signal that comes through the channel ends the worker that takes it and no other: two workers of one channel can
  get into a state in which the node is stopped, one worker has returned, and the other waits for a message and can make no step
  until another thread writes to the channel or breaks it.\<close>

theorem stop_signal_leaves_worker:
  "\<exists>s. node_run pass_on 0 (map Worker [0, 0, 0, 0, 1, 1, 1, 0, 0, 0, 0, 0, 0]) (node_start 2 pair_world) s \<and>
     n_is_stop (w_nodes (ns_w s) ! 0) \<and> worker_at 0 (WDone 0) s \<and> worker_at 1 (WRead 0) s \<and> (\<forall>k t. \<not> node_step pass_on 0 (Worker k) s t)"
proof -
  let ?r = "schedule demo_os pass_on 0 [0, 0, 0, 0, 1, 1, 1, 0, 0, 0, 0, 0, 0] (node_start 2 pair_world)"
  obtain s where r: "?r = Some s" using stopped_pair(1) by auto
  note s = stopped_pair(2-) [unfolded r option.sel]
  note run = schedule_run [OF r]
  have ok: "node_ok 0 (ns_w s)"
    using forwarding.run_evolves [OF _ run] pair_world_ok by (simp add: node_start_def)
  have "\<not> node_step pass_on 0 (Worker k) s t" for k t
  proof (cases "k = 1")
    case True
    with s waiting_stuck [of 1 0 s] node_ok_wf [OF ok s(3)] show ?thesis by (simp add: worker_at_def)
  next
    case False
    with s(2) show ?thesis by (auto simp: worker_at_def nth_Cons less_Suc_eq elim!: node_stepE split: nat.splits)
  qed
  with s run show ?thesis by (intro exI [of _ s]) (simp add: worker_at_def)
qed

end
