(* ===== verification/Net_Msg.thy ===== *)
theory Net_Msg
  imports Base_Msg
begin

text \<open>
  Network messages, \<open>src/src/util/net_msg.h\<close> and \<open>net_msg.cpp\<close>: a message whose bytes are
  an IP packet, and the decoding of its header.

  The structures \<open>ip\<close>, \<open>udphdr\<close> and \<open>tcphdr\<close> are read at their byte offsets on a
  little-endian host; a read behind the end of the bytes is the error \<open>OutOfBounds\<close>. The
  members are not initialised by the constructor; the values they have before are those of the
  record.
\<close>

section \<open>Model\<close>

record NetworkMsg = BaseMsg +
  nm_src_ip :: u32
  nm_dst_ip :: u32
  nm_src_ip_str :: string
  nm_dst_ip_str :: string
  nm_flowindex :: string
  nm_src_port :: u16
  nm_dst_port :: u16
  nm_protocol :: u8

definition MIN_IPHEADER_LEN :: int where
  "MIN_IPHEADER_LEN = 20"

subsection \<open>Bytes\<close>

definition byte_at :: "u8 list \<Rightarrow> nat \<Rightarrow> u8 res" where
  "byte_at data i = (if i < length data then Inr (data ! i) else Inl OutOfBounds)"

text \<open>\<open>ntohs\<close> of a 16-bit member, and a 32-bit member as it lies in memory.\<close>

definition net16_at :: "u8 list \<Rightarrow> nat \<Rightarrow> u16 res" where
  "net16_at data i =
     bindE (byte_at data i) (\<lambda>hi. bindE (byte_at data (i + 1)) (\<lambda>lo.
       Inr (of_nat (256 * unat hi + unat lo))))"

definition host32_at :: "u8 list \<Rightarrow> nat \<Rightarrow> u32 res" where
  "host32_at data i =
     bindE (byte_at data i) (\<lambda>a. bindE (byte_at data (i + 1)) (\<lambda>b.
     bindE (byte_at data (i + 2)) (\<lambda>c. bindE (byte_at data (i + 3)) (\<lambda>d.
       Inr (of_nat (unat a + 256 * unat b + 65536 * unat c + 16777216 * unat d))))))"

definition ip_v :: "u8 \<Rightarrow> nat" where
  "ip_v b = unat b div 16"

definition ip_hl :: "u8 \<Rightarrow> nat" where
  "ip_hl b = unat b mod 16"

text \<open>\<open>inet_ntoa\<close> prints the four bytes of the address in memory order.\<close>

definition inet_ntoa :: "u32 \<Rightarrow> string" where
  "inet_ntoa a =
     (let n = unat a in
      show_nat (n mod 256) @ ''.'' @ show_nat (n div 256 mod 256) @ ''.'' @
      show_nat (n div 65536 mod 256) @ ''.'' @ show_nat (n div 16777216))"

definition IPPROTO_TCP :: u8 where
  "IPPROTO_TCP = 6"

definition IPPROTO_UDP :: u8 where
  "IPPROTO_UDP = 17"

subsection \<open>Operations\<close>

definition IsIPv4 :: "'f NetworkMsg_scheme \<Rightarrow> bool" where
  "IsIPv4 m =
     (if msg_size m < MIN_IPHEADER_LEN then False
      else case byte_at (m_data m) 0 of Inl _ \<Rightarrow> False | Inr b \<Rightarrow> ip_v b = 4)"

definition flow_index :: "u32 \<Rightarrow> u32 \<Rightarrow> u16 \<Rightarrow> u16 \<Rightarrow> string" where
  "flow_index src dst sport dport =
     inet_ntoa src @ '':'' @ inet_ntoa dst @ '':'' @ show_nat (unat sport) @ '':'' @ show_nat (unat dport)"

definition decode :: "'f NetworkMsg_scheme \<Rightarrow> 'f NetworkMsg_scheme res" where
  "decode m =
     (let data = m_data m in
      if msg_size m < MIN_IPHEADER_LEN then Inr m
      else bindE (byte_at data 0) (\<lambda>b0.
        if ip_v b0 \<noteq> 4 then Inr m
        else bindE (byte_at data 9) (\<lambda>ip_p.
          let off = ip_hl b0 * 4 in
          bindE (if ip_p = IPPROTO_UDP \<or> ip_p = IPPROTO_TCP
                 then bindE (net16_at data (off + 2)) (\<lambda>dport.
                      bindE (net16_at data off) (\<lambda>sport. Inr (sport, dport)))
                 else Inr (0, 0)) (\<lambda>(sport, dport).
          bindE (host32_at data 16) (\<lambda>dst.
          bindE (host32_at data 12) (\<lambda>src.
            Inr (m\<lparr>nm_dst_port := dport, nm_src_port := sport, nm_protocol := ip_p,
                   nm_dst_ip := dst, nm_src_ip := src,
                   nm_src_ip_str := inet_ntoa src, nm_dst_ip_str := inet_ntoa dst,
                   nm_flowindex := flow_index src dst sport dport\<rparr>)))))))"

definition reset :: "'f NetworkMsg_scheme \<Rightarrow> 'f NetworkMsg_scheme" where
  "reset m = m\<lparr>nm_src_ip := 0, nm_dst_ip := 0, nm_src_ip_str := [], nm_dst_ip_str := [],
               nm_src_port := 0, nm_dst_port := 0, nm_protocol := 0\<rparr>"

section \<open>Lemmas\<close>

lemma split_at_sep:
  "c \<notin> set a \<Longrightarrow> c \<notin> set b \<Longrightarrow> a @ c # x = b @ c # y \<Longrightarrow> a = b \<and> x = y"
proof (induction a arbitrary: b)
  case Nil
  then show ?case by (cases b) auto
next
  case (Cons z a)
  then show ?case by (cases b) auto
qed

lemma show_nat_inj: "show_nat m = show_nat n \<Longrightarrow> m = n"
  using read_digits_show_nat [of 0 m "[]"] read_digits_show_nat [of 0 n "[]"] by simp

lemma show_nat_free: "c \<notin> digit_char ` {..<10} \<Longrightarrow> c \<notin> set (show_nat n)"
  using set_show_nat by blast

lemma not_digit: "CHR ''.'' \<notin> digit_char ` {..<10}" "CHR '':'' \<notin> digit_char ` {..<10}"
proof -
  have "digit_value (digit_char d) \<noteq> None" if "d < 10" for d using that by simp
  moreover have "digit_value CHR ''.'' = None" "digit_value CHR '':'' = None" by (simp_all add: digit_value_def)
  ultimately show "CHR ''.'' \<notin> digit_char ` {..<10}" "CHR '':'' \<notin> digit_char ` {..<10}"
    by (metis imageE lessThan_iff)+
qed

lemmas show_nat_no_dot = show_nat_free [OF not_digit(1)]
lemmas show_nat_no_colon = show_nat_free [OF not_digit(2)]

lemma bytes_of_nat:
  fixes k :: nat
  shows "k = k mod 256 + 256 * (k div 256 mod 256) + 65536 * (k div 65536 mod 256) + 16777216 * (k div 16777216)"
proof -
  have sum: "n = a + 256 * b + 65536 * c + 16777216 * n3"
    if "a + 256 * n1 = n" "b + 256 * n2 = n1" "c + 256 * n3 = n2" for a b c n n1 n2 n3 :: nat
    using that by simp
  have "k div 65536 = k div 256 div 256" "k div 16777216 = k div 256 div 256 div 256"
    by (simp_all add: div_mult2_eq [symmetric])
  with sum [OF mod_mult_div_eq mod_mult_div_eq mod_mult_div_eq] show ?thesis by simp
qed

lemma inet_ntoa_inj:
  assumes "inet_ntoa a = inet_ntoa b"
  shows "a = b"
proof -
  let ?n = "unat a" and ?m = "unat b"
  note sep = split_at_sep [OF show_nat_no_dot show_nat_no_dot]
  have eq: "show_nat (?n mod 256) @ CHR ''.'' # show_nat (?n div 256 mod 256) @ CHR ''.'' #
      show_nat (?n div 65536 mod 256) @ CHR ''.'' # show_nat (?n div 16777216) =
    show_nat (?m mod 256) @ CHR ''.'' # show_nat (?m div 256 mod 256) @ CHR ''.'' #
      show_nat (?m div 65536 mod 256) @ CHR ''.'' # show_nat (?m div 16777216)"
    using assms by (simp add: inet_ntoa_def Let_def)
  have 1: "?n mod 256 = ?m mod 256" using sep [OF eq] show_nat_inj by blast
  note eq2 = sep [OF eq, THEN conjunct2]
  have 2: "?n div 256 mod 256 = ?m div 256 mod 256" using sep [OF eq2] show_nat_inj by blast
  note eq3 = sep [OF eq2, THEN conjunct2]
  have 3: "?n div 65536 mod 256 = ?m div 65536 mod 256" using sep [OF eq3] show_nat_inj by blast
  have 4: "?n div 16777216 = ?m div 16777216" using sep [OF eq3] show_nat_inj by blast
  have "?n = ?m" using bytes_of_nat [of ?n] bytes_of_nat [of ?m] 1 2 3 4 by simp
  then show ?thesis by (rule word_unat_eq_iff [THEN iffD2])
qed

lemma inet_ntoa_no_colon: "CHR '':'' \<notin> set (inet_ntoa a)"
  by (simp add: inet_ntoa_def Let_def show_nat_no_colon)

definition dotted :: "u8 \<Rightarrow> u8 \<Rightarrow> u8 \<Rightarrow> u8 \<Rightarrow> string" where
  "dotted a b c d = show_nat (unat a) @ ''.'' @ show_nat (unat b) @ ''.'' @ show_nat (unat c) @ ''.'' @ show_nat (unat d)"

lemma unat_u8_less: "unat (b :: u8) < 256"
  using unsigned_less [of b] by simp

lemma inet_ntoa_bytes:
  "inet_ntoa (of_nat (unat a + 256 * unat b + 65536 * unat c + 16777216 * unat d)) = dotted a b c d"
proof -
  let ?n = "unat a + 256 * unat b + 65536 * unat c + 16777216 * unat d"
  note lt = unat_u8_less [of a] unat_u8_less [of b] unat_u8_less [of c] unat_u8_less [of d]
  have "?n < 2 ^ 32" using lt by simp
  then have "unat (of_nat ?n :: u32) = ?n"
    using unat_of_nat [where 'a = 32, of ?n] by (simp del: of_nat_add of_nat_mult)
  moreover have step: "(x + 256 * y) mod 256 = x" "(x + 256 * y) div 256 = y" if "x < 256" for x y :: nat
    using that by simp_all
  have n: "?n = unat a + 256 * (unat b + 256 * (unat c + 256 * unat d))" by simp
  have q: "?n div 65536 = ?n div 256 div 256" "?n div 16777216 = ?n div 256 div 256 div 256"
    by (simp_all only: div_mult2_eq [symmetric]) simp_all
  have "?n mod 256 = unat a" "?n div 256 mod 256 = unat b" "?n div 65536 mod 256 = unat c"
      "?n div 16777216 = unat d"
    unfolding q unfolding n step(2) [OF lt(1)] step(1) [OF lt(1)] step(2) [OF lt(2)] step(1) [OF lt(2)]
      step(2) [OF lt(3)] step(1) [OF lt(3)] by (rule refl)+
  ultimately show ?thesis by (simp only: inet_ntoa_def dotted_def Let_def)
qed

text \<open>The offset of the ports is inside the bytes only if the transport header is there.\<close>

lemma net16_at_ok: "i + 1 < length data \<Longrightarrow>
    net16_at data i = Inr (of_nat (256 * unat (data ! i) + unat (data ! (i + 1))))"
  by (simp add: net16_at_def byte_at_def)

lemma net16_at_short: "length data \<le> i + 1 \<Longrightarrow> net16_at data i = Inl OutOfBounds"
  by (auto simp: net16_at_def byte_at_def)

abbreviation size_ok :: "'f NetworkMsg_scheme \<Rightarrow> bool" where
  "size_ok m \<equiv> length (m_data m) < 2 ^ 31"

lemma msg_size_net: "size_ok m \<Longrightarrow> msg_size m = int (length (m_data m))"
  by (simp add: msg_size_def cint int32_ok_def)


lemma decode_data: "decode m = Inr m' \<Longrightarrow> m_data m' = m_data m"
  unfolding decode_def Let_def bindE_def by (auto split: if_splits sum.splits prod.splits)


section \<open>Properties\<close>

text \<open>(C24) Decoding an IPv4 packet: from the twenty bytes of the header, any options and the
  payload it takes the addresses, the protocol and, for TCP and UDP, the ports, which are zero
  for any other protocol; the flow index is made of these, the bytes stay as they are, and
  \<open>IsIPv4\<close> agrees.\<close>

theorem decode_ipv4:
  assumes "size_ok m"
    and "m_data m = [b0, b1, b2, b3, b4, b5, b6, b7, b8, proto, b10, b11, s0, s1, s2, s3, d0, d1, d2, d3] @ opts @ payload"
    and "ip_v b0 = 4" and "length opts + 20 = ip_hl b0 * 4"
    and "payload = [p0, p1, q0, q1] @ rest"
  shows "\<exists>m'. decode m = Inr m' \<and> IsIPv4 m \<and> m_data m' = m_data m \<and> nm_protocol m' = proto \<and>
     nm_src_ip_str m' = dotted s0 s1 s2 s3 \<and> nm_dst_ip_str m' = dotted d0 d1 d2 d3 \<and>
     nm_src_ip_str m' = inet_ntoa (nm_src_ip m') \<and> nm_dst_ip_str m' = inet_ntoa (nm_dst_ip m') \<and>
     nm_flowindex m' = flow_index (nm_src_ip m') (nm_dst_ip m') (nm_src_port m') (nm_dst_port m') \<and>
     (if proto = IPPROTO_UDP \<or> proto = IPPROTO_TCP
      then nm_src_port m' = of_nat (256 * unat p0 + unat p1) \<and> nm_dst_port m' = of_nat (256 * unat q0 + unat q1)
      else nm_src_port m' = 0 \<and> nm_dst_port m' = 0)"
proof -
  let ?d = "m_data m" and ?off = "ip_hl b0 * 4"
  let ?hdr = "[b0, b1, b2, b3, b4, b5, b6, b7, b8, proto, b10, b11, s0, s1, s2, s3, d0, d1, d2, d3]"
  have len: "length (?hdr @ opts) = ?off" using assms(4) by simp
  have pay: "?d ! (?off + j) = payload ! j" for j
    using assms(2) len nth_append_length_plus [of "?hdr @ opts" payload j] by simp
  have total: "?off + 3 < length ?d" "int (length ?d) \<ge> 20" using assms(2,4,5) by simp_all
  have last: "?off + 2 + 1 = ?off + 3" by simp
  have ports: "net16_at ?d ?off = Inr (of_nat (256 * unat p0 + unat p1))"
      "net16_at ?d (?off + 2) = Inr (of_nat (256 * unat q0 + unat q1))"
    using net16_at_ok [of ?off ?d] net16_at_ok [of "?off + 2" ?d, unfolded last] total(1)
      pay [of 0] pay [of 1] pay [of 2] pay [of 3] assms(5) by (simp_all del: of_nat_add of_nat_mult)
  have b: "byte_at ?d 0 = Inr b0" "byte_at ?d 9 = Inr proto" using assms(2) by (simp_all add: byte_at_def)
  have a: "host32_at ?d 12 = Inr (of_nat (unat s0 + 256 * unat s1 + 65536 * unat s2 + 16777216 * unat s3))"
      "host32_at ?d 16 = Inr (of_nat (unat d0 + 256 * unat d1 + 65536 * unat d2 + 16777216 * unat d3))"
    using assms(2) by (simp_all add: host32_at_def byte_at_def)
  have v4: "IsIPv4 m"
    using assms(1,3) total(2) b(1) by (simp add: IsIPv4_def msg_size_net MIN_IPHEADER_LEN_def)
  show ?thesis
    using assms(1,3) total(2) ports b a v4
    by (auto simp: decode_def msg_size_net MIN_IPHEADER_LEN_def inet_ntoa_bytes Let_def
        simp del: of_nat_add of_nat_mult)
qed

text \<open>The flow index identifies the flow: two packets have the same index only if their
  addresses and ports agree. (The protocol is not part of it.)\<close>

theorem flow_index_inj:
  assumes "flow_index src dst sport dport = flow_index src' dst' sport' dport'"
  shows "src = src' \<and> dst = dst' \<and> sport = sport' \<and> dport = dport'"
proof -
  note ips = split_at_sep [OF inet_ntoa_no_colon inet_ntoa_no_colon]
  have eq: "inet_ntoa src @ CHR '':'' # inet_ntoa dst @ CHR '':'' # show_nat (unat sport) @ CHR '':'' # show_nat (unat dport) =
      inet_ntoa src' @ CHR '':'' # inet_ntoa dst' @ CHR '':'' # show_nat (unat sport') @ CHR '':'' # show_nat (unat dport')"
    using assms by (simp add: flow_index_def)
  note eq2 = ips [OF eq, THEN conjunct2]
  note eq3 = ips [OF eq2, THEN conjunct2]
  note ports = split_at_sep [OF show_nat_no_colon show_nat_no_colon eq3]
  have "unat sport = unat sport'" "unat dport = unat dport'" using ports show_nat_inj by blast+
  then have "sport = sport'" "dport = dport'" by (simp_all only: word_unat_eq_iff)
  moreover have "src = src'" using ips [OF eq] inet_ntoa_inj by blast
  moreover have "dst = dst'" using ips [OF eq2] inet_ntoa_inj by blast
  ultimately show ?thesis by blast
qed

text \<open>The length check covers the IP header only: for a TCP or UDP packet that ends before
  its ports, as a fragment or a truncated packet does, \<open>decode\<close> reads behind the end of the
  buffer.\<close>

theorem decode_truncated_reads_past_end:
  assumes "size_ok m" and "20 \<le> length (m_data m)" and "ip_v (m_data m ! 0) = 4"
    and "m_data m ! 9 = IPPROTO_UDP \<or> m_data m ! 9 = IPPROTO_TCP"
    and "length (m_data m) < ip_hl (m_data m ! 0) * 4 + 4"
  shows "decode m = Inl OutOfBounds"
  using assms net16_at_short [of "m_data m" "ip_hl (m_data m ! 0) * 4 + 2"]
  by (auto simp: decode_def msg_size_net MIN_IPHEADER_LEN_def byte_at_def Let_def)

subsection \<open>Witnesses\<close>

definition net_msg :: "u8 list \<Rightarrow> NetworkMsg" where
  "net_msg bytes = BaseMsg.extend (blank_msg\<lparr>m_data := bytes, m_cap := length bytes\<rparr>)
     (NetworkMsg.fields 0 0 [] [] [] 0 0 0)"

definition udp_packet :: "u8 list" where
  "udp_packet = [69, 0, 0, 24, 0, 0, 0, 0, 64, 17, 0, 0, 10, 0, 0, 1, 10, 0, 0, 2, 0, 53, 1, 0]"

theorem decode_ipv4_witness:
  "\<exists>m'. decode (net_msg udp_packet) = Inr m' \<and> nm_src_port m' = 53 \<and> nm_dst_port m' = 256 \<and>
     nm_src_ip_str m' = dotted 10 0 0 1 \<and> nm_protocol m' = 17"
  using decode_ipv4 [of "net_msg udp_packet" 69 0 0 24 0 0 0 0 64 17 0 0 10 0 0 1 10 0 0 2 "[]" "[0, 53, 1, 0]" 0 53 1 0 "[]"]
  by (auto simp: net_msg_def udp_packet_def BaseMsg.defs NetworkMsg.defs blank_msg_def ip_v_def ip_hl_def IPPROTO_UDP_def)

theorem flow_index_inj_witness:
  "flow_index 1 2 3 4 = flow_index 1 2 3 4 \<and> (3 :: u16) = 3"
  using flow_index_inj [of 1 2 3 4 1 2 3 4] by simp

theorem decode_truncated_reads_past_end_witness:
  "decode (net_msg (take 22 udp_packet)) = Inl OutOfBounds"
  by (rule decode_truncated_reads_past_end)
     (simp_all add: net_msg_def udp_packet_def BaseMsg.defs blank_msg_def ip_v_def ip_hl_def IPPROTO_UDP_def)

end
