(* ===== verification/Poller.thy ===== *)
theory Poller
  imports Prelude
begin

text \<open>
  The poller, \<open>src/src/io/poller.h\<close>, \<open>poller.cpp\<close> and \<open>poll_data.h\<close>: a thread
  that waits for events on file descriptors and calls back the clients that registered.

  The two unordered maps are association lists with distinct keys; their order stands for the
  iteration order. A callback is known by a number, \<^term>\<open>None\<close> for a null one, and running
  \<open>Poll\<close> gives the list of calls made. \<open>poll_mutex_\<close> makes \<open>Register\<close>, \<open>Unregister\<close> and
  \<open>GetTimeoutMs\<close> atomic. The kernel is a parameter: the argument \<open>ctl\<close> is \<open>epoll_ctl\<close> on the
  state of the epoll instance, the results of \<open>epoll_wait\<close> and of the clock are arguments of
  \<open>Poll\<close>, and the results of the calls in \<open>Init\<close> are the record \<open>init_results\<close>. What is only
  logged is left out.
\<close>

section \<open>Model\<close>

subsection \<open>Data\<close>

record PollResponse =
  rs_events :: u32

record PollRequest =
  rq_fd :: int
  rq_events :: u32
  rq_timeout_ms :: int
  rq_callback :: "nat option"

datatype epoll_op = EPOLL_CTL_ADD | EPOLL_CTL_MOD | EPOLL_CTL_DEL

record PollCtrlParam =
  cp_operation :: epoll_op
  cp_fd :: int
  cp_events :: u32

record Poller =
  po_epoll_fd :: int
  po_pipe_fd0 :: int
  po_pipe_fd1 :: int
  po_pipe_bytes :: nat
  po_is_shutdown :: bool
  po_running :: bool
  po_requests :: "(int \<times> PollRequest) list"
  po_ctrl_params :: "(int \<times> PollCtrlParam) list"

abbreviation (input) kPollSize :: nat where
  "kPollSize \<equiv> 32"

abbreviation (input) kPollTimeoutMs :: int where
  "kPollTimeoutMs \<equiv> 100"

text \<open>\<open>m[k] = v\<close> on an unordered map.\<close>

fun map_put :: "'k \<Rightarrow> 'v \<Rightarrow> ('k \<times> 'v) list \<Rightarrow> ('k \<times> 'v) list" where
  "map_put k v [] = [(k, v)]"
| "map_put k v ((k', v') # m) = (if k' = k then (k, v) # m else (k', v') # map_put k v m)"

definition map_del :: "'k \<Rightarrow> ('k \<times> 'v) list \<Rightarrow> ('k \<times> 'v) list" where
  "map_del k m = filter (\<lambda>(k', _). k' \<noteq> k) m"

subsection \<open>Registration\<close>

text \<open>
  \<open>Notify\<close> writes a byte to the pipe, unless another thread is just doing so (\<open>owns\<close> is
  false) or the pipe is full.
\<close>

definition Notify :: "bool \<Rightarrow> nat \<Rightarrow> Poller \<Rightarrow> Poller" where
  "Notify owns pipe_size p =
     (if \<not> owns then p
      else if po_pipe_bytes p < pipe_size then p\<lparr>po_pipe_bytes := po_pipe_bytes p + 1\<rparr> else p)"

definition Register :: "bool \<Rightarrow> nat \<Rightarrow> PollRequest \<Rightarrow> Poller \<Rightarrow> bool \<times> Poller" where
  "Register owns pipe_size req p =
     (if po_is_shutdown p then (False, p)
      else if rq_fd req < 0 \<or> rq_callback req = None then (False, p)
      else let operation = (if map_of (po_requests p) (rq_fd req) = None
                            then EPOLL_CTL_ADD else EPOLL_CTL_MOD);
               ctrl_param = \<lparr>cp_operation = operation, cp_fd = rq_fd req, cp_events = rq_events req\<rparr>;
               p' = p\<lparr>po_requests := map_put (rq_fd req) req (po_requests p),
                      po_ctrl_params := map_put (rq_fd req) ctrl_param (po_ctrl_params p)\<rparr>
           in (True, Notify owns pipe_size p'))"

text \<open>The event of a deletion is uninitialised; its value is the argument \<open>garbage\<close>.\<close>

definition Unregister :: "u32 \<Rightarrow> bool \<Rightarrow> nat \<Rightarrow> PollRequest \<Rightarrow> Poller \<Rightarrow> bool \<times> Poller" where
  "Unregister garbage owns pipe_size req p =
     (if po_is_shutdown p then (False, p)
      else if rq_fd req < 0 \<or> rq_callback req = None then (False, p)
      else if map_of (po_requests p) (rq_fd req) = None then (False, p)
      else let ctrl_param = \<lparr>cp_operation = EPOLL_CTL_DEL, cp_fd = rq_fd req, cp_events = garbage\<rparr>;
               p' = p\<lparr>po_requests := map_del (rq_fd req) (po_requests p),
                      po_ctrl_params := map_put (rq_fd req) ctrl_param (po_ctrl_params p)\<rparr>
           in (True, Notify owns pipe_size p'))"

subsection \<open>Starting and stopping\<close>

record init_results =
  ir_epoll_create :: int
  ir_pipe :: "(int \<times> int) option"
  ir_fcntl0 :: int
  ir_fcntl1 :: int

abbreviation (input) EPOLLIN :: u32 where
  "EPOLLIN \<equiv> 1"

definition Poller_blank :: Poller where
  "Poller_blank = \<lparr>po_epoll_fd = -1, po_pipe_fd0 = -1, po_pipe_fd1 = -1, po_pipe_bytes = 0,
     po_is_shutdown = True, po_running = False, po_requests = [], po_ctrl_params = []\<rparr>"

text \<open>The callback of the pipe, which empties it, has the number 0.\<close>

definition Poller_Init :: "init_results \<Rightarrow> Poller \<Rightarrow> bool \<times> Poller" where
  "Poller_Init sys p0 =
     (let p = p0\<lparr>po_epoll_fd := ir_epoll_create sys\<rparr> in
      if po_epoll_fd p < 0 then (False, p)
      else case ir_pipe sys of
        None \<Rightarrow> (False, p)
      | Some (r, w) \<Rightarrow>
          let p = p\<lparr>po_pipe_fd0 := r, po_pipe_fd1 := w\<rparr> in
          if ir_fcntl0 sys = -1 then (False, p)
          else if ir_fcntl1 sys = -1 then (False, p)
          else let request = \<lparr>rq_fd = r, rq_events = EPOLLIN, rq_timeout_ms = -1, rq_callback = Some 0\<rparr>;
                   ctrl_param = \<lparr>cp_operation = EPOLL_CTL_ADD, cp_fd = r, cp_events = EPOLLIN\<rparr>
               in (True, p\<lparr>po_requests := map_put r request (po_requests p),
                           po_ctrl_params := map_put r ctrl_param (po_ctrl_params p),
                           po_is_shutdown := False, po_running := True\<rparr>))"

text \<open>
  \<open>Clear\<close> joins the thread, which waits (\<^term>\<open>None\<close>) unless its loop has been told to end,
  and closes the descriptors.
\<close>

definition Clear :: "Poller \<Rightarrow> Poller option" where
  "Clear p =
     (if po_running p \<and> \<not> po_is_shutdown p then None
      else Some (p\<lparr>po_running := False, po_epoll_fd := (if po_epoll_fd p \<ge> 0 then -1 else po_epoll_fd p),
                   po_pipe_fd0 := (if po_pipe_fd0 p \<ge> 0 then -1 else po_pipe_fd0 p),
                   po_pipe_fd1 := (if po_pipe_fd1 p \<ge> 0 then -1 else po_pipe_fd1 p),
                   po_requests := [], po_ctrl_params := []\<rparr>))"

definition Poller_Shutdown :: "Poller \<Rightarrow> Poller option" where
  "Poller_Shutdown p = (if po_is_shutdown p then Some p else Clear (p\<lparr>po_is_shutdown := True\<rparr>))"

definition Poller_new :: "init_results \<Rightarrow> Poller option" where
  "Poller_new sys = (case Poller_Init sys Poller_blank of (ok, p) \<Rightarrow> if ok then Some p else Clear p)"

definition Poller_destroy :: "Poller \<Rightarrow> Poller option" where
  "Poller_destroy p = Poller_Shutdown p"

text \<open>\<open>Instance\<close>: \<open>sys\<close> gives the results of the system calls, \<open>memory\<close> whether the allocation succeeds.\<close>

definition Poller_Instance :: "init_results \<Rightarrow> bool \<Rightarrow> Poller static_instance \<Rightarrow> Poller option \<times> Poller static_instance" where
  "Poller_Instance sys memory = static_get (if memory then Poller_new sys else None)"

subsection \<open>The loop of the thread\<close>

type_synonym 'k epoll_ctl = "epoll_op \<Rightarrow> int \<Rightarrow> u32 \<Rightarrow> 'k \<Rightarrow> bool \<times> 'k"

fun apply_changes :: "'k epoll_ctl \<Rightarrow> (int \<times> PollCtrlParam) list \<Rightarrow> 'k \<Rightarrow> 'k" where
  "apply_changes ctl [] k = k"
| "apply_changes ctl ((_, item) # items) k =
     apply_changes ctl items (snd (ctl (cp_operation item) (cp_fd item) (cp_events item) k))"

definition HandleChanges :: "'k epoll_ctl \<Rightarrow> Poller \<Rightarrow> 'k \<Rightarrow> Poller \<times> 'k" where
  "HandleChanges ctl p k =
     (if po_ctrl_params p = [] then (p, k)
      else (p\<lparr>po_ctrl_params := []\<rparr>, apply_changes ctl (po_ctrl_params p) k))"

definition GetTimeoutMs :: "Poller \<Rightarrow> int" where
  "GetTimeoutMs p =
     fold (\<lambda>(_, req) timeout_ms.
             if rq_timeout_ms req \<ge> 0 \<and> rq_timeout_ms req < timeout_ms then rq_timeout_ms req else timeout_ms)
          (po_requests p) kPollTimeoutMs"

text \<open>The milliseconds between two readings of the clock: an unsigned difference, cast to \<open>int\<close>.\<close>

definition interval_ms :: "u64 \<Rightarrow> u64 \<Rightarrow> int" where
  "interval_ms before_time_ns after_time_ns =
     (let d = to_int32 (uint ((after_time_ns - before_time_ns) div 1000000)) in if d = 0 then 1 else d)"

text \<open>The first loop of \<open>Poll\<close>: the new requests and the responses for the expired ones.\<close>

fun count_down :: "int \<Rightarrow> (int \<times> PollCtrlParam) list \<Rightarrow> (int \<times> PollRequest) list \<Rightarrow>
    ((int \<times> PollRequest) list \<times> (int \<times> PollResponse) list) res" where
  "count_down interval ctrl [] = Inr ([], [])"
| "count_down interval ctrl ((fd, request) # items) =
     bindE (if map_of ctrl (rq_fd request) \<noteq> None then Inr (request, [])
            else bindE (if rq_timeout_ms request > 0
                        then bindE (sub32 (rq_timeout_ms request) interval) (\<lambda>t.
                             Inr (request\<lparr>rq_timeout_ms := (if t < 0 then 0 else t)\<rparr>))
                        else Inr request) (\<lambda>request'.
                 Inr (if rq_timeout_ms request' = 0
                      then (request'\<lparr>rq_timeout_ms := -1\<rparr>, [(fd, \<lparr>rs_events = 0\<rparr>)])
                      else (request', [])))) (\<lambda>(request', rsp).
     bindE (count_down interval ctrl items) (\<lambda>(items', rsps).
       Inr ((fd, request') # items', rsp @ rsps)))"

text \<open>
  The last loop: each response takes the lock for itself, so other threads may change the
  poller before each one; \<open>others\<close> says how. A call is the callback and the events.
\<close>

fun respond :: "(Poller \<Rightarrow> Poller) list \<Rightarrow> (int \<times> PollResponse) list \<Rightarrow> Poller \<Rightarrow>
    (nat option \<times> u32) list \<times> Poller" where
  "respond others [] p = ([], p)"
| "respond others ((fd, response) # rsps) p =
     (let (p1, others') = (case others of [] \<Rightarrow> (p, []) | f # fs \<Rightarrow> (f p, fs)) in
      case map_of (po_requests p1) fd of
        None \<Rightarrow> respond others' rsps p1
      | Some req \<Rightarrow>
          let p2 = p1\<lparr>po_requests := map_put fd (req\<lparr>rq_timeout_ms := -1\<rparr>) (po_requests p1)\<rparr>;
              (calls, p3) = respond others' rsps p2
          in ((rq_callback req, rs_events response) # calls, p3))"

definition Poll :: "u64 \<Rightarrow> u64 \<Rightarrow> (int \<times> u32) list \<Rightarrow> (Poller \<Rightarrow> Poller) list \<Rightarrow> Poller \<Rightarrow>
    ((nat option \<times> u32) list \<times> Poller) res" where
  "Poll before_time_ns after_time_ns ready others p =
     bindE (count_down (interval_ms before_time_ns after_time_ns) (po_ctrl_params p) (po_requests p))
       (\<lambda>(requests', timeouts).
         let responses = fold (\<lambda>(fd, events) rs. map_put fd \<lparr>rs_events = events\<rparr> rs) ready timeouts
         in Inr (respond others responses (p\<lparr>po_requests := requests'\<rparr>)))"

text \<open>One round of the thread. \<open>epoll_wait\<close> returns at most \<open>kPollSize\<close> events.\<close>

definition poll_round ::
    "'k epoll_ctl \<Rightarrow> (int \<Rightarrow> 'k \<Rightarrow> (int \<times> u32) list) \<Rightarrow> (Poller \<Rightarrow> Poller) \<Rightarrow> u64 \<Rightarrow> u64 \<Rightarrow>
     (Poller \<Rightarrow> Poller) list \<Rightarrow> Poller \<Rightarrow> 'k \<Rightarrow> ((nat option \<times> u32) list \<times> Poller \<times> 'k) res" where
  "poll_round ctl epoll_wait meanwhile before_time_ns after_time_ns others p k =
     (let (p1, k1) = HandleChanges ctl p k;
          timeout_ms = GetTimeoutMs p1;
          ready = take kPollSize (epoll_wait timeout_ms k1)
      in bindE (Poll before_time_ns after_time_ns ready others (meanwhile p1)) (\<lambda>(calls, p2).
           Inr (calls, p2, k1)))"

section \<open>Lemmas\<close>

subsection \<open>Maps\<close>

lemma map_of_map_put [simp]: "map_of (map_put k v m) = (map_of m)(k \<mapsto> v)"
  by (induction m) auto

lemma keys_map_put: "fst ` set (map_put k v m) = insert k (fst ` set m)"
  by (induction k v m rule: map_put.induct) auto

lemma distinct_map_put: "distinct (map fst m) \<Longrightarrow> distinct (map fst (map_put k v m))"
  by (induction m) (auto simp: keys_map_put)

lemma map_put_same: "map_of m k = Some v \<Longrightarrow> map_put k v m = m"
  by (induction m) auto

lemma map_of_map_del [simp]: "map_of (map_del k m) = (map_of m)(k := None)"
  by (induction m) (auto simp: map_del_def)

lemma Notify_sel [simp]:
  "po_requests (Notify owns n p) = po_requests p" "po_ctrl_params (Notify owns n p) = po_ctrl_params p"
  "po_is_shutdown (Notify owns n p) = po_is_shutdown p"
  by (simp_all add: Notify_def)

subsection \<open>The interest list of the kernel\<close>

text \<open>
  What \<open>epoll_ctl\<close> promises for open descriptors: adding succeeds only for a descriptor that is
  not in the interest list (otherwise \<open>EEXIST\<close>), modifying only for one that is (otherwise
  \<open>ENOENT\<close>), and deleting removes it; a call that fails changes nothing.
\<close>

definition epoll_ok :: "'k epoll_ctl \<Rightarrow> ('k \<Rightarrow> int \<rightharpoonup> u32) \<Rightarrow> bool" where
  "epoll_ok ctl interest \<longleftrightarrow> (\<forall>fd ev k.
     interest (snd (ctl EPOLL_CTL_ADD fd ev k)) =
       (if interest k fd = None then (interest k)(fd \<mapsto> ev) else interest k) \<and>
     interest (snd (ctl EPOLL_CTL_MOD fd ev k)) =
       (if interest k fd = None then interest k else (interest k)(fd \<mapsto> ev)) \<and>
     interest (snd (ctl EPOLL_CTL_DEL fd ev k)) = (interest k)(fd := None))"

text \<open>The events the clients want for a descriptor, and the effect of a pending change.\<close>

definition wanted :: "Poller \<Rightarrow> int \<Rightarrow> u32 option" where
  "wanted p fd = map_option rq_events (map_of (po_requests p) fd)"

fun changed :: "epoll_op \<Rightarrow> u32 \<Rightarrow> u32 option \<Rightarrow> u32 option" where
  "changed EPOLL_CTL_ADD ev old = (if old = None then Some ev else old)"
| "changed EPOLL_CTL_MOD ev old = (if old = None then None else Some ev)"
| "changed EPOLL_CTL_DEL ev old = None"

lemma ctl_interest:
  "epoll_ok ctl interest \<Longrightarrow>
   interest (snd (ctl op fd ev k)) = (interest k)(fd := changed op ev (interest k fd))"
  by (cases op) (auto simp: epoll_ok_def fun_eq_iff)

lemma apply_changes_interest:
  assumes "epoll_ok ctl interest" and "distinct (map fst items)" and "\<forall>(fd, cp)\<in>set items. cp_fd cp = fd"
  shows "interest (apply_changes ctl items k) fd =
    (case map_of items fd of None \<Rightarrow> interest k fd
     | Some cp \<Rightarrow> changed (cp_operation cp) (cp_events cp) (interest k fd))"
  using assms(2,3)
proof (induction items arbitrary: k)
  case (Cons item items)
  obtain f cp where item: "item = (f, cp)" by (cases item)
  have "map_of items f = None" using Cons.prems(1) by (simp add: item map_of_eq_None_iff)
  then show ?case
    using Cons by (auto simp: item ctl_interest [OF assms(1)] split: option.split)
qed simp

definition ctrl_wf :: "Poller \<Rightarrow> bool" where
  "ctrl_wf p \<longleftrightarrow> distinct (map fst (po_ctrl_params p)) \<and> (\<forall>(fd, cp)\<in>set (po_ctrl_params p). cp_fd cp = fd)"

text \<open>Applying the pending changes to the interest list would give what the clients want.\<close>

definition tracks :: "('k \<Rightarrow> int \<rightharpoonup> u32) \<Rightarrow> Poller \<Rightarrow> 'k \<Rightarrow> bool" where
  "tracks interest p k \<longleftrightarrow> ctrl_wf p \<and> (\<forall>fd. wanted p fd =
     (case map_of (po_ctrl_params p) fd of None \<Rightarrow> interest k fd
      | Some cp \<Rightarrow> changed (cp_operation cp) (cp_events cp) (interest k fd)))"

lemma HandleChanges_interest:
  assumes "epoll_ok ctl interest" and "ctrl_wf p" and "HandleChanges ctl p k = (p', k')"
  shows "interest k' fd = (case map_of (po_ctrl_params p) fd of None \<Rightarrow> interest k fd
     | Some cp \<Rightarrow> changed (cp_operation cp) (cp_events cp) (interest k fd))"
    and "p' = p\<lparr>po_ctrl_params := []\<rparr>"
  using assms apply_changes_interest [OF assms(1), of "po_ctrl_params p" k fd]
  by (auto simp: HandleChanges_def ctrl_wf_def split: if_splits)

lemma set_map_put: "set (map_put k v m) \<subseteq> set ((k, v) # m)"
  by (induction m) (auto split: if_splits)

lemma ctrl_wf_put:
  assumes "ctrl_wf p" and "cp_fd cp = fd"
    and "po_ctrl_params p' = map_put fd cp (po_ctrl_params p)"
  shows "ctrl_wf p'"
proof -
  have "\<forall>(fd, cp)\<in>set ((fd, cp) # po_ctrl_params p). cp_fd cp = fd"
    using assms(1,2) by (simp add: ctrl_wf_def)
  then have "\<forall>(fd, cp)\<in>set (po_ctrl_params p'). cp_fd cp = fd"
    unfolding assms(3) by (rule bspec [OF _ subsetD [OF set_map_put], THEN ballI])
  with assms show ?thesis by (simp add: ctrl_wf_def distinct_map_put)
qed

lemma Register_tracks:
  assumes "tracks interest p k" and "map_of (po_ctrl_params p) (rq_fd req) = None"
    and "Register owns n req p = (r, p')"
  shows "tracks interest p' k \<and> (\<forall>fd. fd \<noteq> rq_fd req \<longrightarrow> map_of (po_ctrl_params p') fd = map_of (po_ctrl_params p) fd)"
proof (cases r)
  case False
  with assms show ?thesis by (auto simp: Register_def Let_def split: if_splits)
next
  case True
  let ?op = "if map_of (po_requests p) (rq_fd req) = None then EPOLL_CTL_ADD else EPOLL_CTL_MOD"
  let ?cp = "\<lparr>cp_operation = ?op, cp_fd = rq_fd req, cp_events = rq_events req\<rparr>"
  have p': "po_requests p' = map_put (rq_fd req) req (po_requests p)"
      "po_ctrl_params p' = map_put (rq_fd req) ?cp (po_ctrl_params p)"
    using assms(3) True by (auto simp: Register_def Let_def split: if_splits)
  have "ctrl_wf p'" by (rule ctrl_wf_put [OF _ _ p'(2)]) (use assms(1) in \<open>simp_all add: tracks_def\<close>)
  moreover have "interest k (rq_fd req) = wanted p (rq_fd req)"
    using assms(1,2) by (simp add: tracks_def)
  ultimately show ?thesis
    using assms(1) p' by (cases "map_of (po_requests p) (rq_fd req)") (simp_all add: tracks_def wanted_def)
qed

lemma Unregister_tracks:
  assumes "tracks interest p k" and "map_of (po_ctrl_params p) (rq_fd req) = None"
    and "Unregister garbage owns n req p = (r, p')"
  shows "tracks interest p' k \<and> (\<forall>fd. fd \<noteq> rq_fd req \<longrightarrow> map_of (po_ctrl_params p') fd = map_of (po_ctrl_params p) fd)"
proof (cases r)
  case False
  with assms show ?thesis by (auto simp: Unregister_def Let_def split: if_splits)
next
  case True
  let ?cp = "\<lparr>cp_operation = EPOLL_CTL_DEL, cp_fd = rq_fd req, cp_events = garbage\<rparr>"
  have p': "po_requests p' = map_del (rq_fd req) (po_requests p)"
      "po_ctrl_params p' = map_put (rq_fd req) ?cp (po_ctrl_params p)"
    using assms(3) True by (auto simp: Unregister_def Let_def split: if_splits)
  have "ctrl_wf p'" by (rule ctrl_wf_put [OF _ _ p'(2)]) (use assms(1) in \<open>simp_all add: tracks_def\<close>)
  then show ?thesis
    using assms(1) p' by (auto simp: tracks_def wanted_def)
qed

text \<open>A batch of calls between two runs of \<open>HandleChanges\<close>.\<close>

datatype poll_call = CRegister PollRequest | CUnregister PollRequest

fun call_fd :: "poll_call \<Rightarrow> int" where
  "call_fd (CRegister req) = rq_fd req"
| "call_fd (CUnregister req) = rq_fd req"

fun run_call :: "poll_call \<Rightarrow> Poller \<Rightarrow> Poller" where
  "run_call (CRegister req) p = snd (Register True 65536 req p)"
| "run_call (CUnregister req) p = snd (Unregister 0 True 65536 req p)"

lemma run_call_tracks:
  assumes "tracks interest p k" and "map_of (po_ctrl_params p) (call_fd c) = None"
  shows "tracks interest (run_call c p) k \<and>
    (\<forall>fd. fd \<noteq> call_fd c \<longrightarrow> map_of (po_ctrl_params (run_call c p)) fd = map_of (po_ctrl_params p) fd)"
proof (cases c)
  case (CRegister req)
  with assms Register_tracks [OF assms(1), of req True 65536] show ?thesis by (simp add: prod_eq_iff)
next
  case (CUnregister req)
  with assms Unregister_tracks [OF assms(1), of req 0 True 65536] show ?thesis by (simp add: prod_eq_iff)
qed

lemma run_calls_tracks:
  assumes "tracks interest p k" and "distinct (map call_fd cs)"
    and "\<forall>c\<in>set cs. map_of (po_ctrl_params p) (call_fd c) = None"
  shows "tracks interest (fold run_call cs p) k"
  using assms
proof (induction cs arbitrary: p)
  case (Cons c cs)
  then have "tracks interest (run_call c p) k"
      "\<forall>d\<in>set cs. map_of (po_ctrl_params (run_call c p)) (call_fd d) = None"
    using run_call_tracks [OF Cons.prems(1), of c] by (auto simp: image_iff)
  with Cons show ?case by simp
qed simp

subsection \<open>Timeouts\<close>

definition expired :: "int \<Rightarrow> PollRequest \<Rightarrow> bool" where
  "expired d req \<longleftrightarrow> 0 \<le> rq_timeout_ms req \<and> rq_timeout_ms req \<le> d"

definition waited :: "int \<Rightarrow> PollRequest \<Rightarrow> PollRequest" where
  "waited d req = req\<lparr>rq_timeout_ms :=
     (if expired d req then -1
      else if 0 < rq_timeout_ms req then rq_timeout_ms req - d else rq_timeout_ms req)\<rparr>"

definition requests_wf :: "(int \<times> PollRequest) list \<Rightarrow> bool" where
  "requests_wf rs \<longleftrightarrow> distinct (map fst rs) \<and> (\<forall>(fd, req)\<in>set rs. rq_fd req = fd \<and> int32_ok (rq_timeout_ms req))"

abbreviation timed_out :: "int \<Rightarrow> (int \<times> PollRequest) list \<Rightarrow> (int \<times> PollRequest) list" where
  "timed_out d rs \<equiv> filter (\<lambda>(_, req). expired d req) rs"

lemma count_down_eq:
  assumes "0 < d" and "int32_ok d" and "\<forall>(fd, req)\<in>set rs. int32_ok (rq_timeout_ms req)"
  shows "count_down d [] rs =
    Inr (map (\<lambda>(fd, req). (fd, waited d req)) rs, map (\<lambda>(fd, _). (fd, \<lparr>rs_events = 0\<rparr>)) (timed_out d rs))"
  using assms(3)
proof (induction rs)
  case (Cons r rs)
  obtain fd req where r: "r = (fd, req)" by (cases r)
  have "sub32 (rq_timeout_ms req) d = Inr (rq_timeout_ms req - d)" if "0 < rq_timeout_ms req"
    using that assms(1,2) Cons.prems by (auto simp: r sub32_def int32_ok_def)
  with Cons assms(1) show ?case
    by (cases "0 < rq_timeout_ms req") (auto simp: r expired_def waited_def)
qed simp

lemma respond_timeouts:
  assumes "\<forall>(fd, rs)\<in>set rsps. \<exists>req. map_of (po_requests p) fd = Some req \<and> rq_timeout_ms req = -1"
  shows "respond [] rsps p =
    (map (\<lambda>(fd, rs). (rq_callback (the (map_of (po_requests p) fd)), rs_events rs)) rsps, p)"
  using assms
proof (induction rsps)
  case (Cons r rsps)
  obtain fd rs where r: "r = (fd, rs)" by (cases r)
  with Cons.prems obtain req where req: "map_of (po_requests p) fd = Some req" "rq_timeout_ms req = -1"
    by auto
  have "req\<lparr>rq_timeout_ms := -1\<rparr> = req" using req(2) by simp
  with req(1) have "p\<lparr>po_requests := map_put fd (req\<lparr>rq_timeout_ms := -1\<rparr>) (po_requests p)\<rparr> = p"
    by (simp add: map_put_same)
  with Cons req(1) show ?case by (simp add: r Let_def)
qed simp

lemma waited_sel [simp]: "rq_callback (waited d req) = rq_callback req" "rq_fd (waited d req) = rq_fd req"
  by (simp_all add: waited_def)

lemma Poll_quiet:
  assumes "requests_wf (po_requests p)" and "po_ctrl_params p = []" and "d = interval_ms b a" and "0 < d"
  shows "Poll b a [] [] p =
    Inr (map (\<lambda>(_, req). (rq_callback req, 0)) (timed_out d (po_requests p)),
         p\<lparr>po_requests := map (\<lambda>(fd, req). (fd, waited d req)) (po_requests p)\<rparr>)"
proof -
  let ?rs = "po_requests p" and ?w = "map (\<lambda>(fd, req). (fd, waited d req)) (po_requests p)"
  have "int32_ok 1" by (simp add: int32_ok_def)
  then have d: "int32_ok d" by (simp add: assms(3) interval_ms_def Let_def)
  have w: "map_of ?w fd = Some (waited d req)" if "(fd, req) \<in> set ?rs" for fd req
    using that assms(1) by (auto simp: requests_wf_def map_of_map intro: map_of_is_SomeI)
  then have "respond [] (map (\<lambda>(fd, _). (fd, \<lparr>rs_events = 0\<rparr>)) (timed_out d ?rs)) (p\<lparr>po_requests := ?w\<rparr>) =
      (map (\<lambda>(fd, rs). (rq_callback (the (map_of ?w fd)), rs_events rs))
         (map (\<lambda>(fd, _). (fd, \<lparr>rs_events = 0\<rparr>)) (timed_out d ?rs)), p\<lparr>po_requests := ?w\<rparr>)"
    by (subst respond_timeouts) (force simp: waited_def)+
  also have "map (\<lambda>(fd, rs). (rq_callback (the (map_of ?w fd)), rs_events rs))
         (map (\<lambda>(fd, _). (fd, \<lparr>rs_events = 0\<rparr>)) (timed_out d ?rs)) =
      map (\<lambda>(_, req). (rq_callback req, 0)) (timed_out d ?rs)"
    using w by (auto simp: case_prod_beta)
  finally have respond: "respond [] (map (\<lambda>(fd, _). (fd, \<lparr>rs_events = 0\<rparr>)) (timed_out d ?rs)) (p\<lparr>po_requests := ?w\<rparr>) =
      (map (\<lambda>(_, req). (rq_callback req, 0)) (timed_out d ?rs), p\<lparr>po_requests := ?w\<rparr>)" .
  have "\<forall>(fd, req)\<in>set ?rs. int32_ok (rq_timeout_ms req)" using assms(1) by (auto simp: requests_wf_def)
  from count_down_eq [OF assms(4) d this] respond show ?thesis
    unfolding Poll_def assms(2) assms(3) [symmetric] by simp
qed

text \<open>A sequence of rounds without events; the readings of the clock are the arguments.\<close>

fun quiet_polls :: "(u64 \<times> u64) list \<Rightarrow> Poller \<Rightarrow> (nat option \<times> u32) list list res" where
  "quiet_polls [] p = Inr []"
| "quiet_polls ((b, a) # ts) p =
     bindE (Poll b a [] [] p) (\<lambda>(calls, p'). bindE (quiet_polls ts p') (\<lambda>cs. Inr (calls # cs)))"

abbreviation intervals :: "(u64 \<times> u64) list \<Rightarrow> int list" where
  "intervals ts \<equiv> map (\<lambda>(b, a). interval_ms b a) ts"

lemma requests_wf_waited:
  assumes "requests_wf rs" and "0 < d" and "int32_ok d"
  shows "requests_wf (map (\<lambda>(fd, req). (fd, waited d req)) rs)"
proof -
  have "map fst (map (\<lambda>(fd, req). (fd, waited d req)) rs) = map fst rs" by (simp add: case_prod_beta)
  moreover have "int32_ok (rq_timeout_ms (waited d req))" if "int32_ok (rq_timeout_ms req)" for req
    using that assms(2,3) by (auto simp: waited_def int32_ok_def)
  ultimately show ?thesis
    using assms(1) by (auto simp: requests_wf_def simp del: map_map)
qed

text \<open>Exactly the round in which the time runs out calls back, and only once.\<close>

definition fires_at :: "int \<Rightarrow> int list \<Rightarrow> nat \<Rightarrow> bool" where
  "fires_at t ds i \<longleftrightarrow> 0 \<le> t \<and> (sum_list (take i ds) < t \<or> t = 0 \<and> i = 0) \<and> t \<le> sum_list (take (Suc i) ds)"

lemma fires_at_Suc:
  assumes "0 < d" and "i < length ds" and "\<forall>d\<in>set ds. 0 < d"
  shows "fires_at t (d # ds) (Suc i) \<longleftrightarrow> fires_at (if 0 \<le> t \<and> t \<le> d then -1 else if 0 < t then t - d else t) ds i"
proof -
  have "0 \<le> sum_list (take i ds)" using assms(3) by (intro sum_list_nonneg) (auto dest!: in_set_takeD intro: less_imp_le)
  with assms(1) show ?thesis by (auto simp: fires_at_def)
qed

lemma fires_at_0: "0 < d \<Longrightarrow> fires_at t (d # ds) 0 \<longleftrightarrow> 0 \<le> t \<and> t \<le> d"
  by (auto simp: fires_at_def)

lemma interval_int32: "int32_ok (interval_ms b a)"
proof -
  have "int32_ok 1" by (simp add: int32_ok_def)
  then show ?thesis by (simp add: interval_ms_def Let_def)
qed

lemma quiet_polls_calls:
  assumes "requests_wf (po_requests p)" and "po_ctrl_params p = []" and "\<forall>d\<in>set (intervals ts). 0 < d"
    and "(fd, req) \<in> set (po_requests p)"
    and "\<forall>(fd', req')\<in>set (po_requests p). rq_callback req' = rq_callback req \<longrightarrow> fd' = fd"
  shows "\<exists>cs. quiet_polls ts p = Inr cs \<and> length cs = length ts \<and>
    (\<forall>i<length ts. ((rq_callback req, 0) \<in> set (cs ! i)) = fires_at (rq_timeout_ms req) (intervals ts) i)"
  using assms
proof (induction ts arbitrary: p req)
  case (Cons ba ts)
  obtain b a where ba: "ba = (b, a)" by (cases ba)
  let ?d = "interval_ms b a"
  let ?rs = "po_requests p" and ?w = "map (\<lambda>(fd, req). (fd, waited (interval_ms b a) req)) (po_requests p)"
  let ?p = "p\<lparr>po_requests := ?w\<rparr>"
  let ?calls = "map (\<lambda>(_, req). (rq_callback req, 0)) (timed_out ?d ?rs)"
  have d: "0 < ?d" using Cons.prems(3) by (simp add: ba)
  have poll: "Poll b a [] [] p = Inr (?calls, ?p)"
    using Poll_quiet [OF Cons.prems(1,2) refl d] .
  have unique: "req' = req" if "(fd', req') \<in> set ?rs" "rq_callback req' = rq_callback req" for fd' req'
  proof -
    have "fd' = fd" using Cons.prems(5) that by auto
    with that(1) Cons.prems(1,4) show ?thesis by (auto simp: requests_wf_def dest: eq_key_imp_eq_value)
  qed
  then have now: "((rq_callback req, 0) \<in> set ?calls) = fires_at (rq_timeout_ms req) (intervals (ba # ts)) 0"
    using Cons.prems(4) d by (force simp: ba fires_at_0 expired_def)
  have "\<exists>cs. quiet_polls ts ?p = Inr cs \<and> length cs = length ts \<and>
      (\<forall>i<length ts. ((rq_callback (waited ?d req), 0) \<in> set (cs ! i)) =
         fires_at (rq_timeout_ms (waited ?d req)) (intervals ts) i)"
    using Cons.prems requests_wf_waited [OF Cons.prems(1) d interval_int32]
    by (intro Cons.IH) (auto simp: ba)
  then obtain cs where cs: "quiet_polls ts ?p = Inr cs" "length cs = length ts"
      "\<forall>i<length ts. ((rq_callback req, 0) \<in> set (cs ! i)) =
         fires_at (rq_timeout_ms (waited ?d req)) (intervals ts) i" by auto
  have later: "((rq_callback req, 0) \<in> set (cs ! i)) = fires_at (rq_timeout_ms req) (intervals (ba # ts)) (Suc i)"
    if "i < length ts" for i
    using cs(3) that fires_at_Suc [OF d, of i "intervals ts" "rq_timeout_ms req"] Cons.prems(3)
    by (simp add: ba waited_def expired_def)
  show ?case
  proof (intro exI [of _ "?calls # cs"] conjI allI impI)
    show "quiet_polls (ba # ts) p = Inr (?calls # cs)" using poll cs(1) by (simp add: ba)
    show "length (?calls # cs) = length (ba # ts)" using cs(2) by simp
    show "((rq_callback req, 0) \<in> set ((?calls # cs) ! i)) = fires_at (rq_timeout_ms req) (intervals (ba # ts)) i"
      if "i < length (ba # ts)" for i
      using that now later by (cases i) simp_all
  qed
qed simp


subsection \<open>The instance\<close>

text \<open>There is one poller: every call of \<open>Instance\<close> returns what the first one returned.\<close>

lemma Poller_Instance_single:
  "Poller_Instance sys memory s = (r, s') \<Longrightarrow> Poller_Instance sys' memory' s' = (r, s')"
  unfolding Poller_Instance_def by (rule static_get_stable)

lemma Poller_Instance_created:
  "\<exists>p. Poller_Instance sys True \<lparr>si_ins = None, si_once = False\<rparr> = (Some p, \<lparr>si_ins = Some p, si_once = True\<rparr>)"
  by (auto simp: Poller_Instance_def static_get_def Poller_new_def Poller_Init_def Poller_blank_def Clear_def Let_def
      split: option.splits prod.splits if_splits)

section \<open>Properties\<close>

text \<open>The interest list of the kernel follows the registrations. If no descriptor is registered
  or unregistered twice between two runs of \<open>HandleChanges\<close>, then after the next run the kernel
  watches exactly the registered descriptors, each for the events of its last registration.\<close>

theorem interest_follows_requests:
  assumes "epoll_ok ctl interest" and "tracks interest p k" and "distinct (map call_fd cs)"
    and "\<forall>c\<in>set cs. map_of (po_ctrl_params p) (call_fd c) = None"
    and "HandleChanges ctl (fold run_call cs p) k = (p', k')"
  shows "interest k' = wanted p' \<and> po_ctrl_params p' = [] \<and> tracks interest p' k'"
proof -
  let ?p = "fold run_call cs p"
  have tr: "tracks interest ?p k" by (rule run_calls_tracks [OF assms(2-4)])
  then have wf: "ctrl_wf ?p" by (simp add: tracks_def)
  have p': "p' = ?p\<lparr>po_ctrl_params := []\<rparr>" using HandleChanges_interest(2) [OF assms(1) wf assms(5)] by simp
  have "interest k' fd = wanted p' fd" for fd
    using HandleChanges_interest(1) [OF assms(1) wf assms(5), of fd] tr
    by (simp add: tracks_def p' wanted_def)
  then show ?thesis by (auto simp: p' tracks_def ctrl_wf_def wanted_def)
qed

text \<open>Registering a new descriptor twice before the poller thread has run \<open>HandleChanges\<close> loses
  it: the second call replaces the pending addition by a modification, which the kernel
  rejects. The descriptor is listed in \<open>requests_\<close> but not watched, and registering it again
  later does not help, since that again is a modification.\<close>

theorem double_register_lost:
  assumes "epoll_ok ctl interest" and "ctrl_wf p" and "\<not> po_is_shutdown p"
    and "map_of (po_requests p) fd = None" and "interest k fd = None"
    and "fd \<ge> 0" and "rq_fd r1 = fd" and "rq_fd r2 = fd" and "rq_fd r3 = fd"
    and "rq_callback r1 \<noteq> None" and "rq_callback r2 \<noteq> None" and "rq_callback r3 \<noteq> None"
    and "Register o1 n r1 p = (b1, p1)" and "Register o2 n r2 p1 = (b2, p2)"
    and "HandleChanges ctl p2 k = (p3, k3)"
    and "Register o3 n r3 p3 = (b4, p4)" and "HandleChanges ctl p4 k3 = (p5, k5)"
  shows "b1 \<and> b2 \<and> wanted p3 fd = Some (rq_events r2) \<and> interest k3 fd = None \<and>
     b4 \<and> wanted p5 fd = Some (rq_events r3) \<and> interest k5 fd = None"
proof -
  let ?mod = "\<lambda>r. \<lparr>cp_operation = EPOLL_CTL_MOD, cp_fd = fd, cp_events = rq_events r\<rparr>"
  have p1: "b1" "map_of (po_requests p1) fd = Some r1" "\<not> po_is_shutdown p1" "ctrl_wf p1"
    using assms(2-4,6,7,10,13) ctrl_wf_put [OF assms(2), of _ fd p1] by (auto simp: Register_def Let_def)
  then have p2: "b2" "map_of (po_requests p2) fd = Some r2" "\<not> po_is_shutdown p2" "ctrl_wf p2"
      "map_of (po_ctrl_params p2) fd = Some (?mod r2)"
    using assms(6,8,11,14) ctrl_wf_put [OF p1(4), of "?mod r2" fd p2] by (auto simp: Register_def Let_def)
  note h3 = HandleChanges_interest [OF assms(1) p2(4) assms(15)]
  have p3: "interest k3 fd = None" "wanted p3 fd = Some (rq_events r2)" "\<not> po_is_shutdown p3"
      "map_of (po_requests p3) fd = Some r2" "ctrl_wf p3"
    using h3(1) [of fd] h3(2) p2 assms(5) by (simp_all add: wanted_def ctrl_wf_def)
  then have p4: "b4" "map_of (po_requests p4) fd = Some r3" "ctrl_wf p4"
      "map_of (po_ctrl_params p4) fd = Some (?mod r3)"
    using assms(6,9,12,16) ctrl_wf_put [OF p3(5), of "?mod r3" fd p4] by (auto simp: Register_def Let_def)
  note h5 = HandleChanges_interest [OF assms(1) p4(3) assms(17)]
  have "interest k5 fd = None" "wanted p5 fd = Some (rq_events r3)"
    using h5(1) [of fd] h5(2) p3(1) p4 by (simp_all add: wanted_def)
  with p1 p2 p3 p4 show ?thesis by simp
qed

text \<open>Unregistering a watched descriptor and registering it again before \<open>HandleChanges\<close> has run
  leaves the old events in the kernel: the pending deletion is replaced by an addition, which
  the kernel rejects because the descriptor is still there.\<close>

theorem reregister_keeps_old_events:
  assumes "epoll_ok ctl interest" and "ctrl_wf p" and "\<not> po_is_shutdown p"
    and "map_of (po_requests p) fd = Some r0" and "interest k fd = Some old"
    and "fd \<ge> 0" and "rq_fd r1 = fd" and "rq_fd r2 = fd"
    and "rq_callback r1 \<noteq> None" and "rq_callback r2 \<noteq> None"
    and "Unregister garbage o1 n r1 p = (b1, p1)" and "Register o2 n r2 p1 = (b2, p2)"
    and "HandleChanges ctl p2 k = (p3, k3)"
  shows "b1 \<and> b2 \<and> wanted p3 fd = Some (rq_events r2) \<and> interest k3 fd = Some old"
proof -
  let ?add = "\<lparr>cp_operation = EPOLL_CTL_ADD, cp_fd = fd, cp_events = rq_events r2\<rparr>"
  have p1: "b1" "map_of (po_requests p1) fd = None" "\<not> po_is_shutdown p1" "ctrl_wf p1"
    using assms(3,4,6,7,9,11) ctrl_wf_put [OF assms(2), of _ fd p1] by (auto simp: Unregister_def Let_def)
  then have p2: "b2" "map_of (po_requests p2) fd = Some r2" "ctrl_wf p2"
      "map_of (po_ctrl_params p2) fd = Some ?add"
    using assms(6,8,10,12) ctrl_wf_put [OF p1(4), of ?add fd p2] by (auto simp: Register_def Let_def)
  note h = HandleChanges_interest [OF assms(1) p2(3) assms(13)]
  show ?thesis
    using h(1) [of fd] h(2) p1 p2 assms(5) by (simp add: wanted_def)
qed

text \<open>(C34) A request times out when its time is over and once only. In a sequence of rounds without
  events, its callback is called, with no events, in exactly the round in which the measured
  intervals add up to at least its timeout (at once for a timeout of zero, never for a negative
  one).\<close>

theorem timeout_fires_once:
  assumes "requests_wf (po_requests p)" and "po_ctrl_params p = []" and "\<forall>d\<in>set (intervals ts). 0 < d"
    and "(fd, req) \<in> set (po_requests p)"
    and "\<forall>(fd', req')\<in>set (po_requests p). rq_callback req' = rq_callback req \<longrightarrow> fd' = fd"
  shows "\<exists>cs. quiet_polls ts p = Inr cs \<and> length cs = length ts \<and>
    (\<forall>i<length ts. ((rq_callback req, 0) \<in> set (cs ! i)) \<longleftrightarrow>
       0 \<le> rq_timeout_ms req \<and>
       (sum_list (take i (intervals ts)) < rq_timeout_ms req \<or> rq_timeout_ms req = 0 \<and> i = 0) \<and>
       rq_timeout_ms req \<le> sum_list (take (Suc i) (intervals ts)))"
  using quiet_polls_calls [OF assms] by (simp only: fires_at_def)

text \<open>The wait of a round is bounded: it is at least 0, at most \<open>kPollTimeoutMs\<close> and at most the
  timeout of every request that has one, and it is the largest such value.\<close>

theorem GetTimeoutMs_bounds:
  "0 \<le> GetTimeoutMs p \<and> GetTimeoutMs p \<le> 100 \<and>
   (\<forall>(fd, req)\<in>set (po_requests p). 0 \<le> rq_timeout_ms req \<longrightarrow> GetTimeoutMs p \<le> rq_timeout_ms req) \<and>
   (GetTimeoutMs p = 100 \<or> (\<exists>(fd, req)\<in>set (po_requests p). GetTimeoutMs p = rq_timeout_ms req))"
proof -
  let ?f = "\<lambda>(_ :: int, req) t. if rq_timeout_ms req \<ge> 0 \<and> rq_timeout_ms req < t then rq_timeout_ms req else t"
  have "0 \<le> fold ?f rs t \<and> fold ?f rs t \<le> t \<and>
      (\<forall>(fd, req)\<in>set rs. 0 \<le> rq_timeout_ms req \<longrightarrow> fold ?f rs t \<le> rq_timeout_ms req) \<and>
      (fold ?f rs t = t \<or> (\<exists>(fd, req)\<in>set rs. fold ?f rs t = rq_timeout_ms req))" if "0 \<le> t" for rs t
    using that
  proof (induction rs arbitrary: t)
    case (Cons r rs)
    obtain fd req where r: "r = (fd, req)" by (cases r)
    show ?case
    proof (cases "0 \<le> rq_timeout_ms req \<and> rq_timeout_ms req < t")
      case True
      with Cons.IH [of "rq_timeout_ms req"] show ?thesis by (auto simp: r)
    next
      case False
      with Cons.IH [OF Cons.prems] show ?thesis by (auto simp: r)
    qed
  qed simp
  from this [of 100 "po_requests p"] show ?thesis by (simp add: GetTimeoutMs_def)
qed

text \<open>A poller whose initialisation failed, or that was shut down, is inert: it holds no
  requests and no descriptors, and \<open>Register\<close> and \<open>Unregister\<close> return \<open>false\<close> without a change.
  Shutting down always completes, and a second time does nothing.\<close>

theorem Shutdown_makes_inert:
  assumes "Poller_Init sys Poller_blank = (ok, p0)"
  shows "\<exists>p. Poller_Shutdown (if ok then p0 else the (Clear p0)) = Some p \<and> po_is_shutdown p \<and> \<not> po_running p \<and>
     po_requests p = [] \<and> po_ctrl_params p = [] \<and> po_epoll_fd p < 0 \<and> po_pipe_fd0 p < 0 \<and> po_pipe_fd1 p < 0 \<and>
     Register o1 n req p = (False, p) \<and> Unregister g o1 n req p = (False, p) \<and> Poller_Shutdown p = Some p"
  using assms
  by (auto simp: Poller_Init_def Poller_blank_def Let_def Poller_Shutdown_def Clear_def Register_def Unregister_def
      split: if_splits option.splits)

subsection \<open>Witnesses\<close>

text \<open>An epoll instance as its interest list, and a started poller.\<close>

definition kernel_ctl :: "(int \<Rightarrow> u32 option) epoll_ctl" where
  "kernel_ctl op fd ev k =
     (case op of
        EPOLL_CTL_ADD \<Rightarrow> if k fd = None then (True, k(fd \<mapsto> ev)) else (False, k)
      | EPOLL_CTL_MOD \<Rightarrow> if k fd = None then (False, k) else (True, k(fd \<mapsto> ev))
      | EPOLL_CTL_DEL \<Rightarrow> if k fd = None then (False, k) else (True, k(fd := None)))"

lemma kernel_ok: "epoll_ok kernel_ctl (\<lambda>k. k)"
  by (auto simp: epoll_ok_def kernel_ctl_def)

definition good_calls :: init_results where
  "good_calls = \<lparr>ir_epoll_create = 3, ir_pipe = Some (4, 5), ir_fcntl0 = 0, ir_fcntl1 = 0\<rparr>"

definition fresh_poller :: Poller where
  "fresh_poller = snd (Poller_Init good_calls Poller_blank)"

lemma fresh_poller_eq: "fresh_poller =
    \<lparr>po_epoll_fd = 3, po_pipe_fd0 = 4, po_pipe_fd1 = 5, po_pipe_bytes = 0, po_is_shutdown = False, po_running = True,
     po_requests = [(4, \<lparr>rq_fd = 4, rq_events = 1, rq_timeout_ms = -1, rq_callback = Some 0\<rparr>)],
     po_ctrl_params = [(4, \<lparr>cp_operation = EPOLL_CTL_ADD, cp_fd = 4, cp_events = 1\<rparr>)]\<rparr>"
  by (simp add: fresh_poller_def good_calls_def Poller_Init_def Poller_blank_def)

definition request :: "int \<Rightarrow> u32 \<Rightarrow> int \<Rightarrow> PollRequest" where
  "request fd ev t = \<lparr>rq_fd = fd, rq_events = ev, rq_timeout_ms = t, rq_callback = Some (nat fd)\<rparr>"

lemma fresh_tracks: "tracks (\<lambda>k. k) fresh_poller (\<lambda>_. None)"
  by (simp add: tracks_def ctrl_wf_def wanted_def fresh_poller_eq)

theorem interest_follows_requests_witness:
  "let (p', k') = HandleChanges kernel_ctl (fold run_call [CRegister (request 7 1 50), CRegister (request 8 1 (-1))] fresh_poller) (\<lambda>_. None)
   in k' = wanted p' \<and> k' 7 = Some 1"
proof -
  let ?p = "fold run_call [CRegister (request 7 1 50), CRegister (request 8 1 (-1))] fresh_poller"
  obtain p' k' where h: "HandleChanges kernel_ctl ?p (\<lambda>_. None) = (p', k')" by (cases "HandleChanges kernel_ctl ?p (\<lambda>_. None)")
  have "k' = wanted p'"
    using interest_follows_requests [OF kernel_ok fresh_tracks _ _ h] by (simp add: request_def fresh_poller_eq)
  moreover have "k' 7 = Some 1"
    using h by (auto simp: HandleChanges_def Register_def request_def fresh_poller_eq Notify_def kernel_ctl_def)
  ultimately show ?thesis by (simp only: h prod.case) simp
qed

theorem double_register_lost_witness:
  "let p1 = snd (Register True 9 (request 7 1 0) fresh_poller); p2 = snd (Register True 9 (request 7 4 0) p1);
       (p3, k3) = HandleChanges kernel_ctl p2 (\<lambda>_. None)
   in wanted p3 7 = Some 4 \<and> k3 7 = None"
proof -
  let ?p1 = "snd (Register True 9 (request 7 1 0) fresh_poller)"
  let ?p2 = "snd (Register True 9 (request 7 4 0) ?p1)"
  obtain p3 k3 where h: "HandleChanges kernel_ctl ?p2 (\<lambda>_. None) = (p3, k3)" by (cases "HandleChanges kernel_ctl ?p2 (\<lambda>_. None)")
  obtain b4 p4 where r: "Register True 9 (request 7 1 0) p3 = (b4, p4)" by (cases "Register True 9 (request 7 1 0) p3")
  obtain p5 k5 where h5: "HandleChanges kernel_ctl p4 k3 = (p5, k5)" by (cases "HandleChanges kernel_ctl p4 k3")
  have "ctrl_wf fresh_poller" "\<not> po_is_shutdown fresh_poller" "map_of (po_requests fresh_poller) 7 = None"
    by (simp_all add: ctrl_wf_def fresh_poller_eq)
  then have "wanted p3 7 = Some 4 \<and> k3 7 = None"
    using double_register_lost [OF kernel_ok _ _ _ _ _ _ _ _ _ _ _ prod.collapse [symmetric] prod.collapse [symmetric] h r h5]
    by (simp add: request_def)
  then show ?thesis by (simp only: Let_def h prod.case)
qed

theorem reregister_keeps_old_events_witness:
  "let p = fresh_poller\<lparr>po_requests := [(7, request 7 1 0)], po_ctrl_params := []\<rparr>;
       p1 = snd (Unregister 0 True 9 (request 7 1 0) p); p2 = snd (Register True 9 (request 7 4 0) p1);
       (p3, k3) = HandleChanges kernel_ctl p2 [7 \<mapsto> 1]
   in wanted p3 7 = Some 4 \<and> k3 7 = Some 1"
proof -
  let ?p = "fresh_poller\<lparr>po_requests := [(7, request 7 1 0)], po_ctrl_params := []\<rparr>"
  let ?p1 = "snd (Unregister 0 True 9 (request 7 1 0) ?p)"
  let ?p2 = "snd (Register True 9 (request 7 4 0) ?p1)"
  obtain p3 k3 where h: "HandleChanges kernel_ctl ?p2 [7 \<mapsto> 1] = (p3, k3)" by (cases "HandleChanges kernel_ctl ?p2 [7 \<mapsto> 1]")
  have "ctrl_wf ?p" "\<not> po_is_shutdown ?p" "map_of (po_requests ?p) 7 = Some (request 7 1 0)"
    by (simp_all add: ctrl_wf_def fresh_poller_eq)
  then have "wanted p3 7 = Some 4 \<and> k3 7 = Some 1"
    using reregister_keeps_old_events [OF kernel_ok _ _ _ _ _ _ _ _ _ prod.collapse [symmetric] prod.collapse [symmetric] h]
    by (simp add: request_def)
  then show ?thesis by (simp only: Let_def h prod.case)
qed

definition waiting_poller :: Poller where
  "waiting_poller = fresh_poller\<lparr>po_requests := [(4, request 4 1 (-1)), (7, request 7 1 30)], po_ctrl_params := []\<rparr>"

text \<open>Two rounds of 20 milliseconds; a request with a timeout of 30 is called in the second.\<close>

theorem timeout_fires_once_witness:
  "\<exists>c0 c1. quiet_polls [(0, 20000000), (20000000, 40000000)] waiting_poller = Inr [c0, c1] \<and>
     (Some 7, 0) \<notin> set c0 \<and> (Some 7, 0) \<in> set c1"
proof -
  have d: "intervals [(0, 20000000), (20000000, 40000000)] = [20, 20]"
    by (simp add: interval_ms_def to_int32_def)
  have "requests_wf (po_requests waiting_poller)" "po_ctrl_params waiting_poller = []"
    by (simp_all add: waiting_poller_def requests_wf_def request_def int32_ok_def)
  moreover have "(7, request 7 1 30) \<in> set (po_requests waiting_poller)"
    "\<forall>(fd', req')\<in>set (po_requests waiting_poller). rq_callback req' = rq_callback (request 7 1 30) \<longrightarrow> fd' = 7"
    by (simp_all add: waiting_poller_def request_def)
  moreover have "\<forall>d\<in>set (intervals [(0, 20000000), (20000000, 40000000)]). 0 < d" by (simp only: d) simp
  ultimately obtain cs where cs: "quiet_polls [(0, 20000000), (20000000, 40000000)] waiting_poller = Inr cs" "length cs = 2"
      "\<forall>i<2. ((Some 7, 0) \<in> set (cs ! i)) \<longleftrightarrow> sum_list (take i [20, 20]) < (30 :: int) \<and> (30 :: int) \<le> sum_list (take (Suc i) [20, 20])"
    using timeout_fires_once [of waiting_poller "[(0, 20000000), (20000000, 40000000)]" 7 "request 7 1 30"]
    unfolding d by (auto simp: request_def simp del: quiet_polls.simps)
  from cs(2) obtain c0 c1 where "cs = [c0, c1]" by (auto simp: numeral_2_eq_2 length_Suc_conv)
  with cs(1) cs(3) [rule_format, of 0] cs(3) [rule_format, of 1] show ?thesis by (auto simp del: quiet_polls.simps)
qed

theorem GetTimeoutMs_bounds_witness:
  "GetTimeoutMs waiting_poller \<le> 30"
  using GetTimeoutMs_bounds [of waiting_poller] by (simp add: waiting_poller_def request_def)

theorem Shutdown_makes_inert_witness:
  "\<exists>p. Poller_Shutdown fresh_poller = Some p \<and> Register True 9 (request 7 1 0) p = (False, p)"
proof -
  have "Poller_Init good_calls Poller_blank = (True, fresh_poller)"
    by (simp add: fresh_poller_eq good_calls_def Poller_Init_def Poller_blank_def)
  from Shutdown_makes_inert [OF this, of True 9 "request 7 1 0"] show ?thesis by auto
qed

end
