(* ===== verification/Duplex_Io.thy ===== *)
theory Duplex_Io
  imports Node Net_Msg Poller
begin

text \<open>
  Input and output of the duplex nodes: the tun device (\<open>src/src/util/node_tun.h\<close>,
  \<open>node_tun.cc\<close>), the socket of the UDP node (\<open>node_udp.h\<close>, \<open>node_udp.cc\<close>), the
  descriptor they own (class \<open>FullDuplex\<close> of \<open>node.h\<close>) and their registration at the poller
  (\<open>RegisterToPoller\<close> of \<open>node_duplex.h\<close>).

  The results of the system calls are arguments. What is written to a descriptor is the list of
  the byte strings passed to \<open>write\<close>. Loops take a number of iterations as fuel and are
  \<^term>\<open>None\<close> when it is used up.
\<close>

unbundle bit_operations_syntax

section \<open>Model\<close>

subsection \<open>The descriptor\<close>

text \<open>The descriptor, and the arguments of the calls of \<open>close\<close> so far.\<close>

record FullDuplex =
  fd_fd :: int
  fd_closed :: "int list"

definition FullDuplex_new :: FullDuplex where
  "FullDuplex_new = \<lparr>fd_fd = -1, fd_closed = []\<rparr>"

definition close_fd :: "int \<Rightarrow> FullDuplex \<Rightarrow> FullDuplex" where
  "close_fd fd x = x\<lparr>fd_closed := fd_closed x @ [fd]\<rparr>"

definition FullDuplex_destroy :: "FullDuplex \<Rightarrow> FullDuplex" where
  "FullDuplex_destroy x = (if fd_fd x \<noteq> -1 then close_fd (fd_fd x) x else x)"

text \<open>
  \<open>Tun::Init\<close>; the shell commands that configure the interface are not observed. The flag
  \<open>is_stop_\<close> of the node is the second component.
\<close>

definition Tun_Init :: "int \<Rightarrow> int \<Rightarrow> bool \<Rightarrow> FullDuplex \<Rightarrow> bool \<times> bool \<times> FullDuplex" where
  "Tun_Init opened ioctl_result is_stop x =
     (let x1 = x\<lparr>fd_fd := opened\<rparr> in
      if fd_fd x1 < 0 then (False, is_stop, x1)
      else if ioctl_result < 0 then (False, is_stop, close_fd (fd_fd x1) x1)
      else (True, False, x1))"

definition Udp_Init :: "int \<Rightarrow> int \<Rightarrow> int \<Rightarrow> int \<Rightarrow> bool \<Rightarrow> FullDuplex \<Rightarrow> bool \<times> bool \<times> FullDuplex" where
  "Udp_Init socket_result reuseaddr reuseport bind_result is_stop x =
     (let x1 = x\<lparr>fd_fd := socket_result\<rparr> in
      if fd_fd x1 < 0 then (False, is_stop, x1)
      else if reuseaddr < 0 then (False, is_stop, x1)
      else if reuseport < 0 then (False, is_stop, x1)
      else if bind_result < 0 then (False, is_stop, x1)
      else (True, False, x1))"

text \<open>
  The constructors of \<open>Tun\<close> and \<open>Udp\<close>: if \<open>Init\<close> fails they throw, and the base
  \<open>FullDuplex\<close>, already constructed, is destroyed.
\<close>

definition Tun_new :: "int \<Rightarrow> int \<Rightarrow> (bool \<times> FullDuplex) res \<times> FullDuplex" where
  "Tun_new opened ioctl_result =
     (case Tun_Init opened ioctl_result True FullDuplex_new of (ok, stop, x) \<Rightarrow>
        if ok then (Inr (stop, x), x)
        else (Inl (runtime_error ''TUN node init failed.''), FullDuplex_destroy x))"

definition Udp_new :: "int \<Rightarrow> int \<Rightarrow> int \<Rightarrow> int \<Rightarrow> (bool \<times> FullDuplex) res \<times> FullDuplex" where
  "Udp_new socket_result reuseaddr reuseport bind_result =
     (case Udp_Init socket_result reuseaddr reuseport bind_result True FullDuplex_new of (ok, stop, x) \<Rightarrow>
        if ok then (Inr (stop, x), x)
        else (Inl (runtime_error ''UDP node init failed.''), FullDuplex_destroy x))"

subsection \<open>Receiving from the tun device\<close>

text \<open>
  \<open>FDRecv\<close>: \<open>input\<close> is the negative result of \<open>read\<close> or the bytes read, at most as many as
  the buffer holds. \<open>blank\<close> is the new message, whose members are uninitialised.
\<close>

definition Tun_FDRecv :: "growth \<Rightarrow> 'f NetworkMsg_scheme \<Rightarrow> int + u8 list \<Rightarrow> nat \<Rightarrow>
    ('f NetworkMsg_ext, 'x) world \<Rightarrow> (int \<times> ('f NetworkMsg_ext, 'x) world) act" where
  "Tun_FDRecv g blank input i w =
     (case input of
        Inl ret \<Rightarrow> done_act (ret, w)
      | Inr bytes \<Rightarrow>
          let ret = int (length bytes);
              msg = blank\<lparr>m_data := bytes @ drop (length bytes) (m_data blank)\<rparr> in
          bindA (Some (vec_resize g (to_size_t ret) (m_data msg, m_cap msg))) (\<lambda>(xs, c).
          bindA (Some (decode (msg\<lparr>m_data := xs, m_cap := c\<rparr>))) (\<lambda>msg'.
            if \<not> IsIPv4 msg' then done_act (0, w)
            else if ret \<ge> 0
            then bindA (Dispatch i (Some msg') w) (\<lambda>w'. done_act (ret, w'))
            else done_act (ret, w))))"

subsection \<open>Writing to the tun device\<close>

text \<open>
  The loop of \<open>FDWrite\<close> from the frame at offset \<open>off\<close> on: the frames written. The results of
  \<open>write\<close> are only logged.
\<close>

fun frame_loop :: "nat \<Rightarrow> u8 list \<Rightarrow> nat \<Rightarrow> u8 list list act" where
  "frame_loop 0 data off = None"
| "frame_loop (Suc fuel) data off =
     bindA (Some (byte_at data off)) (\<lambda>b0.
       if b0 = 0 then done_act []
       else if ip_v b0 \<noteq> 4 \<and> ip_v b0 \<noteq> 6 then done_act []
       else bindA (Some (net16_at data (off + 2))) (\<lambda>ip_len.
         let frame_size = unat ip_len in
         if off + frame_size > length data \<or> b0 = 0 then done_act []
         else let frame = take frame_size (drop off data);
                  off' = off + frame_size;
                  remain_bytes = int (length data) - int off'
              in if remain_bytes \<le> 20 then done_act [frame]
                 else bindA (frame_loop fuel data off') (\<lambda>frames. done_act (frame # frames))))"

declare frame_loop.simps [simp del]

definition Tun_FDWrite :: "nat \<Rightarrow> 'e msg_ptr \<Rightarrow> (int \<times> u8 list list) act" where
  "Tun_FDWrite fuel msg =
     (case msg of
        None \<Rightarrow> done_act (-1, [])
      | Some m \<Rightarrow> bindA (frame_loop fuel (m_data m) 0) (\<lambda>frames. done_act (msg_size m, frames)))"

subsection \<open>Registration at the poller\<close>

datatype errno = EAGAIN | EWOULDBLOCK | OtherErrno nat

abbreviation (input) EPOLLET :: u32 where
  "EPOLLET \<equiv> 0x80000000"

text \<open>
  The callback: on \<open>EPOLLIN\<close> it receives until the descriptor has no more data. The argument
  lists the results of the successive calls of \<open>FDRecv\<close> with \<open>errno\<close>; the result is how
  many were made, \<^term>\<open>None\<close> if the loop has not ended with them.
\<close>

fun recv_loop :: "(int \<times> errno) list \<Rightarrow> nat option" where
  "recv_loop [] = None"
| "recv_loop ((ret, e) # rest) =
     (if ret < 0 \<and> (e = EAGAIN \<or> e = EWOULDBLOCK) then Some 1 else map_option Suc (recv_loop rest))"

definition poll_callback :: "(int \<times> errno) list \<Rightarrow> PollResponse \<Rightarrow> nat option" where
  "poll_callback results rsp = (if rs_events rsp AND EPOLLIN \<noteq> 0 then recv_loop results else Some 0)"

definition RegisterToPoller :: "nat \<Rightarrow> bool \<Rightarrow> nat \<Rightarrow> FullDuplex \<Rightarrow> Poller \<Rightarrow> (bool \<times> Poller) res" where
  "RegisterToPoller callback owns pipe_size x p =
     (if \<not> fd_fd x > 0 then Inl AssertionFailed
      else Inr (Register owns pipe_size
        \<lparr>rq_fd = fd_fd x, rq_events = EPOLLIN OR EPOLLET, rq_timeout_ms = 0, rq_callback = Some callback\<rparr> p))"

section \<open>Lemmas\<close>

text \<open>A frame whose first bytes are an IP header with its own length, longer than a bare header.\<close>

definition frame_ok :: "u8 list \<Rightarrow> bool" where
  "frame_ok f \<longleftrightarrow> 20 < length f \<and> (ip_v (f ! 0) = 4 \<or> ip_v (f ! 0) = 6) \<and>
     net16_at f 2 = Inr (of_nat (length f)) \<and> length f < 2 ^ 16"

text \<open>What may follow the last frame: too few bytes to be looked at, or padding.\<close>

definition tail_ok :: "u8 list \<Rightarrow> bool" where
  "tail_ok t \<longleftrightarrow> length t \<le> 20 \<or> t ! 0 = 0"

lemma at_append: "k < length f \<Longrightarrow> byte_at (pre @ f @ post) (length pre + k) = Inr (f ! k)"
  by (simp add: byte_at_def nth_append)

lemma net16_append:
  assumes "k + 1 < length f"
  shows "net16_at (pre @ f @ post) (length pre + k) = net16_at f k"
  using at_append [of k f pre post] at_append [of "k + 1" f pre post] assms
  by (simp add: net16_at_def byte_at_def)

lemma frame_loop_frame:
  assumes "frame_ok f"
  shows "frame_loop (Suc fuel) (pre @ f @ post) (length pre) =
    (if length post \<le> 20 then done_act [f]
     else bindA (frame_loop fuel (pre @ f @ post) (length (pre @ f))) (\<lambda>frames. done_act (f # frames)))"
proof -
  have f: "0 < length f" "2 + 1 < length f" "unat (of_nat (length f) :: u16) = length f"
    using assms unat_of_nat [where 'a = 16, of "length f"] by (auto simp: frame_ok_def)
  have "byte_at (pre @ f @ post) (length pre) = Inr (f ! 0)"
    using at_append [OF f(1), of pre post] by simp
  moreover have "net16_at (pre @ f @ post) (length pre + 2) = Inr (of_nat (length f))"
    using net16_append [OF f(2), of pre post] assms by (simp add: frame_ok_def)
  moreover have "f ! 0 \<noteq> 0" using assms by (auto simp: frame_ok_def ip_v_def)
  moreover have "ip_v (f ! 0) = 4 \<or> ip_v (f ! 0) = 6" using assms by (simp add: frame_ok_def)
  ultimately show ?thesis
    using f(3) by (auto simp: frame_loop.simps(2) Let_def)
qed

lemma frame_loop_frames:
  assumes "\<forall>f\<in>set fs. frame_ok f" and "fs \<noteq> []" and "tail_ok t"
  shows "frame_loop (Suc (length fs)) (pre @ concat fs @ t) (length pre) = done_act fs"
  using assms(1,2)
proof (induction fs arbitrary: pre)
  case (Cons f fs)
  have step: "frame_loop (Suc (Suc (length fs))) (pre @ f @ (concat fs @ t)) (length pre) =
      (if length (concat fs @ t) \<le> 20 then done_act [f]
       else bindA (frame_loop (Suc (length fs)) (pre @ f @ (concat fs @ t)) (length (pre @ f)))
              (\<lambda>frames. done_act (f # frames)))"
    using Cons.prems(1) by (intro frame_loop_frame) simp
  show ?case
  proof (cases "fs = []")
    case True
    have "frame_loop (Suc 0) (pre @ f @ t) (length (pre @ f)) = done_act []" if "\<not> length t \<le> 20"
    proof -
      have "byte_at ((pre @ f) @ t @ []) (length (pre @ f) + 0) = Inr (t ! 0)"
        by (rule at_append) (use that in auto)
      moreover have "t ! 0 = 0" using that assms(3) by (simp add: tail_ok_def)
      ultimately show ?thesis by (simp add: frame_loop.simps(2))
    qed
    with step True show ?thesis by simp
  next
    case False
    then obtain f' fs' where fs: "fs = f' # fs'" by (cases fs) auto
    have "20 < length f'" using Cons.prems(1) by (simp add: fs frame_ok_def)
    then have "\<not> length (concat fs @ t) \<le> 20" by (simp add: fs)
    moreover have "frame_loop (Suc (length fs)) ((pre @ f) @ concat fs @ t) (length (pre @ f)) = done_act fs"
      using Cons False by (intro Cons.IH) simp_all
    ultimately show ?thesis using step by simp
  qed
qed simp

text \<open>More fuel does not change what was written.\<close>

lemma frame_loop_mono: "frame_loop fuel data off = Some r \<Longrightarrow> frame_loop (fuel + k) data off = Some r"
proof (induction fuel arbitrary: off r)
  case (Suc fuel)
  then show ?case
    by (auto simp: frame_loop.simps(2) Let_def bindA_def split: option.splits sum.splits if_splits)
qed (simp add: frame_loop.simps(1))

lemma FDWrite_frames:
  assumes "m_data m = concat fs @ t" and "\<forall>f\<in>set fs. frame_ok f" and "fs \<noteq> []" and "tail_ok t"
  shows "Tun_FDWrite (Suc (length fs)) (Some m) = done_act (msg_size m, fs)"
  using frame_loop_frames [OF assms(2-4), of "[]"] assms(1) by (simp add: Tun_FDWrite_def)

section \<open>Properties\<close>

text \<open>\<open>FDWrite\<close> takes a buffer of IP packets apart: for a message that consists of frames, each
  with its own length in its header and more than twenty bytes, followed by zero padding or by
  at most twenty bytes, it writes exactly the frames, one \<open>write\<close> each and in order, and returns
  the size of the message. One more iteration than there are frames is enough.\<close>

theorem FDWrite_unpacks:
  assumes "m_data m = concat fs @ t" and "\<forall>f\<in>set fs. frame_ok f" and "fs \<noteq> []" and "tail_ok t"
  shows "Tun_FDWrite (Suc (length fs)) (Some m) = done_act (msg_size m, fs)"
  by (rule FDWrite_frames [OF assms])

text \<open>A frame whose length field is zero, with more than twenty bytes from it to the end, makes
  \<open>FDWrite\<close> loop forever: it writes nothing and does not advance.\<close>

theorem FDWrite_zero_length_loops:
  assumes "20 < length (m_data m)" and "ip_v (m_data m ! 0) = 4 \<or> ip_v (m_data m ! 0) = 6"
    and "m_data m ! 2 = 0" and "m_data m ! 3 = 0"
  shows "Tun_FDWrite fuel (Some m) = None"
proof -
  have "m_data m ! 0 \<noteq> 0" using assms(2) by (auto simp: ip_v_def)
  moreover have "byte_at (m_data m) 0 = Inr (m_data m ! 0)" "net16_at (m_data m) (Suc (Suc 0)) = Inr 0"
    using assms(1,3,4) by (auto simp: byte_at_def net16_at_def numeral_2_eq_2 numeral_3_eq_3)
  ultimately have "frame_loop fuel (m_data m) 0 = None"
  proof (induction fuel)
    case (Suc fuel)
    then show ?case using assms(1,2) by (auto simp: frame_loop.simps(2) Let_def)
  qed (simp add: frame_loop.simps(1))
  then show ?thesis by (simp add: Tun_FDWrite_def)
qed

text \<open>The receiving callback returns exactly at the first call of \<open>FDRecv\<close> that fails for want
  of data; every other result, also an error of the descriptor or the end of its input, makes it
  call again, so a persistent error keeps the poller thread in the callback forever.\<close>

theorem recv_loop_ends_iff:
  "recv_loop results = Some n \<longleftrightarrow>
     0 < n \<and> n \<le> length results \<and>
     (case results ! (n - 1) of (ret, e) \<Rightarrow> ret < 0 \<and> (e = EAGAIN \<or> e = EWOULDBLOCK)) \<and>
     (\<forall>j<n - 1. case results ! j of (ret, e) \<Rightarrow> \<not> (ret < 0 \<and> (e = EAGAIN \<or> e = EWOULDBLOCK)))"
proof (induction results arbitrary: n)
  case (Cons r rest)
  obtain ret e where r: "r = (ret, e)" by (cases r)
  show ?case
  proof (cases "ret < 0 \<and> (e = EAGAIN \<or> e = EWOULDBLOCK)")
    case True
    then show ?thesis by (cases n; cases "n - 1") (auto simp: r)
  next
    case False
    then have "recv_loop (r # rest) = Some n \<longleftrightarrow> (\<exists>k. n = Suc k \<and> recv_loop rest = Some k)"
      by (auto simp: r)
    also have "\<dots> \<longleftrightarrow> (\<exists>k. n = Suc (Suc k) \<and> recv_loop rest = Some (Suc k))"
      using Cons.IH by (metis gr0_implies_Suc)
    also have "\<dots> \<longleftrightarrow> 0 < n \<and> n \<le> length (r # rest) \<and>
        (case (r # rest) ! (n - 1) of (ret, e) \<Rightarrow> ret < 0 \<and> (e = EAGAIN \<or> e = EWOULDBLOCK)) \<and>
        (\<forall>j<n - 1. case (r # rest) ! j of (ret, e) \<Rightarrow> \<not> (ret < 0 \<and> (e = EAGAIN \<or> e = EWOULDBLOCK)))"
      using False by (cases n; cases "n - 1") (auto simp: Cons.IH r less_Suc_eq_0_disj)
    finally show ?thesis .
  qed
qed auto

text \<open>When the device cannot be configured, \<open>Tun::Init\<close> closes the descriptor but keeps its
  number, the constructor throws, and the destructor of the base class closes the same number
  again; by then it may belong to another file. A UDP node that fails closes its socket once.\<close>

theorem Tun_closes_twice:
  assumes "0 \<le> fd" and "ioctl_result < 0" and "bind_result < 0"
  shows "fd_closed (snd (Tun_new fd ioctl_result)) = [fd, fd] \<and>
     fd_closed (snd (Udp_new fd 0 0 bind_result)) = [fd]"
  using assms
  by (simp add: Tun_new_def Tun_Init_def Udp_new_def Udp_Init_def FullDuplex_destroy_def close_fd_def
      FullDuplex_new_def)

text \<open>\<open>Tun::FDRecv\<close> passes on what was read: the bytes of an IPv4 packet that decodes become a
  message of exactly these bytes, which is dispatched, and their number is returned; other
  packets are dropped with the result 0, and a failed read changes nothing.\<close>

theorem Tun_FDRecv_forwards:
  assumes "length bytes \<le> length (m_data blank)" and "length bytes < 2 ^ 31"
    and "msg = blank\<lparr>m_data := bytes\<rparr>" and "decode msg = Inr msg'"
  shows "Tun_FDRecv g blank (Inr bytes) i w =
      (if IsIPv4 msg'
       then bindA (Dispatch i (Some msg') w) (\<lambda>w'. done_act (int (length bytes), w'))
       else done_act (0, w)) \<and>
    m_data msg' = bytes \<and>
    (ret < 0 \<longrightarrow> Tun_FDRecv g blank (Inl ret) i w = done_act (ret, w))"
proof -
  have "to_size_t (int (length bytes)) = length bytes"
    using assms(2) by (simp add: to_size_t_def)
  then have resize: "vec_resize g (to_size_t (int (length bytes)))
      (bytes @ drop (length bytes) (m_data blank), m_cap blank) = Inr (bytes, m_cap blank)"
    using assms(1) by (simp add: vec_resize_def)
  have "m_data msg' = bytes"
    using decode_data [OF assms(4)] assms(3) by simp
  then show ?thesis
    using assms(3,4) resize by (simp add: Tun_FDRecv_def Let_def BaseMsg.defs)
qed

subsection \<open>Witnesses\<close>

definition small_frame :: "u8 list" where
  "small_frame = [69, 0, 0, 21] @ replicate 17 1"

lemma small_frame_ok: "frame_ok small_frame"
  by (simp add: frame_ok_def small_frame_def ip_v_def net16_at_def byte_at_def)

theorem FDWrite_unpacks_witness:
  "Tun_FDWrite 3 (Some (blank_msg\<lparr>m_data := concat [small_frame, small_frame] @ replicate 30 0\<rparr>)) =
     done_act (72, [small_frame, small_frame])"
proof -
  let ?m = "blank_msg\<lparr>m_data := concat [small_frame, small_frame] @ replicate 30 0\<rparr>"
  have "tail_ok (replicate 30 0)" by (simp add: tail_ok_def)
  then have "Tun_FDWrite (Suc (length [small_frame, small_frame])) (Some ?m) =
      done_act (msg_size ?m, [small_frame, small_frame])"
    by (intro FDWrite_unpacks) (simp_all add: small_frame_ok)
  moreover have "msg_size ?m = 72" by (simp add: msg_size_def small_frame_def to_int32_def)
  ultimately show ?thesis by (simp add: numeral_3_eq_3)
qed

theorem FDWrite_zero_length_loops_witness:
  "Tun_FDWrite 1000 (Some (blank_msg\<lparr>m_data := [69, 0, 0, 0] @ replicate 20 1\<rparr>)) = None"
  by (rule FDWrite_zero_length_loops) (simp_all add: ip_v_def)

theorem recv_loop_ends_iff_witness:
  "recv_loop [(5, EAGAIN), (-1, OtherErrno 9), (-1, EAGAIN)] = Some 3"
  using recv_loop_ends_iff [of "[(5, EAGAIN), (-1, OtherErrno 9), (-1, EAGAIN)]" 3]
  by (simp add: less_Suc_eq numeral_2_eq_2)

theorem Tun_closes_twice_witness:
  "fd_closed (snd (Tun_new 7 (-1))) = [7, 7] \<and> fd_closed (snd (Udp_new 7 0 0 (-1))) = [7]"
  by (rule Tun_closes_twice) simp_all

definition empty_world :: "(unit NetworkMsg_ext, unit) world" where
  "empty_world = \<lparr>w_chans = [], w_nodes = [], w_processor_id = (\<lambda>_. 0), w_ext = ()\<rparr>"

theorem Tun_FDRecv_forwards_witness:
  "\<exists>msg'. decode (net_msg udp_packet) = Inr msg' \<and> m_data msg' = udp_packet \<and>
     Tun_FDRecv (\<lambda>_ n. n) (net_msg udp_packet) (Inl (-1)) 0 empty_world = done_act (-1, empty_world)"
proof -
  have "net_msg udp_packet = (net_msg udp_packet)\<lparr>m_data := udp_packet\<rparr>"
    by (simp add: net_msg_def BaseMsg.defs NetworkMsg.defs)
  moreover obtain msg' where m: "decode (net_msg udp_packet) = Inr msg'"
    by (cases "decode (net_msg udp_packet)")
       (auto simp: decode_def net_msg_def udp_packet_def BaseMsg.defs NetworkMsg.defs blank_msg_def msg_size_def
          to_int32_def MIN_IPHEADER_LEN_def byte_at_def net16_at_def host32_at_def ip_v_def ip_hl_def Let_def IPPROTO_UDP_def)
  moreover have "length udp_packet \<le> length (m_data (net_msg udp_packet))" "length udp_packet < 2 ^ 31"
    by (simp_all add: net_msg_def udp_packet_def BaseMsg.defs)
  ultimately show ?thesis
    using Tun_FDRecv_forwards [of udp_packet "net_msg udp_packet" "net_msg udp_packet" msg' "\<lambda>_ n. n" 0 empty_world "-1"]
    by auto
qed

end
