(* ===== verification/Macros.thy ===== *)
theory Macros
  imports Prelude
begin

text \<open>
  The functions of \<open>src/src/include/macros.h\<close>: milliseconds of a \<open>timeval\<close>, and the conversion
  of 64-bit integers between host and network byte order.

  The compiler intrinsic for swapping bytes is its documented meaning, the value whose bytes in
  memory are those of the argument in reverse; the header has a second version of the same function
  for other compilers, made of masks and shifts. The two are shown to be the same function. The byte
  order of the host is an argument.
\<close>

unbundle bit_operations_syntax

section \<open>Model\<close>

subsection \<open>Time stamps\<close>

text \<open>The members of \<open>timeval\<close> are signed and have 64 bits.\<close>

record timeval =
  tv_sec :: int
  tv_usec :: int

definition long_ok :: "int \<Rightarrow> int res" where
  "long_ok x = (if - (2 ^ 63) \<le> x \<and> x < 2 ^ 63 then Inr x else Inl SignedOverflow)"

definition tv2ms :: "timeval \<Rightarrow> u64 res" where
  "tv2ms tv =
     bindE (long_ok (tv_sec tv * 1000)) (\<lambda>a.
     bindE (long_ok (a + cdiv (tv_usec tv) 1000)) (\<lambda>s.
     let ms = word_of_int s in Inr (if ms \<noteq> 0 then ms else 1)))"

text \<open>\<open>now\<close> is what \<open>gettimeofday\<close> stores.\<close>

definition gettimestamp_ms :: "timeval \<Rightarrow> u64 res" where
  "gettimestamp_ms now = tv2ms now"

subsection \<open>Byte order\<close>

text \<open>The bytes of a word, lowest first, and the word of such bytes.\<close>

definition le_bytes :: "u64 \<Rightarrow> u8 list" where
  "le_bytes x = map (\<lambda>i. ucast (drop_bit (8 * i) x)) [0..<8]"

fun le_word :: "u8 list \<Rightarrow> u64" where
  "le_word [] = 0"
| "le_word (b # bs) = ucast b OR push_bit 8 (le_word bs)"

definition gbswap_64 :: "u64 \<Rightarrow> u64" where
  "gbswap_64 host_int = le_word (rev (le_bytes host_int))"

definition gbswap_64_portable :: "u64 \<Rightarrow> u64" where
  "gbswap_64_portable host_int =
     push_bit 56 (host_int AND 0xFF) OR
     push_bit 40 (host_int AND 0xFF00) OR
     push_bit 24 (host_int AND 0xFF0000) OR
     push_bit 8 (host_int AND 0xFF000000) OR
     drop_bit 8 (host_int AND 0xFF00000000) OR
     drop_bit 24 (host_int AND 0xFF0000000000) OR
     drop_bit 40 (host_int AND 0xFF000000000000) OR
     drop_bit 56 (host_int AND 0xFF00000000000000)"

datatype byte_order = LITTLE_ENDIAN | BIG_ENDIAN

definition htonll :: "byte_order \<Rightarrow> u64 \<Rightarrow> u64" where
  "htonll order x = (case order of LITTLE_ENDIAN \<Rightarrow> gbswap_64 x | BIG_ENDIAN \<Rightarrow> x)"

definition ntohll :: "byte_order \<Rightarrow> u64 \<Rightarrow> u64" where
  "ntohll order x = htonll order x"

section \<open>Lemmas\<close>

lemma le_word_bit:
  "bit (le_word bs) n \<longleftrightarrow> n < 64 \<and> n div 8 < length bs \<and> bit (bs ! (n div 8)) (n mod 8)"
proof (induction bs arbitrary: n)
  case (Cons b bs)
  show ?case
  proof (cases "n < 8")
    case True
    then show ?thesis by (simp add: bit_simps)
  next
    case False
    then obtain k where n: "n = k + 8" by (metis add.commute le_Suc_ex not_less)
    then have "n div 8 = Suc (k div 8)" by simp
    then show ?thesis
      using Cons.IH [of k] bit_imp_le_length [of b "k + 8"] by (auto simp: n bit_simps)
  qed
qed simp

lemma le_bytes_bit: "i < 8 \<Longrightarrow> k < 8 \<Longrightarrow> bit (le_bytes x ! i) k \<longleftrightarrow> bit x (8 * i + k)"
  by (simp add: le_bytes_def bit_simps)

lemma le_bytes_length [simp]: "length (le_bytes x) = 8"
  by (simp add: le_bytes_def)

lemma le_word_bytes [simp]: "le_word (le_bytes x) = x"
  by (rule bit_word_eqI) (simp add: le_word_bit le_bytes_bit less_mult_imp_div_less)

lemma le_bytes_word [simp]: "length bs = 8 \<Longrightarrow> le_bytes (le_word bs) = bs"
  by (rule nth_equalityI; simp) (rule bit_word_eqI, simp add: le_bytes_bit le_word_bit)

lemma le_bytes_swap: "le_bytes (gbswap_64 x) = rev (le_bytes x)"
  by (simp add: gbswap_64_def)

lemma gbswap_64_twice [simp]: "gbswap_64 (gbswap_64 x) = x"
  by (simp add: gbswap_64_def)

lemma gbswap_64_bit: "n < 64 \<Longrightarrow> bit (gbswap_64 x) n \<longleftrightarrow> bit x (8 * (7 - n div 8) + n mod 8)"
  by (simp add: gbswap_64_def le_word_bit rev_nth le_bytes_bit less_mult_imp_div_less)

lemma gbswap_64_portable_bits:
  "\<forall>n\<in>set (0 # 1 # [2..<64]). bit (gbswap_64_portable x) n \<longleftrightarrow> bit x (8 * (7 - n div 8) + n mod 8)"
  by (simp add: gbswap_64_portable_def bit_simps) (simp add: numeral_2_eq_2)

text \<open>The bytes of a word as they lie in memory.\<close>

definition memory_bytes :: "byte_order \<Rightarrow> u64 \<Rightarrow> u8 list" where
  "memory_bytes order x = (case order of LITTLE_ENDIAN \<Rightarrow> le_bytes x | BIG_ENDIAN \<Rightarrow> rev (le_bytes x))"

section \<open>Properties\<close>

text \<open>(C20) The two versions of \<open>gbswap_64\<close> agree: the masks and shifts written out for
  compilers without the intrinsic move each of the eight bytes to its mirrored place.\<close>

theorem gbswap_64_versions_agree: "gbswap_64_portable x = gbswap_64 x"
proof (rule bit_word_eqI)
  fix n assume n: "n < LENGTH(64)"
  then have "n = 0 \<or> n = 1 \<or> 2 \<le> n \<and> n < 64" by auto
  then have "n \<in> set (0 # 1 # [2..<64])" by (simp only: set_simps set_upt insert_iff atLeastLessThan_iff)
  with gbswap_64_portable_bits have "bit (gbswap_64_portable x) n \<longleftrightarrow> bit x (8 * (7 - n div 8) + n mod 8)"
    by blast
  with n show "bit (gbswap_64_portable x) n \<longleftrightarrow> bit (gbswap_64 x) n" by (simp add: gbswap_64_bit)
qed

text \<open>On either kind of host, storing \<open>htonll x\<close> puts the bytes of \<open>x\<close> into memory highest first, which
  is network order, and \<open>ntohll\<close> undoes \<open>htonll\<close>. Hence a little-endian and a big-endian host
  read each other's values.\<close>

theorem network_order_round_trip:
  "memory_bytes order (htonll order x) = rev (le_bytes x) \<and>
   ntohll order (htonll order x) = x \<and>
   (memory_bytes order (htonll order x) = memory_bytes order' y \<longrightarrow> ntohll order' y = x)"
proof -
  have store: "memory_bytes h (htonll h z) = rev (le_bytes z)" for h z
    by (cases h) (simp_all add: memory_bytes_def htonll_def le_bytes_swap)
  have undo: "ntohll h (htonll h z) = z" for h z
    by (cases h) (simp_all add: ntohll_def htonll_def)
  have "ntohll order' y = x" if "memory_bytes order (htonll order x) = memory_bytes order' y"
  proof -
    have "memory_bytes order' y = rev (le_bytes (ntohll order' y))"
      by (cases order') (simp_all add: memory_bytes_def ntohll_def htonll_def le_bytes_swap)
    with that store have "le_bytes x = le_bytes (ntohll order' y)" by simp
    then show ?thesis by (metis le_word_bytes)
  qed
  with store undo show ?thesis by blast
qed

text \<open>A time stamp is never zero, and for a time of day in the usual form it is the number of whole
  milliseconds: only the first millisecond of 1970 is reported one too high.\<close>

theorem tv2ms_milliseconds:
  assumes "0 \<le> tv_sec tv" and "tv_sec tv < 2 ^ 53" and "0 \<le> tv_usec tv" and "tv_usec tv < 1000000"
  shows "\<exists>ms. tv2ms tv = Inr ms \<and> uint ms = max 1 ((tv_sec tv * 1000000 + tv_usec tv) div 1000)"
proof -
  let ?s = "tv_sec tv * 1000 + tv_usec tv div 1000"
  have eq: "(tv_sec tv * 1000000 + tv_usec tv) div 1000 = ?s"
    using div_mult_self1 [of 1000 "tv_usec tv" "tv_sec tv * 1000"] by (simp add: ac_simps)
  have range: "0 \<le> ?s" "?s < 2 ^ 63" using assms by auto
  have "uint (word_of_int ?s :: u64) = ?s"
    using range by (simp only: uint_word_of_int) simp
  moreover from this have "(word_of_int ?s :: u64) = 0 \<longleftrightarrow> ?s = 0"
    by (metis uint_0_iff)
  ultimately show ?thesis
    using assms range by (auto simp: tv2ms_def long_ok_def cdiv_nonneg Let_def eq)
qed

subsection \<open>Witnesses\<close>

theorem network_order_round_trip_witness:
  "memory_bytes LITTLE_ENDIAN (htonll LITTLE_ENDIAN 0x0102030405060708) = [1, 2, 3, 4, 5, 6, 7, 8] \<and>
   ntohll BIG_ENDIAN 0x0102030405060708 = 0x0102030405060708"
proof -
  have b: "le_bytes 0x0102030405060708 = [8, 7, 6, 5, 4, 3, 2, 1]"
    by (simp add: le_bytes_def upt_rec)
  moreover from b have "memory_bytes BIG_ENDIAN 0x0102030405060708 = [1, 2, 3, 4, 5, 6, 7, 8]"
    by (simp add: memory_bytes_def)
  ultimately show ?thesis
    using network_order_round_trip [of LITTLE_ENDIAN "0x0102030405060708" BIG_ENDIAN "0x0102030405060708"]
    by simp
qed

theorem tv2ms_milliseconds_witness:
  "\<exists>ms. tv2ms \<lparr>tv_sec = 1700000000, tv_usec = 123456\<rparr> = Inr ms \<and> uint ms = 1700000000123"
  using tv2ms_milliseconds [of "\<lparr>tv_sec = 1700000000, tv_usec = 123456\<rparr>"] by simp

end
