(* ===== verification/Udp_Io.thy ===== *)
theory Udp_Io
  imports Node Macros
begin

text \<open>
  The UDP node, \<open>FDRecv\<close> and \<open>FDWrite\<close> of \<open>src/src/util/node_udp.cc\<close>: a datagram becomes a
  message, and a message gets its protocol header and becomes a datagram.

  The class \<open>BatsMsg\<close> and the struct \<open>BatsHeader\<close> come from headers that are not in the repository.
  They are the record \<open>udp_library\<close>: a new message, its \<open>decode\<close>, the members read, and for every
  member of the header the store into the bytes it lies over and the load from them. \<open>udp_ok\<close> states what
  holds of the members of a struct: they are disjoint and lie within its size. \<open>htons\<close> and \<open>htonl\<close> of the
  system library are byte swaps on a little-endian host.
\<close>

unbundle bit_operations_syntax

section \<open>Model\<close>

subsection \<open>Byte order\<close>

definition htons :: "byte_order \<Rightarrow> u16 \<Rightarrow> u16" where
  "htons order x = (case order of LITTLE_ENDIAN \<Rightarrow> push_bit 8 x OR drop_bit 8 x | BIG_ENDIAN \<Rightarrow> x)"

definition htonl :: "byte_order \<Rightarrow> u32 \<Rightarrow> u32" where
  "htonl order x =
     (case order of
        LITTLE_ENDIAN \<Rightarrow> push_bit 24 x OR push_bit 8 (x AND 0xFF00) OR drop_bit 8 (x AND 0xFF0000) OR drop_bit 24 x
      | BIG_ENDIAN \<Rightarrow> x)"

subsection \<open>What is used of other code\<close>

record ('e, 'a) udp_library =
  U_growth :: growth
  U_order :: byte_order
  U_BatsMsg :: "'e BaseMsg_scheme"
  U_decode :: "'e BaseMsg_scheme \<Rightarrow> 'e BaseMsg_scheme res"
  U_NeedCoded :: "'e \<Rightarrow> bool"
  U_flow_id :: "'e \<Rightarrow> u64"
  U_pac_num :: "'e \<Rightarrow> u16"
  U_dst_addr :: "'e \<Rightarrow> 'a"
  H_size :: nat
  H_set_flow_id :: "u64 \<Rightarrow> u8 list \<Rightarrow> u8 list"
  H_set_file_id :: "u32 \<Rightarrow> u8 list \<Rightarrow> u8 list"
  H_set_batch_id :: "u32 \<Rightarrow> u8 list \<Rightarrow> u8 list"
  H_set_pac_num :: "u16 \<Rightarrow> u8 list \<Rightarrow> u8 list"
  H_set_pac_type :: "u8 \<Rightarrow> u8 list \<Rightarrow> u8 list"
  H_flow_id :: "u8 list \<Rightarrow> u64"
  H_file_id :: "u8 list \<Rightarrow> u32"
  H_batch_id :: "u8 list \<Rightarrow> u32"
  H_pac_num :: "u8 list \<Rightarrow> u16"
  H_pac_type :: "u8 list \<Rightarrow> u8"

subsection \<open>Receiving\<close>

text \<open>\<open>input\<close> is the result of \<open>recvfrom\<close> when it is not positive, or the bytes received, at most as many as
  the buffer holds.\<close>

definition Udp_FDRecv :: "('e, 'a) udp_library \<Rightarrow> int + u8 list \<Rightarrow> nat \<Rightarrow> ('e, 'x) world \<Rightarrow> (int \<times> ('e, 'x) world) act" where
  "Udp_FDRecv U input i w =
     (case input of
        Inl ret \<Rightarrow> done_act (ret, w)
      | Inr bytes \<Rightarrow>
          let ret = int (length bytes); blank = U_BatsMsg U;
              msg = blank\<lparr>m_data := bytes @ drop (length bytes) (m_data blank)\<rparr> in
          if ret > 0
          then bindA (Some (msg_resize (U_growth U) msg ret)) (\<lambda>msg1.
               bindA (Some (U_decode U msg1)) (\<lambda>msg2.
               bindA (Dispatch i (Some msg2) w) (\<lambda>w'. done_act (ret, w'))))
          else done_act (ret, w))"

subsection \<open>Sending\<close>

text \<open>The header is written in place; the members of a header that does not fit the message are out of bounds.\<close>

definition init_header :: "('e, 'a) udp_library \<Rightarrow> 'e BaseMsg_scheme \<Rightarrow> u8 list" where
  "init_header U msg =
     (let bs = m_data msg; info = BaseMsg.more msg; order = U_order U in
      if U_NeedCoded U info
      then let bs = H_set_flow_id U (htonll order (U_flow_id U info)) bs;
               bs = H_set_file_id U (htonl order (m_id msg)) bs;
               bs = H_set_batch_id U (htonl order (m_seq msg)) bs;
               bs = H_set_pac_num U (htons order (U_pac_num U info)) bs
           in H_set_pac_type U 1 bs
      else let bs = H_set_file_id U (htonl order (m_id msg)) bs;
               bs = H_set_pac_type U 0 bs
           in H_set_flow_id U (htonll order (U_flow_id U info)) bs)"

text \<open>The result of \<open>sendto\<close>, which is an argument, the message as it is left behind, and what \<open>sendto\<close> was given.\<close>

definition Udp_FDWrite :: "('e, 'a) udp_library \<Rightarrow> int \<Rightarrow> 'e msg_ptr \<Rightarrow> (int \<times> 'e BaseMsg_scheme \<times> u8 list \<times> 'a) res" where
  "Udp_FDWrite U sent msg =
     (case msg of
        None \<Rightarrow> Inl NullDereference
      | Some m \<Rightarrow>
          if length (m_data m) < H_size U then Inl OutOfBounds
          else let m' = m\<lparr>m_data := init_header U m\<rparr>
               in Inr (sent, m', take (to_size_t (msg_size m')) (m_data m'), U_dst_addr U (BaseMsg.more m')))"

section \<open>Lemmas\<close>

text \<open>A store into one member of a struct: its own load returns it, the other members and the bytes behind the
  struct stay.\<close>

definition stores :: "nat \<Rightarrow> ('v \<Rightarrow> u8 list \<Rightarrow> u8 list) \<Rightarrow> (u8 list \<Rightarrow> 'v) \<Rightarrow> bool" where
  "stores z put get \<longleftrightarrow> (\<forall>v bs. z \<le> length bs \<longrightarrow>
     length (put v bs) = length bs \<and> drop z (put v bs) = drop z bs \<and> get (put v bs) = v)"

definition apart :: "nat \<Rightarrow> ('v \<Rightarrow> u8 list \<Rightarrow> u8 list) \<Rightarrow> (u8 list \<Rightarrow> 'u) \<Rightarrow> bool" where
  "apart z put get \<longleftrightarrow> (\<forall>v bs. z \<le> length bs \<longrightarrow> get (put v bs) = get bs)"

definition udp_ok :: "('e, 'a) udp_library \<Rightarrow> bool" where
  "udp_ok U \<longleftrightarrow>
     stores (H_size U) (H_set_flow_id U) (H_flow_id U) \<and> stores (H_size U) (H_set_file_id U) (H_file_id U) \<and>
     stores (H_size U) (H_set_batch_id U) (H_batch_id U) \<and> stores (H_size U) (H_set_pac_num U) (H_pac_num U) \<and>
     stores (H_size U) (H_set_pac_type U) (H_pac_type U) \<and>
     apart (H_size U) (H_set_flow_id U) (H_file_id U) \<and> apart (H_size U) (H_set_flow_id U) (H_batch_id U) \<and>
     apart (H_size U) (H_set_flow_id U) (H_pac_num U) \<and> apart (H_size U) (H_set_flow_id U) (H_pac_type U) \<and>
     apart (H_size U) (H_set_file_id U) (H_flow_id U) \<and> apart (H_size U) (H_set_file_id U) (H_batch_id U) \<and>
     apart (H_size U) (H_set_file_id U) (H_pac_num U) \<and> apart (H_size U) (H_set_file_id U) (H_pac_type U) \<and>
     apart (H_size U) (H_set_batch_id U) (H_flow_id U) \<and> apart (H_size U) (H_set_batch_id U) (H_file_id U) \<and>
     apart (H_size U) (H_set_batch_id U) (H_pac_num U) \<and> apart (H_size U) (H_set_batch_id U) (H_pac_type U) \<and>
     apart (H_size U) (H_set_pac_num U) (H_flow_id U) \<and> apart (H_size U) (H_set_pac_num U) (H_file_id U) \<and>
     apart (H_size U) (H_set_pac_num U) (H_batch_id U) \<and> apart (H_size U) (H_set_pac_num U) (H_pac_type U) \<and>
     apart (H_size U) (H_set_pac_type U) (H_flow_id U) \<and> apart (H_size U) (H_set_pac_type U) (H_file_id U) \<and>
     apart (H_size U) (H_set_pac_type U) (H_batch_id U) \<and> apart (H_size U) (H_set_pac_type U) (H_pac_num U)"

lemma htons_twice [simp]: "htons order (htons order x) = x"
  by (cases order; simp add: htons_def) (rule bit_word_eqI, auto simp: bit_simps)

lemma htonl_twice [simp]: "htonl order (htonl order x) = x"
proof (cases order)
  case LITTLE_ENDIAN
  have big: "\<not> bit x k" if "32 \<le> k" for k using bit_imp_le_length [of x k] that by auto
  show ?thesis
  proof (rule bit_word_eqI)
    fix n assume "n < LENGTH(32)"
    then have "n \<in> set (0 # 1 # [2..<32])" by (simp only: set_simps set_upt insert_iff atLeastLessThan_iff) auto
    moreover have "\<forall>n\<in>set (0 # 1 # [2..<32]). bit (htonl LITTLE_ENDIAN (htonl LITTLE_ENDIAN x)) n \<longleftrightarrow> bit x n"
      by (simp add: htonl_def bit_simps) (simp add: big)
    ultimately show "bit (htonl order (htonl order x)) n \<longleftrightarrow> bit x n" using LITTLE_ENDIAN by blast
  qed
qed (simp add: htonl_def)

lemma ntohll_htonll [simp]: "ntohll order (htonll order x) = x"
  by (cases order) (simp_all add: ntohll_def htonll_def)

text \<open>The header after \<open>init_header\<close>.\<close>

definition wire_header :: "('e, 'a) udp_library \<Rightarrow> 'e BaseMsg_scheme \<Rightarrow> u8 list \<Rightarrow> bool" where
  "wire_header U m bs \<longleftrightarrow>
     ntohll (U_order U) (H_flow_id U bs) = U_flow_id U (BaseMsg.more m) \<and>
     htonl (U_order U) (H_file_id U bs) = m_id m \<and>
     (if U_NeedCoded U (BaseMsg.more m)
      then H_pac_type U bs = 1 \<and> htonl (U_order U) (H_batch_id U bs) = m_seq m \<and>
           htons (U_order U) (H_pac_num U bs) = U_pac_num U (BaseMsg.more m)
      else H_pac_type U bs = 0 \<and> H_batch_id U bs = H_batch_id U (m_data m) \<and> H_pac_num U bs = H_pac_num U (m_data m))"

lemma init_header_ok:
  assumes "udp_ok U" and "H_size U \<le> length (m_data m)"
  shows "length (init_header U m) = length (m_data m)" and "drop (H_size U) (init_header U m) = drop (H_size U) (m_data m)"
    and "wire_header U m (init_header U m)"
  using assms by (simp_all add: udp_ok_def stores_def apart_def init_header_def wire_header_def Let_def)

section \<open>Properties\<close>

text \<open>(C25) What \<open>Udp::FDWrite\<close> sends: the message with its header filled in, to the address of the message. A receiver that
  reads the header in network order finds the flow, the id of the message and whether it is coded, and for
  a coded message also its batch and the number of its packets; the bytes behind the header are those of the
  message. A message that is shorter than the header is written out of bounds.\<close>

theorem FDWrite_sends_header:
  assumes "udp_ok U" and "H_size U \<le> length (m_data m)" and "length (m_data m) < 2 ^ 31"
    and "length (m_data m') < H_size U"
  shows "\<exists>bs. Udp_FDWrite U sent (Some m) = Inr (sent, m\<lparr>m_data := bs\<rparr>, bs, U_dst_addr U (BaseMsg.more m)) \<and>
      length bs = length (m_data m) \<and> drop (H_size U) bs = drop (H_size U) (m_data m) \<and> wire_header U m bs \<and>
      Udp_FDWrite U sent (Some m') = Inl OutOfBounds"
proof -
  note h = init_header_ok [OF assms(1,2)]
  have "to_size_t (msg_size (m\<lparr>m_data := init_header U m\<rparr>)) = length (m_data m)"
    using assms(3) h(1) by (simp add: msg_size_def to_int32_id int32_ok_def to_size_t_def)
  then have "Udp_FDWrite U sent (Some m) =
      Inr (sent, m\<lparr>m_data := init_header U m\<rparr>, init_header U m, U_dst_addr U (BaseMsg.more m))"
    using assms(2) h(1) by (simp add: Udp_FDWrite_def Let_def)
  with h assms(4) show ?thesis by (intro exI [of _ "init_header U m"]) (simp add: Udp_FDWrite_def)
qed

text \<open>What \<open>Udp::FDRecv\<close> does with a datagram: a new message of exactly its bytes is decoded and dispatched, and
  the number of bytes is returned; an empty datagram, or a failed call, changes nothing.\<close>

theorem Udp_FDRecv_forwards:
  assumes "0 < length bytes" and "length bytes \<le> length (m_data (U_BatsMsg U))" and "length bytes < 2 ^ 31"
    and "U_decode U ((U_BatsMsg U)\<lparr>m_data := bytes\<rparr>) = Inr msg" and "ret \<le> 0"
  shows "Udp_FDRecv U (Inr bytes) i w = bindA (Dispatch i (Some msg) w) (\<lambda>w'. done_act (int (length bytes), w')) \<and>
    Udp_FDRecv U (Inr []) i w = done_act (0, w) \<and> Udp_FDRecv U (Inl ret) i w = done_act (ret, w)"
proof -
  have "to_size_t (int (length bytes)) = length bytes"
    using assms(3) by (simp add: to_size_t_def)
  then have "msg_resize (U_growth U) ((U_BatsMsg U)\<lparr>m_data := bytes @ drop (length bytes) (m_data (U_BatsMsg U))\<rparr>) (int (length bytes)) =
      Inr ((U_BatsMsg U)\<lparr>m_data := bytes\<rparr>)"
    using assms(2) by (simp add: msg_resize_def vec_resize_def)
  then show ?thesis using assms(1,4) by (simp add: Udp_FDRecv_def Let_def)
qed

subsection \<open>Witnesses\<close>

text \<open>A header whose members lie in slots of eight bytes; the further members of a message are whether it is coded
  and its flow.\<close>

definition slot_put :: "nat \<Rightarrow> 'v::len word \<Rightarrow> u8 list \<Rightarrow> u8 list" where
  "slot_put k v bs = take (8 * k) bs @ le_bytes (ucast v) @ drop (8 * k + 8) bs"

definition slot_get :: "nat \<Rightarrow> u8 list \<Rightarrow> 'v::len word" where
  "slot_get k bs = ucast (le_word (take 8 (drop (8 * k) bs)))"

definition slot_lib :: "(bool \<times> u64, nat) udp_library" where
  "slot_lib = \<lparr>U_growth = exact_growth, U_order = LITTLE_ENDIAN,
     U_BatsMsg = BaseMsg.extend (blank_msg\<lparr>m_data := replicate 2048 0, m_cap := 2048\<rparr>) (True, 0), U_decode = Inr,
     U_NeedCoded = fst, U_flow_id = snd, U_pac_num = (\<lambda>_. 16), U_dst_addr = (\<lambda>_. 9), H_size = 40,
     H_set_flow_id = slot_put 0, H_set_file_id = slot_put 1, H_set_batch_id = slot_put 2, H_set_pac_num = slot_put 3,
     H_set_pac_type = slot_put 4, H_flow_id = slot_get 0, H_file_id = slot_get 1, H_batch_id = slot_get 2,
     H_pac_num = slot_get 3, H_pac_type = slot_get 4\<rparr>"

lemma slot_length: "k < 5 \<Longrightarrow> 40 \<le> length bs \<Longrightarrow> length (slot_put k v bs) = length bs"
  by (simp add: slot_put_def)

lemma slot_nth:
  assumes "k < 5" and "40 \<le> length bs" and "n < length bs"
  shows "slot_put k v bs ! n = (if 8 * k \<le> n \<and> n < 8 * k + 8 then le_bytes (ucast v) ! (n - 8 * k) else bs ! n)"
proof -
  consider "n < 8 * k" | "8 * k \<le> n" "n < 8 * k + 8" | "8 * k + 8 \<le> n" by linarith
  then show ?thesis using assms by cases (simp_all add: slot_put_def nth_append less_diff_conv2)
qed

lemma ucast_back: "LENGTH('v::len) \<le> 64 \<Longrightarrow> ucast (ucast (v :: 'v word) :: u64) = v"
  by (rule bit_word_eqI) (simp add: bit_simps)

lemma slot_stores:
  assumes "k < 5" and "LENGTH('v) \<le> 64"
  shows "stores 40 (slot_put k) (slot_get k :: u8 list \<Rightarrow> 'v::len word)"
proof -
  have "drop 40 (slot_put k v bs) = drop 40 bs" if "40 \<le> length bs" for v :: "'v word" and bs
    using that assms(1) by (intro nth_equalityI) (simp_all add: slot_length slot_nth)
  moreover have "take 8 (drop (8 * k) (slot_put k v bs)) = le_bytes (ucast v)" if "40 \<le> length bs" for v :: "'v word" and bs
    using that assms(1) by (intro nth_equalityI) (simp_all add: slot_length slot_nth)
  ultimately show ?thesis
    using assms by (simp add: stores_def slot_length slot_get_def ucast_back)
qed

lemma slot_apart:
  assumes "k < 5" and "j < 5" and "j \<noteq> k"
  shows "apart 40 (slot_put k :: 'v::len word \<Rightarrow> u8 list \<Rightarrow> u8 list) (slot_get j)"
proof -
  have "take 8 (drop (8 * j) (slot_put k v bs)) = take 8 (drop (8 * j) bs)" if "40 \<le> length bs" for v :: "'v word" and bs
    using that assms by (intro nth_equalityI) (auto simp: slot_length slot_nth)
  then show ?thesis by (simp add: apart_def slot_get_def)
qed

lemma slot_lib_ok: "udp_ok slot_lib"
  by (simp add: udp_ok_def slot_lib_def slot_stores slot_apart)

theorem FDWrite_sends_header_witness:
  "\<exists>bs. Udp_FDWrite slot_lib 42 (Some (BaseMsg.extend (blank_msg\<lparr>m_data := replicate 40 0 @ [1, 2]\<rparr>) (True, 5))) =
       Inr (42, BaseMsg.extend (blank_msg\<lparr>m_data := bs\<rparr>) (True, 5), bs, 9) \<and> drop 40 bs = [1, 2] \<and>
     ntohll LITTLE_ENDIAN (H_flow_id slot_lib bs) = 5 \<and> H_pac_type slot_lib bs = 1"
proof -
  let ?m = "BaseMsg.extend (blank_msg\<lparr>m_data := replicate 40 0 @ [1, 2]\<rparr>) (True, 5 :: u64)"
  have m: "m_data ?m = replicate 40 0 @ [1, 2]" "BaseMsg.more ?m = (True, 5)" by (simp_all add: BaseMsg.defs)
  obtain bs where "Udp_FDWrite slot_lib 42 (Some ?m) = Inr (42, ?m\<lparr>m_data := bs\<rparr>, bs, U_dst_addr slot_lib (BaseMsg.more ?m))"
      "drop (H_size slot_lib) bs = drop (H_size slot_lib) (m_data ?m)" "wire_header slot_lib ?m bs"
    using FDWrite_sends_header [OF slot_lib_ok, of ?m "?m\<lparr>m_data := []\<rparr>" 42] by (auto simp: m slot_lib_def)
  moreover have "?m\<lparr>m_data := bs\<rparr> = BaseMsg.extend (blank_msg\<lparr>m_data := bs\<rparr>) (True, 5)" by (simp add: BaseMsg.defs)
  moreover have "H_size slot_lib = 40" "U_dst_addr slot_lib x = 9" "U_order slot_lib = LITTLE_ENDIAN" for x
    by (simp_all add: slot_lib_def)
  ultimately show ?thesis
    by (intro exI [of _ bs]) (simp add: wire_header_def m, simp add: slot_lib_def)
qed

theorem Udp_FDRecv_forwards_witness:
  "Udp_FDRecv slot_lib (Inr [7]) 0 \<lparr>w_chans = [], w_nodes = [Node_new NODE_RELAY ''UDP''], w_processor_id = (\<lambda>_. 0), w_ext = ()\<rparr> =
   done_act (1, \<lparr>w_chans = [], w_nodes = [Node_new NODE_RELAY ''UDP''], w_processor_id = (\<lambda>_. 0), w_ext = ()\<rparr>)"
  (is "Udp_FDRecv _ _ _ ?w = _")
proof -
  have "Udp_FDRecv slot_lib (Inr [7]) 0 ?w = bindA (Dispatch 0 (Some ((U_BatsMsg slot_lib)\<lparr>m_data := [7]\<rparr>)) ?w)
      (\<lambda>w'. done_act (int (length [7 :: u8]), w'))"
    using Udp_FDRecv_forwards [of "[7]" slot_lib _ 0 0 ?w] by (simp add: slot_lib_def BaseMsg.defs)
  then show ?thesis by (simp add: Dispatch_no_output side_def Node_new_def)
qed

end
