(* ===== verification/Encoder.thy ===== *)
theory Encoder
  imports Node
begin

text \<open>
  The encoder node, \<open>src/src/util/node_encoder.h\<close>: it hands every message it receives to the coding
  library, and dispatches the coded messages that the library gives back through a callback.

  The library (\<open>BatsEncoder\<close>, its schemas and \<open>PROTOCOL_OVERHEAD\<close>, from headers that are not in the
  repository) is the record \<open>encoder_library\<close>, an argument of the operations. \<open>E_encode\<close> yields the
  messages for which \<open>encode\<close> calls the callback, in order, and the encoder afterwards.
\<close>

section \<open>Model\<close>

record ('e, 'k, 's, 'p) encoder_library =
  E_PROTOCOL_OVERHEAD :: int
  E_BatsEncoder :: 'k
  E_set_mtu :: "int \<Rightarrow> 'k \<Rightarrow> 'k"
  E_set_proto_header :: "int \<Rightarrow> 'k \<Rightarrow> 'k"
  E_DefaultPrecodeSchema :: 'p
  E_EncodingSchema :: 's
  E_setEncodeSchema :: "'s \<Rightarrow> 'k \<Rightarrow> 'k"
  E_setPrecodeSchema :: "'p \<Rightarrow> 'k \<Rightarrow> 'k"
  E_encode :: "'k \<Rightarrow> 'e BaseMsg_scheme \<Rightarrow> 'e BaseMsg_scheme list \<times> 'k"

text \<open>The constructor: the node and its member \<open>encode_\<close>.\<close>

definition Encoder_new :: "('e, 'k, 's, 'p) encoder_library \<Rightarrow> Node \<times> 'k" where
  "Encoder_new E =
     (let encode = E_BatsEncoder E;
          encode = E_set_mtu E 1500 encode;
          encode = E_set_proto_header E (E_PROTOCOL_OVERHEAD E) encode;
          pre = E_DefaultPrecodeSchema E;
          schema = E_EncodingSchema E;
          encode = E_setEncodeSchema E schema encode;
          encode = E_setPrecodeSchema E pre encode
      in ((Node_new NODE_RELAY ''encoder'')\<lparr>n_is_stop := False\<rparr>, encode))"

text \<open>The callback \<open>Encoder::Dispatch\<close>, once for each of the messages.\<close>

fun dispatch_all :: "nat \<Rightarrow> 'e BaseMsg_scheme list \<Rightarrow> ('e, 'x) world \<Rightarrow> ('e, 'x) world act" where
  "dispatch_all i [] w = done_act w"
| "dispatch_all i (m # ms) w = bindA (Dispatch i (Some m) w) (dispatch_all i ms)"

definition Encoder_HandleMsg ::
    "('e, 'k, 's, 'p) encoder_library \<Rightarrow> nat \<Rightarrow> 'e msg_ptr \<Rightarrow> ('e, 'k) world \<Rightarrow> ('e, 'k) world act" where
  "Encoder_HandleMsg E i msg w =
     (case msg of
        None \<Rightarrow> done_act w
      | Some m \<Rightarrow>
          if \<not> msg_size m < 65540 then fail_act AssertionFailed
          else bindA (Some (deref (w_nodes w) i)) (\<lambda>n.
            let (stop, n') = StopSignal n m; w1 = set_node i n' w in
            if stop then Dispatch i msg w1
            else let (coded, encode) = E_encode E (w_ext w1) m
                 in dispatch_all i coded (w1\<lparr>w_ext := encode\<rparr>)))"

section \<open>Lemmas\<close>

abbreviation with_pending :: "'T QueueBasedChannel \<Rightarrow> 'T list \<Rightarrow> 'T QueueBasedChannel" where
  "with_pending ch ms \<equiv> ch\<lparr>c_queue := (c_queue ch)\<lparr>q_pool := ms\<rparr>\<rparr>"

abbreviation chosen :: "nat list \<Rightarrow> 'e BaseMsg_scheme \<Rightarrow> nat" where
  "chosen outs m \<equiv> outs ! (unat (m_id m) mod length outs)"

text \<open>Channels with room for \<open>k\<close> more messages.\<close>

definition has_room :: "nat \<Rightarrow> 'T QueueBasedChannel \<Rightarrow> bool" where
  "has_room k ch \<longleftrightarrow> chan_wf ch \<and> \<not> broken ch \<and> length (pending ch) + k \<le> 100"

lemma has_room_put: "has_room (Suc k) ch \<Longrightarrow> has_room k (with_pending ch (pending ch @ [m]))"
  by (auto simp: has_room_def chan_wf_def queue_wf_def to_size_t_def)

lemma has_room_mono: "has_room (Suc k) ch \<Longrightarrow> has_room k ch"
  by (simp add: has_room_def)

lemma has_room_write: "has_room (Suc k) ch \<Longrightarrow> WriteMessage [] m ch = done_act (with_pending ch (pending ch @ [m]))"
  by (simp add: has_room_def WriteMessage_room)

lemma Dispatch_room:
  assumes "i < length (w_nodes w)" and "side (w_nodes w ! i) CHN_OUT = outs" and "outs \<noteq> []" and "length outs < 2 ^ 31"
    and "\<forall>c\<in>set outs. c < length (w_chans w) \<and> has_room (Suc k) (w_chans w ! c)"
  shows "Dispatch i (Some m) w =
    done_act (set_chan (chosen outs m) (with_pending (w_chans w ! chosen outs m) (pending (w_chans w ! chosen outs m) @ [Some m])) w)"
proof -
  have "chosen outs m \<in> set outs" using assms(3) by simp
  then have c: "chosen outs m < length (w_chans w)" "has_room (Suc k) (w_chans w ! chosen outs m)" using assms(5) by blast+
  show ?thesis
    using Dispatch_index [OF assms(1-4) refl c(1)] has_room_write [OF c(2)] by simp
qed

lemma dispatch_all_by_id:
  assumes "i < length (w_nodes w)" and "side (w_nodes w ! i) CHN_OUT = outs" and "outs \<noteq> []" and "length outs < 2 ^ 31"
    and "\<forall>c\<in>set outs. c < length (w_chans w) \<and> has_room (length ms) (w_chans w ! c)"
  shows "\<exists>chans. dispatch_all i ms w = done_act (w\<lparr>w_chans := chans\<rparr>) \<and> length chans = length (w_chans w) \<and>
    (\<forall>c<length chans. chans ! c =
       with_pending (w_chans w ! c) (pending (w_chans w ! c) @ map Some (filter (\<lambda>m. chosen outs m = c) ms)))"
  using assms
proof (induction ms arbitrary: w)
  case (Nil w)
  show ?case by (rule exI [of _ "w_chans w"]) simp
next
  case (Cons m ms)
  let ?c = "chosen outs m"
  let ?w = "set_chan ?c (with_pending (w_chans w ! ?c) (pending (w_chans w ! ?c) @ [Some m])) w"
  have c: "?c < length (w_chans w)" using Cons.prems(3,5) by simp
  have d: "Dispatch i (Some m) w = done_act ?w"
    using Dispatch_room [OF Cons.prems(1-4), of "length ms" m] Cons.prems(5) by simp
  have "\<forall>c\<in>set outs. c < length (w_chans ?w) \<and> has_room (length ms) (w_chans ?w ! c)"
    using Cons.prems(5) c by (auto simp: nth_list_update [OF c] has_room_put has_room_mono)
  then obtain chans where ih: "dispatch_all i ms ?w = done_act (?w\<lparr>w_chans := chans\<rparr>)" "length chans = length (w_chans w)"
      "\<forall>c<length chans. chans ! c = with_pending (w_chans ?w ! c)
         (pending (w_chans ?w ! c) @ map Some (filter (\<lambda>m. chosen outs m = c) ms))"
    using Cons.IH [of ?w] Cons.prems(1-4) by auto
  have "\<forall>c<length chans. chans ! c =
      with_pending (w_chans w ! c) (pending (w_chans w ! c) @ map Some (filter (\<lambda>m. chosen outs m = c) (m # ms)))"
    using ih(2,3) c by (auto simp: nth_list_update)
  then show ?case using d ih(1,2) by (intro exI [of _ chans]) simp
qed

section \<open>Properties\<close>

text \<open>(C26) What a coded message becomes: a message of less than 65540 bytes is given to the coding library once,
  and every message the library makes of it is appended, in order, to the output channel chosen by its
  id, if the channels have room; nothing else changes but the encoder's own state. A null pointer is
  ignored, and a message of 65540 bytes or more, such as a full block of the default size, stops the
  process.\<close>

theorem Encoder_HandleMsg_dispatches:
  assumes "i < length (w_nodes w)" and "side (w_nodes w ! i) CHN_OUT = outs" and "outs \<noteq> []" and "length outs < 2 ^ 31"
    and "\<not> stop_msg m" and "E_encode E (w_ext w) m = (coded, encode)" and "msg_size m < 65540"
    and "\<forall>c\<in>set outs. c < length (w_chans w) \<and> has_room (length coded) (w_chans w ! c)"
    and "65540 \<le> msg_size m'"
  shows "(\<exists>chans. Encoder_HandleMsg E i (Some m) w = done_act (w\<lparr>w_ext := encode, w_chans := chans\<rparr>) \<and>
      length chans = length (w_chans w) \<and>
      (\<forall>c<length chans. chans ! c =
         with_pending (w_chans w ! c) (pending (w_chans w ! c) @ map Some (filter (\<lambda>m. chosen outs m = c) coded)))) \<and>
    Encoder_HandleMsg E i None w = done_act w \<and> Encoder_HandleMsg E i (Some m') w = fail_act AssertionFailed"
proof -
  have "Encoder_HandleMsg E i (Some m) w = dispatch_all i coded (w\<lparr>w_ext := encode\<rparr>)"
    using assms(1,5-7) by (auto simp: Encoder_HandleMsg_def StopSignal_def)
  with dispatch_all_by_id [of i "w\<lparr>w_ext := encode\<rparr>" outs coded] assms(1-4,8,9) show ?thesis
    by (auto simp: Encoder_HandleMsg_def)
qed

text \<open>The branch of the stop signal in \<open>HandleMsg\<close> is dead code: the worker takes stop signals out before it calls
  the handler, so what a worker of the encoder does with any message is the same without that branch.\<close>

theorem stop_branch_dead:
  "HandlerRelaying (\<lambda>i m. Encoder_HandleMsg E i (Some m)) i channel w =
   HandlerRelaying (\<lambda>i m w. if \<not> msg_size m < 65540 then fail_act AssertionFailed
     else let (coded, encode) = E_encode E (w_ext w) m in dispatch_all i coded (w\<lparr>w_ext := encode\<rparr>)) i channel w"
proof (cases "i < length (w_nodes w)")
  case True
  then show ?thesis
    by (auto simp: HandlerRelaying_def Encoder_HandleMsg_def StopSignal_def Let_def bindA_def split: option.splits sum.splits)
next
  case False
  then show ?thesis
    by (auto simp: HandlerRelaying_def deref_def bindA_def Let_def split: option.splits sum.splits)
qed

subsection \<open>Witnesses\<close>

text \<open>A library whose code repeats each message twice under consecutive ids, and counts the messages.\<close>

definition twice_lib :: "(unit, nat, unit, unit) encoder_library" where
  "twice_lib = \<lparr>E_PROTOCOL_OVERHEAD = 20, E_BatsEncoder = 0, E_set_mtu = (\<lambda>_. id), E_set_proto_header = (\<lambda>_. id),
     E_DefaultPrecodeSchema = (), E_EncodingSchema = (), E_setEncodeSchema = (\<lambda>_. id), E_setPrecodeSchema = (\<lambda>_. id),
     E_encode = (\<lambda>k m. ([m\<lparr>m_id := 2 * of_nat k\<rparr>, m\<lparr>m_id := 2 * of_nat k + 1\<rparr>], Suc k))\<rparr>"

definition encoder_world :: "(unit, nat) world" where
  "encoder_world = \<lparr>w_chans = [sample_channel, sample_channel], w_nodes = [(fst (Encoder_new twice_lib))\<lparr>n_down := [0, 1]\<rparr>],
     w_processor_id = (\<lambda>_. 0), w_ext = snd (Encoder_new twice_lib)\<rparr>"

theorem Encoder_HandleMsg_dispatches_witness:
  "\<exists>w'. Encoder_HandleMsg twice_lib 0 (Some blank_msg) encoder_world = done_act w' \<and>
     pending (w_chans w' ! 1) = [Some (blank_msg\<lparr>m_id := 1\<rparr>)]"
proof -
  have n: "w_nodes encoder_world ! 0 = (Node_new NODE_RELAY ''encoder'')\<lparr>n_is_stop := False, n_down := [0, 1]\<rparr>"
    "length (w_nodes encoder_world) = 1" "w_ext encoder_world = 0" "w_chans encoder_world = [sample_channel, sample_channel]"
    by (simp_all add: encoder_world_def Encoder_new_def twice_lib_def)
  have room: "has_room 2 (sample_channel :: unit msg_ptr QueueBasedChannel)"
    by (simp add: has_room_def chan_wf_new [OF sample_channel_new])
  let ?coded = "[blank_msg\<lparr>m_id := 0\<rparr>, blank_msg\<lparr>m_id := 1\<rparr>]"
  have m: "\<not> stop_msg (blank_msg :: BaseMsg)" "msg_size blank_msg < 65540" "65540 \<le> msg_size (blank_msg\<lparr>m_data := replicate 65540 0\<rparr>)"
    by (simp_all add: blank_msg_def msg_size_def to_int32_def)
  have e: "E_encode twice_lib (w_ext encoder_world) blank_msg = (?coded, 1)" by (simp add: twice_lib_def n)
  have s: "side (w_nodes encoder_world ! 0) CHN_OUT = [0, 1]" by (simp add: n side_def Node_new_def)
  have r: "\<forall>c\<in>set [0, 1]. c < length (w_chans encoder_world) \<and> has_room (length ?coded) (w_chans encoder_world ! c)"
    using room by (simp add: n numeral_2_eq_2)
  have i: "0 < length (w_nodes encoder_world)" "[0, 1 :: nat] \<noteq> []" "length [0, 1 :: nat] < 2 ^ 31" by (simp_all add: n)
  from Encoder_HandleMsg_dispatches [OF i(1) s i(2,3) m(1) e m(2) r m(3)]
  obtain chans where w: "Encoder_HandleMsg twice_lib 0 (Some blank_msg) encoder_world =
      done_act (encoder_world\<lparr>w_ext := 1, w_chans := chans\<rparr>)" "length chans = length (w_chans encoder_world)"
      "\<forall>c<length chans. chans ! c = with_pending (w_chans encoder_world ! c)
         (pending (w_chans encoder_world ! c) @ map Some (filter (\<lambda>m. chosen [0, 1] m = c) ?coded))"
    by blast
  have "1 < length chans" using w(2) by (simp add: n)
  with w(3) have "pending (chans ! 1) = pending (w_chans encoder_world ! 1) @ map Some (filter (\<lambda>m. chosen [0, 1] m = 1) ?coded)"
    by (simp del: filter.simps)
  moreover have "pending (w_chans encoder_world ! 1) = []" by (simp add: n sample_channel_def)
  ultimately show ?thesis using w(1) by (intro exI [of _ "encoder_world\<lparr>w_ext := 1, w_chans := chans\<rparr>"]) simp
qed

end
