(* ===== verification/Duplex_Path.thy ===== *)
theory Duplex_Path
  imports Duplex_Io Udp_Io Encoder
begin

text \<open>
  From a descriptor to the channels behind its node and back: the poller, the callback that \<open>RegisterToPoller\<close>
  registers, \<open>FDRecv\<close> and \<open>Dispatch\<close> together, and the worker of a duplex node with \<open>FDWrite\<close>.

  The callback and the worker are code of the base class, which calls the virtual functions \<open>FDRecv\<close> and \<open>FDWrite\<close>. What it
  relies on is stated by the interfaces \<open>fd_receiver\<close> and \<open>fd_sender\<close>, of which the tun node and the UDP node are
  instances.
\<close>

unbundle bit_operations_syntax

section \<open>Model\<close>

text \<open>What \<open>read\<close> returns to the callback, one element for each call: a failure with \<open>errno\<close>, or bytes. The loop
  is \<^term>\<open>None\<close> when it has not ended with them.\<close>

type_synonym fd_input = "(int \<times> errno) + u8 list"

fun read_result :: "fd_input \<Rightarrow> int + u8 list" where
  "read_result (Inl (ret, e)) = Inl ret"
| "read_result (Inr bytes) = Inr bytes"

fun no_more_data :: "int \<Rightarrow> fd_input \<Rightarrow> bool" where
  "no_more_data ret (Inl (_, e)) \<longleftrightarrow> ret < 0 \<and> (e = EAGAIN \<or> e = EWOULDBLOCK)"
| "no_more_data ret (Inr _) \<longleftrightarrow> False"

type_synonym ('e, 'x) fd_recv = "int + u8 list \<Rightarrow> nat \<Rightarrow> ('e, 'x) world \<Rightarrow> (int \<times> ('e, 'x) world) act"

fun duplex_recv_loop :: "('e, 'x) fd_recv \<Rightarrow> fd_input list \<Rightarrow> nat \<Rightarrow> ('e, 'x) world \<Rightarrow> ('e, 'x) world act" where
  "duplex_recv_loop FDRecv [] i w = None"
| "duplex_recv_loop FDRecv (inp # inps) i w =
     bindA (FDRecv (read_result inp) i w) (\<lambda>(ret, w').
       if no_more_data ret inp then done_act w' else duplex_recv_loop FDRecv inps i w')"

definition duplex_callback :: "('e, 'x) fd_recv \<Rightarrow> fd_input list \<Rightarrow> nat \<Rightarrow> u32 \<Rightarrow> ('e, 'x) world \<Rightarrow> ('e, 'x) world act" where
  "duplex_callback FDRecv inps i events w =
     (if events AND EPOLLIN \<noteq> 0 then duplex_recv_loop FDRecv inps i w else done_act w)"

text \<open>The callbacks that a round of the poller makes, by their numbers.\<close>

fun run_callbacks :: "(nat \<Rightarrow> u32 \<Rightarrow> 'w \<Rightarrow> 'w act) \<Rightarrow> (nat option \<times> u32) list \<Rightarrow> 'w \<Rightarrow> 'w act" where
  "run_callbacks cb [] w = done_act w"
| "run_callbacks cb ((f, events) # calls) w =
     (case f of
        None \<Rightarrow> fail_act NullDereference
      | Some k \<Rightarrow> bindA (cb k events w) (run_callbacks cb calls))"

text \<open>\<open>FDWrite\<close> of the tun node and of the UDP node, with what leaves the host: the frames written to the device, and the
  datagrams with their addresses. \<open>sent\<close> is the result of \<open>sendto\<close>.\<close>

definition tun_fd_write :: "nat \<Rightarrow> ('e, u8 list list) fd_write" where
  "tun_fd_write fuel i m w =
     bindA (Tun_FDWrite fuel (Some m)) (\<lambda>(ret, frames). done_act (ret, w\<lparr>w_ext := w_ext w @ frames\<rparr>))"

definition udp_fd_write :: "('e, 'a) udp_library \<Rightarrow> int \<Rightarrow> ('e, (u8 list \<times> 'a) list) fd_write" where
  "udp_fd_write U sent i m w =
     bindA (Some (Udp_FDWrite U sent (Some m))) (\<lambda>(ret, m', bytes, addr). done_act (ret, w\<lparr>w_ext := w_ext w @ [(bytes, addr)]\<rparr>))"

text \<open>Nodes and channels as another part of the program sees them, with its own outside.\<close>

definition with_ext :: "('e, 'x) world \<Rightarrow> 'y \<Rightarrow> ('e, 'y) world" where
  "with_ext w x = \<lparr>w_chans = w_chans w, w_nodes = w_nodes w, w_processor_id = w_processor_id w, w_ext = x\<rparr>"

section \<open>Lemmas\<close>

subsection \<open>Sequences of actions\<close>

lemma bindA_assoc: "bindA (bindA r f) h = bindA r (\<lambda>x. bindA (f x) h)"
  by (auto simp: bindA_def split: option.splits sum.splits)

lemma bindA_return: "bindA r done_act = r"
  by (auto simp: bindA_def split: option.splits sum.splits)

lemma dispatch_all_append: "dispatch_all i (xs @ ys) = (\<lambda>w. bindA (dispatch_all i xs w) (dispatch_all i ys))"
proof (induction xs)
  case (Cons x xs)
  show ?case by (rule ext) (simp add: Cons.IH bindA_assoc)
qed (simp add: fun_eq_iff)

lemma distinct_key_split:
  assumes "distinct (map fst xs)" and "(k, v) \<in> set xs"
  obtains ys zs where "xs = ys @ (k, v) # zs" "k \<notin> fst ` set (ys @ zs)"
proof -
  obtain ys zs where xs: "xs = ys @ (k, v) # zs" using split_list [OF assms(2)] by blast
  with assms(1) show ?thesis by (intro that) auto
qed

subsection \<open>The round of the poller\<close>

abbreviation call_of :: "(int \<Rightarrow> nat option option) \<Rightarrow> int \<times> PollResponse \<Rightarrow> (nat option \<times> u32) list" where
  "call_of F \<equiv> \<lambda>(fd, rs). case F fd of None \<Rightarrow> [] | Some f \<Rightarrow> [(f, rs_events rs)]"

lemma respond_calls:
  assumes "\<And>fd. map_option rq_callback (map_of (po_requests p) fd) = F fd"
  shows "fst (respond [] rsps p) = concat (map (call_of F) rsps)"
  using assms
proof (induction rsps arbitrary: p)
  case (Cons r rsps)
  obtain fd rs where r: "r = (fd, rs)" by (cases r)
  show ?case
  proof (cases "map_of (po_requests p) fd")
    case None
    then have "F fd = None" using Cons.prems [of fd] by simp
    then show ?thesis using None Cons by (simp add: r)
  next
    case (Some req)
    let ?p = "p\<lparr>po_requests := map_put fd (req\<lparr>rq_timeout_ms := -1\<rparr>) (po_requests p)\<rparr>"
    have "map_option rq_callback (map_of (po_requests ?p) fd') = F fd'" for fd'
      using Cons.prems [of fd'] Cons.prems [of fd] Some by auto
    then have "fst (respond [] rsps ?p) = concat (map (call_of F) rsps)" by (rule Cons.IH)
    moreover have "F fd = Some (rq_callback req)" using Cons.prems [of fd] Some by simp
    moreover obtain cs p3 where "respond [] rsps ?p = (cs, p3)" by fastforce
    ultimately show ?thesis using Some by (simp add: r Let_def)
  qed
qed simp

lemma run_callbacks_append:
  "run_callbacks cb (xs @ ys) = (\<lambda>w. bindA (run_callbacks cb xs w) (run_callbacks cb ys))"
proof (induction xs)
  case (Cons x xs)
  obtain f ev where "x = (f, ev)" by (cases x)
  then show ?case by (intro ext) (simp add: Cons.IH bindA_assoc split: option.splits)
qed (simp add: fun_eq_iff)

lemma run_callbacks_idle:
  "\<forall>(f, ev)\<in>set calls. \<exists>k. f = Some k \<and> (\<forall>w. cb k ev w = done_act w) \<Longrightarrow> run_callbacks cb calls w = done_act w"
  by (induction calls) auto

text \<open>A new descriptor is registered and reported: the calls of the round, of which one is the callback of the descriptor.\<close>

lemma poll_reports:
  assumes wf: "requests_wf (po_requests p)" and fresh: "map_of (po_requests p) (rq_fd req) = None"
    and reg: "Register owns n req p = (True, p1)" and t: "int32_ok (rq_timeout_ms req)" and d: "0 < interval_ms b a"
    and others: "\<forall>(fd, r)\<in>set (po_requests p). rq_callback r \<noteq> None \<and> rq_callback r \<noteq> rq_callback req"
  shows "\<exists>xs ys p2 k2. poll_round ctl (\<lambda>_ _. [(rq_fd req, ev)]) id b a [] p1 k =
      Inr (xs @ (rq_callback req, ev) # ys, p2, k2) \<and>
      (\<forall>(f, ev)\<in>set (xs @ ys). f \<noteq> None \<and> f \<noteq> rq_callback req)"
proof -
  let ?fd = "rq_fd req" and ?d = "interval_ms b a"
  obtain p' k' where hc: "HandleChanges ctl p1 k = (p', k')" by fastforce
  have p1: "po_requests p1 = map_put ?fd req (po_requests p)"
    using reg by (auto simp: Register_def Notify_def Let_def split: if_splits)
  have p': "po_requests p' = map_put ?fd req (po_requests p)" "po_ctrl_params p' = []"
    using hc p1 by (auto simp: HandleChanges_def Let_def split: if_splits prod.splits)
  let ?rs = "po_requests p'"
  have wf': "requests_wf ?rs"
    using wf t p'(1) set_map_put [of ?fd req "po_requests p"]
    unfolding requests_wf_def by (auto simp: distinct_map_put)
  have "int32_ok 1" by (simp add: int32_ok_def)
  then have d32: "int32_ok ?d" by (simp add: interval_ms_def Let_def)
  let ?w = "map (\<lambda>(fd, req). (fd, waited ?d req)) ?rs"
  let ?t = "map (\<lambda>(fd, _). (fd, \<lparr>rs_events = 0\<rparr>)) (timed_out ?d ?rs)"
  have cd: "count_down ?d [] ?rs = Inr (?w, ?t)"
    using count_down_eq [OF d d32, of ?rs] wf' by (auto simp: requests_wf_def)
  let ?rsps = "map_put ?fd \<lparr>rs_events = ev\<rparr> ?t"
  define F where "F fd = map_option rq_callback (map_of ?rs fd)" for fd
  have F: "map_option rq_callback (map_of (po_requests (p'\<lparr>po_requests := ?w\<rparr>)) fd) = F fd" for fd
    by (simp add: F_def map_of_map option.map_comp comp_def)
  obtain calls p2 where resp: "respond [] ?rsps (p'\<lparr>po_requests := ?w\<rparr>) = (calls, p2)" by fastforce
  then have calls: "calls = concat (map (call_of F) ?rsps)" using respond_calls [OF F, of ?rsps] by simp
  have "map fst ?t = map fst (timed_out ?d ?rs)" by auto
  moreover have "distinct (map fst (timed_out ?d ?rs))" using wf' by (simp add: requests_wf_def distinct_map_filter)
  ultimately have "distinct (map fst ?rsps)" by (intro distinct_map_put) (simp only:)
  moreover have "(?fd, \<lparr>rs_events = ev\<rparr>) \<in> set ?rsps"
    by (rule map_of_SomeD) simp
  ultimately obtain r1 r2 where r: "?rsps = r1 @ (?fd, \<lparr>rs_events = ev\<rparr>) # r2" "?fd \<notin> fst ` set (r1 @ r2)"
    by (rule distinct_key_split)
  have "F ?fd = Some (rq_callback req)" by (simp add: F_def p'(1))
  then have "calls = concat (map (call_of F) r1) @ (rq_callback req, ev) # concat (map (call_of F) r2)"
    unfolding calls r(1) by simp
  moreover have other: "f \<noteq> None \<and> f \<noteq> rq_callback req"
    if "(f, ev') \<in> set (concat (map (call_of F) r1) @ concat (map (call_of F) r2))" for f ev'
  proof -
    have "(f, ev') \<in> set (concat (map (call_of F) (r1 @ r2)))" using that by simp
    then obtain r where r': "r \<in> set (r1 @ r2)" "(f, ev') \<in> set (call_of F r)" unfolding set_concat set_map by blast
    obtain fd rs where "r = (fd, rs)" by (cases r)
    with r' have fd: "(fd, rs) \<in> set (r1 @ r2)" "F fd = Some f" by (simp_all split: option.splits)
    then have "fd \<noteq> ?fd" using r(2) by force
    then obtain q where "map_of (po_requests p) fd = Some q" "f = rq_callback q"
      using fd(2) by (auto simp: F_def p'(1))
    with others show ?thesis by (auto dest!: map_of_SomeD)
  qed
  moreover have "poll_round ctl (\<lambda>_ _. [(?fd, ev)]) id b a [] p1 k = Inr (calls, p2, k')"
    using cd resp p'(2) by (simp add: poll_round_def hc Poll_def)
  moreover have "\<forall>(f, ev)\<in>set (concat (map (call_of F) r1) @ concat (map (call_of F) r2)). f \<noteq> None \<and> f \<noteq> rq_callback req"
    using other by blast
  ultimately show ?thesis by blast
qed

subsection \<open>Receiving\<close>

text \<open>What the callback relies on: a failed read is passed on, and of the bytes of a read that succeeds the messages
  \<open>msgs\<close> are made, which are dispatched.\<close>

locale fd_receiver =
  fixes FDRecv :: "('e, 'x) fd_recv"
    and readable :: "u8 list \<Rightarrow> bool"
    and msgs :: "u8 list \<Rightarrow> 'e BaseMsg_scheme list"
  assumes recv_error: "FDRecv (Inl ret) i w = done_act (ret, w)"
    and recv_data: "readable bytes \<Longrightarrow>
      \<exists>ret\<ge>0. FDRecv (Inr bytes) i w = bindA (dispatch_all i (msgs bytes) w) (\<lambda>w'. done_act (ret, w'))"
begin

lemma recv_packets:
  assumes "\<forall>bytes\<in>set ps. readable bytes" and "ret < 0" and "e = EAGAIN \<or> e = EWOULDBLOCK"
  shows "duplex_recv_loop FDRecv (map Inr ps @ Inl (ret, e) # inps) i w = dispatch_all i (concat (map msgs ps)) w"
  using assms(1)
proof (induction ps arbitrary: w)
  case Nil
  show ?case using assms(2,3) by (auto simp: recv_error)
next
  case (Cons bytes ps)
  obtain r where "0 \<le> r" "FDRecv (Inr bytes) i w = bindA (dispatch_all i (msgs bytes) w) (\<lambda>w'. done_act (r, w'))"
    using recv_data [of bytes i w] Cons.prems by auto
  then have "duplex_recv_loop FDRecv (map Inr (bytes # ps) @ Inl (ret, e) # inps) i w =
      bindA (dispatch_all i (msgs bytes) w) (dispatch_all i (concat (map msgs ps)))"
    using Cons by (simp add: bindA_assoc)
  then show ?case by (simp only: list.map concat.simps dispatch_all_append)
qed

lemma packets_reach_channels:
  assumes "RegisterToPoller k owns n x p = Inr (True, p1)" and "requests_wf (po_requests p)"
    and "map_of (po_requests p) (fd_fd x) = None"
    and "\<forall>(fd, r)\<in>set (po_requests p). rq_callback r \<noteq> None \<and> rq_callback r \<noteq> Some k"
    and "0 < interval_ms b a" and "ev AND EPOLLIN \<noteq> 0"
    and "\<forall>bytes\<in>set ps. readable bytes" and "ret < 0" and "e = EAGAIN \<or> e = EWOULDBLOCK"
    and "i < length (w_nodes w)" and "side (w_nodes w ! i) CHN_OUT = outs" and "outs \<noteq> []" and "length outs < 2 ^ 31"
    and "\<forall>c\<in>set outs. c < length (w_chans w) \<and> has_room (length (concat (map msgs ps))) (w_chans w ! c)"
    and "cb = (\<lambda>f ev w. if f = k then duplex_callback FDRecv (map Inr ps @ Inl (ret, e) # inps) i ev w else done_act w)"
  shows "\<exists>calls p2 k2 chans. poll_round ctl (\<lambda>_ _. [(fd_fd x, ev)]) id b a [] p1 kst = Inr (calls, p2, k2) \<and>
     run_callbacks cb calls w = done_act (w\<lparr>w_chans := chans\<rparr>) \<and> length chans = length (w_chans w) \<and>
     (\<forall>c<length chans. pending (chans ! c) =
        pending (w_chans w ! c) @ map Some (filter (\<lambda>m. chosen outs m = c) (concat (map msgs ps))))"
proof -
  let ?req = "\<lparr>rq_fd = fd_fd x, rq_events = EPOLLIN OR EPOLLET, rq_timeout_ms = 0, rq_callback = Some k\<rparr>"
  have reg: "Register owns n ?req p = (True, p1)" using assms(1) by (simp add: RegisterToPoller_def split: if_splits)
  obtain xs ys p2 k2 where round: "poll_round ctl (\<lambda>_ _. [(fd_fd x, ev)]) id b a [] p1 kst =
      Inr (xs @ (Some k, ev) # ys, p2, k2)" and idle: "\<forall>(f, ev)\<in>set (xs @ ys). f \<noteq> None \<and> f \<noteq> Some k"
    using poll_reports [OF assms(2) _ reg, of b a ctl ev kst] assms(3-5) by (auto simp: int32_ok_def)
  have skip: "run_callbacks cb zs v = done_act v" if "set zs \<subseteq> set (xs @ ys)" for zs v
  proof (rule run_callbacks_idle, clarify)
    fix f ev' assume "(f, ev') \<in> set zs"
    then have "f \<noteq> None" "f \<noteq> Some k" using that idle by blast+
    then show "\<exists>k'. f = Some k' \<and> (\<forall>w. cb k' ev' w = done_act w)" by (auto simp: assms(15))
  qed
  have "cb k ev w = dispatch_all i (concat (map msgs ps)) w"
    using recv_packets [OF assms(7-9), of inps i w] assms(6,15) by (simp add: duplex_callback_def)
  moreover have skip_all: "run_callbacks cb ys = done_act" using skip [of ys] by (intro ext) simp
  ultimately have run: "run_callbacks cb (xs @ (Some k, ev) # ys) w = dispatch_all i (concat (map msgs ps)) w"
    using skip [of xs] skip_all by (simp add: run_callbacks_append bindA_return)
  obtain chans where "dispatch_all i (concat (map msgs ps)) w = done_act (w\<lparr>w_chans := chans\<rparr>)" "length chans = length (w_chans w)"
      "\<forall>c<length chans. chans ! c = with_pending (w_chans w ! c)
         (pending (w_chans w ! c) @ map Some (filter (\<lambda>m. chosen outs m = c) (concat (map msgs ps))))"
    using dispatch_all_by_id [OF assms(10-14)] by blast
  then show ?thesis using round run by auto
qed

end

text \<open>The tun node: the messages made of what was read.\<close>

definition tun_msgs :: "'f NetworkMsg_scheme \<Rightarrow> u8 list \<Rightarrow> 'f NetworkMsg_scheme list" where
  "tun_msgs blank bytes =
     (case decode (blank\<lparr>m_data := bytes\<rparr>) of Inl e \<Rightarrow> [] | Inr m \<Rightarrow> if IsIPv4 m then [m] else [])"

lemma tun_msgs_data:
  "map m_data (concat (map (tun_msgs blank) ps)) = filter (\<lambda>bytes. \<exists>m. decode (blank\<lparr>m_data := bytes\<rparr>) = Inr m \<and> IsIPv4 m) ps"
  by (induction ps) (auto simp: tun_msgs_def split: sum.splits dest!: decode_data)

definition tun_readable :: "'f NetworkMsg_scheme \<Rightarrow> u8 list \<Rightarrow> bool" where
  "tun_readable blank bytes \<longleftrightarrow> length bytes \<le> length (m_data blank) \<and> length bytes < 2 ^ 31 \<and>
     (\<exists>m. decode (blank\<lparr>m_data := bytes\<rparr>) = Inr m)"

lemma Tun_FDRecv_packet:
  assumes "tun_readable blank bytes"
  shows "\<exists>ret\<ge>0. Tun_FDRecv g blank (Inr bytes) i w =
    bindA (dispatch_all i (tun_msgs blank bytes) w) (\<lambda>w'. done_act (ret, w'))"
proof -
  obtain m where m: "decode (blank\<lparr>m_data := bytes\<rparr>) = Inr m" and len: "length bytes \<le> length (m_data blank)" "length bytes < 2 ^ 31"
    using assms by (auto simp: tun_readable_def)
  have resize: "vec_resize g (to_size_t (int (length bytes))) (bytes @ drop (length bytes) (m_data blank), m_cap blank) =
      Inr (bytes, m_cap blank)"
    using len by (simp add: to_size_t_def vec_resize_def)
  have "Tun_FDRecv g blank (Inr bytes) i w =
      (if IsIPv4 m then bindA (Dispatch i (Some m) w) (\<lambda>w'. done_act (int (length bytes), w')) else done_act (0, w))"
    using m resize by (simp add: Tun_FDRecv_def Let_def BaseMsg.defs)
  then show ?thesis
    using m by (intro exI [of _ "if IsIPv4 m then int (length bytes) else 0"]) (simp add: bindA_assoc tun_msgs_def)
qed

interpretation tun: fd_receiver "Tun_FDRecv g blank" "tun_readable blank" "tun_msgs blank" for g blank
  by unfold_locales (simp add: Tun_FDRecv_def, rule Tun_FDRecv_packet)

text \<open>The UDP node: every datagram that is not empty is a message.\<close>

definition udp_msgs :: "('e, 'a) udp_library \<Rightarrow> u8 list \<Rightarrow> 'e BaseMsg_scheme list" where
  "udp_msgs U bytes =
     (if bytes = [] then [] else case U_decode U ((U_BatsMsg U)\<lparr>m_data := bytes\<rparr>) of Inl e \<Rightarrow> [] | Inr m \<Rightarrow> [m])"

definition udp_readable :: "('e, 'a) udp_library \<Rightarrow> u8 list \<Rightarrow> bool" where
  "udp_readable U bytes \<longleftrightarrow> length bytes \<le> length (m_data (U_BatsMsg U)) \<and> length bytes < 2 ^ 31 \<and>
     (\<exists>m. U_decode U ((U_BatsMsg U)\<lparr>m_data := bytes\<rparr>) = Inr m)"

lemma Udp_FDRecv_packet:
  assumes "udp_readable U bytes"
  shows "\<exists>ret\<ge>0. Udp_FDRecv U (Inr bytes) i w = bindA (dispatch_all i (udp_msgs U bytes) w) (\<lambda>w'. done_act (ret, w'))"
proof (cases "bytes = []")
  case True
  then show ?thesis by (intro exI [of _ 0]) (simp add: Udp_FDRecv_def udp_msgs_def)
next
  case False
  then have len: "0 < length bytes" "length bytes \<le> length (m_data (U_BatsMsg U))" "length bytes < 2 ^ 31"
    using assms by (simp_all add: udp_readable_def)
  obtain m where m: "U_decode U ((U_BatsMsg U)\<lparr>m_data := bytes\<rparr>) = Inr m" using assms by (auto simp: udp_readable_def)
  show ?thesis
    using Udp_FDRecv_forwards [OF len m, of 0 i w] m False
    by (intro exI [of _ "int (length bytes)"]) (simp add: udp_msgs_def bindA_assoc)
qed

interpretation udp: fd_receiver "Udp_FDRecv U" "udp_readable U" "udp_msgs U" for U
  by unfold_locales (simp add: Udp_FDRecv_def, rule Udp_FDRecv_packet)

subsection \<open>Sending\<close>

text \<open>What the worker relies on: writing a message appends \<open>out m\<close> to what has left the host.\<close>

locale fd_sender =
  fixes FDWrite :: "('e, 'o list) fd_write"
    and sendable :: "'e BaseMsg_scheme \<Rightarrow> bool"
    and out :: "'e BaseMsg_scheme \<Rightarrow> 'o list"
  assumes sends: "sendable m \<Longrightarrow> \<exists>ret. FDWrite i m w = done_act (ret, w\<lparr>w_ext := w_ext w @ out m\<rparr>)"
begin

lemma HandleWritting_sends:
  assumes "c < length (w_chans w)" and "chan_wf (w_chans w ! c)" and "\<not> broken (w_chans w ! c)"
    and "pending (w_chans w ! c) = Some m # rest" and "sendable m"
  shows "HandleWritting FDWrite i c w =
    done_act ((set_chan c (with_pending (w_chans w ! c) rest) w)\<lparr>w_ext := w_ext w @ out m\<rparr>)"
proof -
  obtain ret where "FDWrite i m (set_chan c (with_pending (w_chans w ! c) rest) w) =
      done_act (ret, (set_chan c (with_pending (w_chans w ! c) rest) w)\<lparr>w_ext := w_ext w @ out m\<rparr>)"
    using sends [OF assms(5), of i "set_chan c (with_pending (w_chans w ! c) rest) w"] by auto
  then show ?thesis
    using assms(1-4) by (simp add: HandleWritting_def NodeDuplex_HandleMsg_def ReadMessage_Cons)
qed

text \<open>The worker writes the messages of its channel in order, stop signals too, and goes on.\<close>

lemma worker_sends:
  assumes "i < length (w_nodes w)" and "\<not> n_is_stop (w_nodes w ! i)" and "c < length (w_chans w)"
    and "chan_wf (w_chans w ! c)" and "\<not> broken (w_chans w ! c)"
    and "pending (w_chans w ! c) = map Some ms @ rest" and "\<forall>m\<in>set ms. sendable m"
  shows "work_loop (length ms + fuel) (HandleWritting FDWrite i c) i w =
    work_loop fuel (HandleWritting FDWrite i c) i
      ((set_chan c (with_pending (w_chans w ! c) rest) w)\<lparr>w_ext := w_ext w @ concat (map out ms)\<rparr>)"
  using assms
proof (induction ms arbitrary: w)
  case Nil
  then have "with_pending (w_chans w ! c) rest = w_chans w ! c" by simp
  then have "(set_chan c (with_pending (w_chans w ! c) rest) w)\<lparr>w_ext := w_ext w\<rparr> = w" by simp
  then show ?case by simp
next
  case (Cons m ms)
  let ?ch = "with_pending (w_chans w ! c) (map Some ms @ rest)"
  let ?w = "(set_chan c ?ch w)\<lparr>w_ext := w_ext w @ out m\<rparr>"
  have "HandleWritting FDWrite i c w = done_act ?w"
    using Cons.prems by (intro HandleWritting_sends) simp_all
  then have "work_loop (length (m # ms) + fuel) (HandleWritting FDWrite i c) i w =
      work_loop (length ms + fuel) (HandleWritting FDWrite i c) i ?w"
    using Cons.prems(1,2) by (simp add: work_loop_step)
  also have "\<dots> = work_loop fuel (HandleWritting FDWrite i c) i
      ((set_chan c (with_pending (w_chans ?w ! c) rest) ?w)\<lparr>w_ext := w_ext ?w @ concat (map out ms)\<rparr>)"
    using Cons.prems by (intro Cons.IH) (auto simp: chan_wf_def queue_wf_def)
  also have "(set_chan c (with_pending (w_chans ?w ! c) rest) ?w)\<lparr>w_ext := w_ext ?w @ concat (map out ms)\<rparr> =
      (set_chan c (with_pending (w_chans w ! c) rest) w)\<lparr>w_ext := w_ext w @ concat (map out (m # ms))\<rparr>"
    using Cons.prems(3) by simp
  finally show ?case .
qed

end

definition frames_of :: "nat \<Rightarrow> 'e BaseMsg_scheme \<Rightarrow> u8 list list" where
  "frames_of fuel m = (case Tun_FDWrite fuel (Some m) of Some (Inr (ret, frames)) \<Rightarrow> frames | _ \<Rightarrow> [])"

definition tun_sendable :: "nat \<Rightarrow> 'e BaseMsg_scheme \<Rightarrow> bool" where
  "tun_sendable fuel m \<longleftrightarrow> (\<exists>r. Tun_FDWrite fuel (Some m) = done_act r)"

interpretation tun_out: fd_sender "tun_fd_write fuel" "tun_sendable fuel" "frames_of fuel" for fuel
  by unfold_locales (auto simp: tun_sendable_def tun_fd_write_def frames_of_def)

definition datagram_of :: "('e, 'a) udp_library \<Rightarrow> 'e BaseMsg_scheme \<Rightarrow> u8 list \<times> 'a" where
  "datagram_of U m = (init_header U m, U_dst_addr U (BaseMsg.more m))"

definition udp_sendable :: "('e, 'a) udp_library \<Rightarrow> 'e BaseMsg_scheme \<Rightarrow> bool" where
  "udp_sendable U m \<longleftrightarrow> H_size U \<le> length (m_data m) \<and> length (m_data m) < 2 ^ 31 \<and> udp_ok U"

lemma Udp_FDWrite_datagram:
  assumes "udp_sendable U m"
  shows "Udp_FDWrite U sent (Some m) = Inr (sent, m\<lparr>m_data := init_header U m\<rparr>, datagram_of U m)"
proof -
  have m: "udp_ok U" "H_size U \<le> length (m_data m)" "length (m_data m) < 2 ^ 31" using assms by (simp_all add: udp_sendable_def)
  note h = init_header_ok [OF m(1,2)]
  have "to_size_t (msg_size (m\<lparr>m_data := init_header U m\<rparr>)) = length (m_data m)"
    using m(3) h(1) by (simp add: msg_size_def to_int32_id int32_ok_def to_size_t_def)
  then show ?thesis using m(2) h(1) by (simp add: Udp_FDWrite_def Let_def datagram_of_def)
qed

interpretation udp_out: fd_sender "udp_fd_write U sent" "udp_sendable U" "\<lambda>m. [datagram_of U m]" for U sent
  by unfold_locales (auto simp: udp_fd_write_def Udp_FDWrite_datagram datagram_of_def)

section \<open>Properties\<close>

text \<open>(C14) The packets of the tun device reach the channels behind its node. Once the node is registered at the poller,
  the round in which the kernel reports its descriptor as readable calls its callback exactly once; the callback
  reads until there is no more data, and the IPv4 packets that were read, and nothing else, are then in the output
  channels of the node, in order, each in the one its id selects, with exactly the bytes that were read. The other
  callbacks of the round, those of expired requests, are taken to leave these nodes and channels alone.\<close>

theorem tun_packets_reach_channels:
  assumes "RegisterToPoller k owns n x p = Inr (True, p1)" and "requests_wf (po_requests p)"
    and "map_of (po_requests p) (fd_fd x) = None"
    and "\<forall>(fd, r)\<in>set (po_requests p). rq_callback r \<noteq> None \<and> rq_callback r \<noteq> Some k"
    and "0 < interval_ms b a" and "ev AND EPOLLIN \<noteq> 0"
    and "\<forall>bytes\<in>set ps. tun_readable blank bytes" and "ret < 0" and "e = EAGAIN \<or> e = EWOULDBLOCK"
    and "i < length (w_nodes w)" and "side (w_nodes w ! i) CHN_OUT = outs" and "outs \<noteq> []" and "length outs < 2 ^ 31"
    and "\<forall>c\<in>set outs. c < length (w_chans w) \<and> has_room (length (concat (map (tun_msgs blank) ps))) (w_chans w ! c)"
    and "cb = (\<lambda>f ev w. if f = k then duplex_callback (Tun_FDRecv g blank) (map Inr ps @ Inl (ret, e) # inps) i ev w else done_act w)"
  shows "\<exists>calls p2 k2 chans. poll_round ctl (\<lambda>_ _. [(fd_fd x, ev)]) id b a [] p1 kst = Inr (calls, p2, k2) \<and>
     run_callbacks cb calls w = done_act (w\<lparr>w_chans := chans\<rparr>) \<and> length chans = length (w_chans w) \<and>
     (\<forall>c<length chans. pending (chans ! c) =
        pending (w_chans w ! c) @ map Some (filter (\<lambda>m. chosen outs m = c) (concat (map (tun_msgs blank) ps)))) \<and>
     map m_data (concat (map (tun_msgs blank) ps)) =
        filter (\<lambda>bytes. \<exists>m. decode (blank\<lparr>m_data := bytes\<rparr>) = Inr m \<and> IsIPv4 m) ps"
  using tun.packets_reach_channels [OF assms, of ctl kst] tun_msgs_data [of blank ps] by blast

text \<open>The same holds of the UDP node: the datagrams that can be read are decoded, and the messages are in the output channels
  of the node, in order, each in the one its id selects.\<close>

theorem udp_datagrams_reach_channels:
  assumes "RegisterToPoller k owns n x p = Inr (True, p1)" and "requests_wf (po_requests p)"
    and "map_of (po_requests p) (fd_fd x) = None"
    and "\<forall>(fd, r)\<in>set (po_requests p). rq_callback r \<noteq> None \<and> rq_callback r \<noteq> Some k"
    and "0 < interval_ms b a" and "ev AND EPOLLIN \<noteq> 0"
    and "\<forall>bytes\<in>set ps. udp_readable U bytes" and "ret < 0" and "e = EAGAIN \<or> e = EWOULDBLOCK"
    and "i < length (w_nodes w)" and "side (w_nodes w ! i) CHN_OUT = outs" and "outs \<noteq> []" and "length outs < 2 ^ 31"
    and "\<forall>c\<in>set outs. c < length (w_chans w) \<and> has_room (length (concat (map (udp_msgs U) ps))) (w_chans w ! c)"
    and "cb = (\<lambda>f ev w. if f = k then duplex_callback (Udp_FDRecv U) (map Inr ps @ Inl (ret, e) # inps) i ev w else done_act w)"
  shows "\<exists>calls p2 k2 chans. poll_round ctl (\<lambda>_ _. [(fd_fd x, ev)]) id b a [] p1 kst = Inr (calls, p2, k2) \<and>
     run_callbacks cb calls w = done_act (w\<lparr>w_chans := chans\<rparr>) \<and> length chans = length (w_chans w) \<and>
     (\<forall>c<length chans. pending (chans ! c) =
        pending (w_chans w ! c) @ map Some (filter (\<lambda>m. chosen outs m = c) (concat (map (udp_msgs U) ps))))"
  by (rule udp.packets_reach_channels [OF assms])

text \<open>(C13) From the encoder to the network. What the coding library makes of a message goes through the channel between the
  encoder and the UDP node, and a worker of the UDP node sends exactly these messages, in order, one datagram each:
  the header holds flow, id and kind of the message in network order, and the bytes behind it are those of the message.\<close>

theorem coded_messages_leave:
  fixes U :: "('e, 'a) udp_library" and w :: "('e, 'x) world"
  assumes "i < length (w_nodes w)" and "side (w_nodes w ! i) CHN_OUT = [c]" and "c < length (w_chans w)"
    and "has_room (length coded) (w_chans w ! c)" and "pending (w_chans w ! c) = []"
    and "\<not> stop_msg m" and "msg_size m < 65540" and "E_encode E (w_ext w) m = (coded, encode)"
    and "j < length (w_nodes w)" and "\<not> n_is_stop (w_nodes w ! j)" and "\<forall>m\<in>set coded. udp_sendable U m"
  shows "\<exists>w1 v. Encoder_HandleMsg E i (Some m) w = done_act w1 \<and>
     (\<forall>fuel. work_loop (length coded + fuel) (HandleWritting (udp_fd_write U sent) j c) j (with_ext w1 []) =
        work_loop fuel (HandleWritting (udp_fd_write U sent) j c) j v) \<and>
     pending (w_chans v ! c) = [] \<and> w_ext v = map (datagram_of U) coded \<and>
     (\<forall>m\<in>set coded. wire_header U m (fst (datagram_of U m)) \<and>
        drop (H_size U) (fst (datagram_of U m)) = drop (H_size U) (m_data m))"
proof -
  have enc: "Encoder_HandleMsg E i (Some m) w = dispatch_all i coded (w\<lparr>w_ext := encode\<rparr>)"
    using assms(1,6-8) by (auto simp: Encoder_HandleMsg_def StopSignal_def)
  obtain chans where d: "dispatch_all i coded (w\<lparr>w_ext := encode\<rparr>) = done_act (w\<lparr>w_ext := encode, w_chans := chans\<rparr>)"
      "length chans = length (w_chans w)"
      "chans ! c = with_pending (w_chans w ! c) (pending (w_chans w ! c) @ map Some (filter (\<lambda>m. chosen [c] m = c) coded))"
    using dispatch_all_by_id [of i "w\<lparr>w_ext := encode\<rparr>" "[c]" coded] assms(1-4) by auto
  let ?w1 = "w\<lparr>w_ext := encode, w_chans := chans\<rparr>" and ?v = "with_ext (w\<lparr>w_ext := encode, w_chans := chans\<rparr>) ([] :: (u8 list \<times> 'a) list)"
  have ch: "c < length (w_chans ?v)" "chan_wf (w_chans ?v ! c)" "\<not> broken (w_chans ?v ! c)"
      "pending (w_chans ?v ! c) = map Some coded @ []"
    using d(2,3) assms(3-5) by (auto simp: with_ext_def has_room_def chan_wf_def queue_wf_def to_size_t_def)
  have "work_loop (length coded + fuel) (HandleWritting (udp_fd_write U sent) j c) j ?v =
      work_loop fuel (HandleWritting (udp_fd_write U sent) j c) j
        ((set_chan c (with_pending (w_chans ?v ! c) []) ?v)\<lparr>w_ext := w_ext ?v @ concat (map (\<lambda>m. [datagram_of U m]) coded)\<rparr>)" for fuel
  proof (rule udp_out.worker_sends [where U = U and sent = sent, OF _ _ ch])
    show "j < length (w_nodes ?v)" "\<not> n_is_stop (w_nodes ?v ! j)" using assms(9,10) by (simp_all add: with_ext_def)
  qed (rule assms(11))
  moreover have "\<forall>m\<in>set coded. wire_header U m (fst (datagram_of U m)) \<and>
      drop (H_size U) (fst (datagram_of U m)) = drop (H_size U) (m_data m)"
    using assms(11) by (auto simp: udp_sendable_def datagram_of_def intro: init_header_ok(2,3))
  ultimately show ?thesis
    using enc d(1) ch(1)
    by (intro exI [of _ ?w1] exI [of _ "(set_chan c (with_pending (w_chans ?v ! c) []) ?v)\<lparr>w_ext := map (datagram_of U) coded\<rparr>"])
       (simp add: with_ext_def)
qed

subsection \<open>Witnesses\<close>

text \<open>A tun node with the descriptor 7 and one channel behind it, which reads an IPv4 packet and one of another version.\<close>

definition tun_duplex :: FullDuplex where
  "tun_duplex = FullDuplex_new\<lparr>fd_fd := 7\<rparr>"

definition tun_world :: "(unit NetworkMsg_ext, unit) world" where
  "tun_world = \<lparr>w_chans = [sample_channel], w_nodes = [(Node_new NODE_RELAY ''tun'')\<lparr>n_is_stop := False, n_down := [0]\<rparr>],
     w_processor_id = (\<lambda>_. 0), w_ext = ()\<rparr>"

definition other_packet :: "u8 list" where
  "other_packet = 96 # replicate 23 0"

lemma tun_reads:
  "case decode (net_msg udp_packet) of Inl _ \<Rightarrow> False | Inr m \<Rightarrow> IsIPv4 m"
  "case decode (net_msg other_packet) of Inl _ \<Rightarrow> False | Inr m \<Rightarrow> \<not> IsIPv4 m"
  by (simp_all add: net_msg_def udp_packet_def other_packet_def decode_def IsIPv4_def msg_size_net MIN_IPHEADER_LEN_def
        byte_at_def ip_v_def ip_hl_def IPPROTO_UDP_def net16_at_def host32_at_def BaseMsg.defs NetworkMsg.defs blank_msg_def Let_def)

lemma net_msg_reads:
  "length bytes = 24 \<Longrightarrow> (net_msg (replicate 24 0))\<lparr>m_data := bytes\<rparr> = net_msg bytes"
  by (simp add: net_msg_def BaseMsg.defs blank_msg_def)

theorem tun_packets_reach_channels_witness:
  "\<exists>p1 calls p2 k2 w' m. RegisterToPoller 1 True 9 tun_duplex fresh_poller = Inr (True, p1) \<and>
     poll_round kernel_ctl (\<lambda>_ _. [(7, 1)]) id 0 0 [] p1 (\<lambda>_. None) = Inr (calls, p2, k2) \<and>
     run_callbacks (\<lambda>f ev w. if f = 1 then duplex_callback (Tun_FDRecv (\<lambda>_ n. n) (net_msg (replicate 24 0)))
       [Inr udp_packet, Inr other_packet, Inl (-1, EAGAIN)] 0 ev w else done_act w) calls tun_world = done_act w' \<and>
     pending (w_chans w' ! 0) = [Some m] \<and> m_data m = udp_packet"
proof -
  let ?blank = "net_msg (replicate 24 0)" and ?ps = "[udp_packet, other_packet]"
  have len: "length udp_packet = 24" "length other_packet = 24" by (simp_all add: udp_packet_def other_packet_def)
  obtain p1 where p1: "RegisterToPoller 1 True 9 tun_duplex fresh_poller = Inr (True, p1)"
    by (auto simp: RegisterToPoller_def Register_def Let_def tun_duplex_def fresh_poller_eq)
  obtain m where m: "concat (map (tun_msgs ?blank) ?ps) = [m]"
    using tun_reads by (auto simp: tun_msgs_def net_msg_reads len split: sum.splits)
  have rd: "\<forall>bytes\<in>set ?ps. tun_readable ?blank bytes"
    using tun_reads by (auto simp: tun_readable_def net_msg_reads len split: sum.splits) (simp_all add: net_msg_def BaseMsg.defs)
  have po: "requests_wf (po_requests fresh_poller)" "map_of (po_requests fresh_poller) (fd_fd tun_duplex) = None"
    "\<forall>(fd, r)\<in>set (po_requests fresh_poller). rq_callback r \<noteq> None \<and> rq_callback r \<noteq> Some 1"
    by (simp_all add: fresh_poller_eq requests_wf_def int32_ok_def tun_duplex_def)
  have ev: "0 < interval_ms 0 0" "(1 :: u32) AND EPOLLIN \<noteq> 0" "(-1 :: int) < 0" "EAGAIN = EAGAIN \<or> EAGAIN = EWOULDBLOCK"
    by (simp_all add: interval_ms_def to_int32_def)
  have nd: "0 < length (w_nodes tun_world)" "side (w_nodes tun_world ! 0) CHN_OUT = [0]" "[0 :: nat] \<noteq> []" "length [0 :: nat] < 2 ^ 31"
    by (simp_all add: tun_world_def side_def Node_new_def)
  have ch: "\<forall>c\<in>set [0]. c < length (w_chans tun_world) \<and> has_room (length (concat (map (tun_msgs ?blank) ?ps))) (w_chans tun_world ! c)"
    using m by (simp add: tun_world_def has_room_def chan_wf_new [OF sample_channel_new])
  from tun_packets_reach_channels [where g = "\<lambda>_ n. n" and inps = "[]" and ctl = kernel_ctl and kst = "\<lambda>_. None",
      OF p1 po ev(1,2) rd ev(3,4) nd ch refl]
  obtain calls p2 k2 chans where
    r: "poll_round kernel_ctl (\<lambda>_ _. [(fd_fd tun_duplex, 1)]) id 0 0 [] p1 (\<lambda>_. None) = Inr (calls, p2, k2)"
      "run_callbacks (\<lambda>f ev w. if f = 1 then duplex_callback (Tun_FDRecv (\<lambda>_ n. n) ?blank) (map Inr ?ps @ [Inl (-1, EAGAIN)]) 0 ev w
         else done_act w) calls tun_world = done_act (tun_world\<lparr>w_chans := chans\<rparr>)"
      "length chans = length (w_chans tun_world)"
      "\<forall>c<length chans. pending (chans ! c) =
         pending (w_chans tun_world ! c) @ map Some (filter (\<lambda>m. chosen [0] m = c) (concat (map (tun_msgs ?blank) ?ps)))"
    by blast
  have "m_data m = udp_packet" using m tun_msgs_data [of ?blank ?ps] tun_reads
    by (auto simp: net_msg_reads len split: sum.splits)
  moreover have "pending (chans ! 0) = [Some m]"
    using r(3) r(4) [unfolded m] by (simp add: tun_world_def sample_channel_def)
  moreover have "fd_fd tun_duplex = 7" by (simp add: tun_duplex_def)
  ultimately show ?thesis using p1 r(1) r(2) [unfolded list.map append.simps]
    by (intro exI [of _ p1] exI [of _ calls] exI [of _ p2] exI [of _ k2] exI [of _ "tun_world\<lparr>w_chans := chans\<rparr>"] exI [of _ m]) simp
qed

text \<open>An encoder that repeats a message, with the UDP node behind it.\<close>

definition repeat_lib :: "(bool \<times> u64, nat, unit, unit) encoder_library" where
  "repeat_lib = \<lparr>E_PROTOCOL_OVERHEAD = 40, E_BatsEncoder = 0, E_set_mtu = (\<lambda>_. id), E_set_proto_header = (\<lambda>_. id),
     E_DefaultPrecodeSchema = (), E_EncodingSchema = (), E_setEncodeSchema = (\<lambda>_. id), E_setPrecodeSchema = (\<lambda>_. id),
     E_encode = (\<lambda>k m. ([m, m], Suc k))\<rparr>"

definition sending_world :: "(bool \<times> u64, nat) world" where
  "sending_world = \<lparr>w_chans = [sample_channel], w_nodes = [(fst (Encoder_new repeat_lib))\<lparr>n_down := [0]\<rparr>,
     (Node_new NODE_FULL_DUPLEX ''UDP'')\<lparr>n_is_stop := False, n_down := [0]\<rparr>], w_processor_id = (\<lambda>_. 0), w_ext = 0\<rparr>"

definition wire_msg :: "(bool \<times> u64) BaseMsg_scheme" where
  "wire_msg = BaseMsg.extend (blank_msg\<lparr>m_data := replicate 40 0 @ [1, 2]\<rparr>) (True, 5)"

theorem coded_messages_leave_witness:
  "\<exists>w1 v. Encoder_HandleMsg repeat_lib 0 (Some wire_msg) sending_world = done_act w1 \<and>
     (\<forall>fuel. work_loop (2 + fuel) (HandleWritting (udp_fd_write slot_lib 42) 1 0) 1 (with_ext w1 []) =
       work_loop fuel (HandleWritting (udp_fd_write slot_lib 42) 1 0) 1 v) \<and>
     map (drop 40 \<circ> fst) (w_ext v) = [[1, 2], [1, 2]]"
proof -
  have n: "length (w_nodes sending_world) = 2" "side (w_nodes sending_world ! 0) CHN_OUT = [0]" "length (w_chans sending_world) = 1"
      "\<not> n_is_stop (w_nodes sending_world ! 1)" "w_chans sending_world ! 0 = sample_channel"
    by (simp_all add: sending_world_def Encoder_new_def repeat_lib_def side_def Node_new_def)
  have m: "\<not> stop_msg wire_msg" "msg_size wire_msg < 65540" "udp_sendable slot_lib wire_msg" "m_data wire_msg = replicate 40 0 @ [1, 2]"
    using slot_lib_ok by (simp_all add: wire_msg_def blank_msg_def BaseMsg.defs msg_size_def to_int32_def udp_sendable_def slot_lib_def)
  have ch: "has_room (length [wire_msg, wire_msg]) (w_chans sending_world ! 0)" "pending (w_chans sending_world ! 0) = []"
    by (simp_all add: n has_room_def chan_wf_new [OF sample_channel_new])
  have e: "E_encode repeat_lib (w_ext sending_world) wire_msg = ([wire_msg, wire_msg], Suc (w_ext sending_world))"
    by (simp add: repeat_lib_def)
  have i: "0 < length (w_nodes sending_world)" "0 < length (w_chans sending_world)" "1 < length (w_nodes sending_world)"
    "\<forall>m\<in>set [wire_msg, wire_msg]. udp_sendable slot_lib m" using m(3) by (simp_all add: n)
  from coded_messages_leave [OF i(1) n(2) i(2) ch m(1,2) e i(3) n(4) i(4), of 42]
  obtain w1 v where w1: "Encoder_HandleMsg repeat_lib 0 (Some wire_msg) sending_world = done_act w1"
      "\<forall>fuel. work_loop (length [wire_msg, wire_msg] + fuel) (HandleWritting (udp_fd_write slot_lib 42) 1 0) 1 (with_ext w1 []) =
        work_loop fuel (HandleWritting (udp_fd_write slot_lib 42) 1 0) 1 v"
      "w_ext v = map (datagram_of slot_lib) [wire_msg, wire_msg]"
      "drop (H_size slot_lib) (fst (datagram_of slot_lib wire_msg)) = drop (H_size slot_lib) (m_data wire_msg)"
    by auto
  have "\<forall>fuel. work_loop (2 + fuel) (HandleWritting (udp_fd_write slot_lib 42) 1 0) 1 (with_ext w1 []) =
      work_loop fuel (HandleWritting (udp_fd_write slot_lib 42) 1 0) 1 v"
    using w1(2) by (simp add: numeral_2_eq_2)
  moreover have "drop 40 (fst (datagram_of slot_lib wire_msg)) = [1, 2]"
    using w1(4) m(4) by (simp add: slot_lib_def)
  ultimately show ?thesis using w1(1,3) by auto
qed

end
