(* ===== verification/Node_Handlers.thy ===== *)
theory Node_Handlers
  imports Node_System Duplex_Path
begin

text \<open>
  The nodes of the repository among threads: the handlers of the encoder, of the tun node and of the UDP node keep to what the
  workers of \<open>node_step\<close> rely on, so that the properties of \<open>Node_System\<close> hold of these nodes. (The collector,
  whose handler shares more state with other threads, has its own step relation in \<open>Collector_System\<close>.)
\<close>

section \<open>Lemmas\<close>

lemma quiet_ext [simp]: "quiet i (w\<lparr>w_ext := x\<rparr>) w' = quiet i w w'" "quiet i w (w'\<lparr>w_ext := x\<rparr>) = quiet i w w'"
  by (simp_all add: quiet_def evolves_def chans_wf_def)

lemma node_ok_ext [simp]: "node_ok i (w\<lparr>w_ext := x\<rparr>) = node_ok i w"
  by (simp add: node_ok_def chans_wf_def)

lemma quiet_ok: "quiet i w w' \<Longrightarrow> node_ok i w \<Longrightarrow> node_ok i w'"
  using quiet_evolves evolves_ok by blast

lemma dispatch_all_quiet: "node_ok i w \<Longrightarrow> dispatch_all i ms w = done_act w' \<Longrightarrow> quiet i w w'"
proof (induction ms arbitrary: w)
  case Nil
  then show ?case by (auto intro: quiet_refl simp: node_ok_def)
next
  case (Cons m ms)
  then obtain w1 where w1: "Dispatch i (Some m) w = done_act w1" "dispatch_all i ms w1 = done_act w'"
    by (auto simp: bindA_def split: option.splits sum.splits)
  have "quiet i w w1" by (rule Dispatch_quiet [OF Cons.prems(1) w1(1)])
  with Cons.IH [OF quiet_ok w1(2)] Cons.prems(1) show ?case by (blast intro: quiet_trans)
qed

text \<open>The encoder's handler only dispatches, if it is called with a stop signal after it has set the flag.\<close>

abbreviation encoder_handler :: "('e, 'k, 's, 'p) encoder_library \<Rightarrow> ('e, 'k) msg_handler" where
  "encoder_handler E \<equiv> (\<lambda>i m. Encoder_HandleMsg E i (Some m))"

lemma set_stop_quiet: "node_ok i w \<Longrightarrow> quiet i w (set_node i ((w_nodes w ! i)\<lparr>n_is_stop := True\<rparr>) w)"
  by (auto simp: quiet_def node_ok_def same_shape_def intro: set_node_evolves)

lemma encoder_quiet:
  assumes "node_ok i w" and "Encoder_HandleMsg E i (Some m) w = done_act w'"
  shows "quiet i w w'"
proof -
  have i: "i < length (w_nodes w)" using assms(1) by (simp add: node_ok_def)
  show ?thesis
  proof (cases "stop_msg m")
    case True
    let ?w = "set_node i ((w_nodes w ! i)\<lparr>n_is_stop := True\<rparr>) w"
    have "Dispatch i (Some m) ?w = done_act w'"
      using assms(2) True i by (auto simp: Encoder_HandleMsg_def StopSignal_def split: if_splits)
    with set_stop_quiet [OF assms(1)] show ?thesis
      using Dispatch_quiet quiet_ok assms(1) by (blast intro: quiet_trans)
  next
    case False
    with assms(2) i obtain coded encode where "dispatch_all i coded (w\<lparr>w_ext := encode\<rparr>) = done_act w'"
      by (auto simp: Encoder_HandleMsg_def StopSignal_def split: if_splits prod.splits)
    with dispatch_all_quiet [of i "w\<lparr>w_ext := encode\<rparr>"] assms(1) show ?thesis by simp
  qed
qed

interpretation encoder_node: quiet_handler "encoder_handler E" i
  by unfold_locales (rule encoder_quiet)

text \<open>A duplex node's handler writes to its descriptor, which is outside.\<close>

lemma outside_quiet:
  assumes "node_ok i w" and "\<And>ret w1. F i m w = done_act (ret, w1) \<Longrightarrow> \<exists>x. w1 = w\<lparr>w_ext := x\<rparr>"
    and "NodeDuplex_HandleMsg F i m w = done_act w'"
  shows "quiet i w w'"
proof -
  obtain ret where "F i m w = done_act (ret, w')"
    using assms(3) by (auto simp: NodeDuplex_HandleMsg_def bindA_def split: option.splits sum.splits)
  with assms(2) obtain x where "w' = w\<lparr>w_ext := x\<rparr>" by blast
  with assms(1) show ?thesis by (auto intro: quiet_refl simp: node_ok_def)
qed

lemma tun_fd_write_outside: "tun_fd_write fuel i m w = done_act (ret, w1) \<Longrightarrow> \<exists>x. w1 = w\<lparr>w_ext := x\<rparr>"
  by (auto simp: tun_fd_write_def bindA_def split: option.splits sum.splits)

lemma udp_fd_write_outside: "udp_fd_write U sent i m w = done_act (ret, w1) \<Longrightarrow> \<exists>x. w1 = w\<lparr>w_ext := x\<rparr>"
  by (auto simp: udp_fd_write_def bindA_def split: option.splits sum.splits)

interpretation tun_node: quiet_handler "NodeDuplex_HandleMsg (tun_fd_write fuel)" i
  by unfold_locales (rule outside_quiet [OF _ tun_fd_write_outside])

interpretation udp_node: quiet_handler "NodeDuplex_HandleMsg (udp_fd_write U sent)" i
  by unfold_locales (rule outside_quiet [OF _ udp_fd_write_outside])

section \<open>Properties\<close>

text \<open>A duplex node has one thread (\<open>RunAsThreads\<close> refuses more), so that its messages are written in the order in which its
  channel accepted them, whatever the writers do and whenever it is stopped; the same holds for a relay node with one thread.\<close>

lemma one_reader: "length ws \<le> 1 \<Longrightarrow> readers d ws \<le> 1"
  by (cases ws) auto

lemma one_worker_in_order:
  assumes "quiet_handler H i" and "node_ok i w" and "node_run H i ls (node_start 1 w) s" and "d \<in> set (side (w_nodes w ! i) CHN_IN)"
  shows "non_null (ns_accepted s d) = ns_finished s d @ hands d (ns_workers s) @ non_null (pending (w_chans (ns_w s) ! d))"
proof -
  have "node_inv i s" by (rule quiet_handler.run_inv [OF assms(1) node_start_inv [OF assms(2)] assms(3)])
  moreover have "evolves i w (ns_w s)"
    using quiet_handler.run_evolves [OF assms(1) _ assms(3)] assms(2) by (simp add: node_start_def)
  moreover have "readers d (ns_workers s) \<le> 1"
    using run_workers [OF assms(3)] by (intro one_reader) (simp add: node_start_def)
  ultimately show ?thesis
    using assms(4) by (simp add: node_inv_def handled_def flows_def evolves_side)
qed

theorem duplex_nodes_in_order:
  assumes "node_ok i w" and "d \<in> set (side (w_nodes w ! i) CHN_IN)"
  shows "node_run (NodeDuplex_HandleMsg (tun_fd_write fuel)) i ls (node_start 1 w) s \<Longrightarrow>
      non_null (ns_accepted s d) = ns_finished s d @ hands d (ns_workers s) @ non_null (pending (w_chans (ns_w s) ! d))"
    and "node_run (NodeDuplex_HandleMsg (udp_fd_write U sent)) i ls' (node_start 1 w') s' \<Longrightarrow> node_ok i w' \<Longrightarrow>
      d \<in> set (side (w_nodes w' ! i) CHN_IN) \<Longrightarrow>
      non_null (ns_accepted s' d) = ns_finished s' d @ hands d (ns_workers s') @ non_null (pending (w_chans (ns_w s') ! d))"
  using one_worker_in_order [OF tun_node.quiet_handler_axioms assms(1) _ assms(2)]
    one_worker_in_order [OF udp_node.quiet_handler_axioms, of i w' U sent ls' s' d] by blast+

end
