(* ===== verification/Timer.thy ===== *)
theory Timer
  imports Wait_Queue
begin

text \<open>
  The timer service, \<open>src/src/util/timer.h\<close> and \<open>timer.cc\<close>.

  Timers are shared objects: the manager's list and its time-out queue hold addresses into
  \<open>tm_heap\<close>. The callback of a timer is code of the client; a worker that takes a timer
  from the queue is said to handle it, and what the callback does to the service is a sequence
  of calls like those of any other thread. \<open>TimersTick\<close> holds \<open>mutex_\<close> throughout, and
  the mutex of one timer while it handles that timer. Its waits in \<open>WaitEnqueue\<close> take a list of
  interferences per timer, as in \<open>Wait_Queue\<close>.

  \<open>timer_step\<close> interleaves the ticking thread, the worker and the callers: the ticking
  thread takes one step per timer it visits, and the lock rules are the guards of the steps.
\<close>

section \<open>Model\<close>

subsection \<open>Timers and their manager\<close>

record Timer =
  t_refcnt :: int
  t_cancelled :: bool
  t_oneshot :: bool
  t_expires :: u64
  t_start :: u64

text \<open>The constructor leaves \<open>start\<close> uninitialised; its value is an argument.\<close>

definition Timer_new :: "u64 \<Rightarrow> u64 \<Rightarrow> Timer" where
  "Timer_new garbage expire =
     \<lparr>t_refcnt = 1, t_cancelled = False, t_oneshot = False, t_expires = expire, t_start = garbage\<rparr>"

record TimerManager =
  tm_heap :: "Timer list"
  tm_timers :: "nat list"
  tm_tick :: u64
  tm_resolution :: u64
  tm_timeout :: "nat option Queue option"
  tm_workers :: nat
  tm_stop :: bool

definition TimerManager_new :: "Timer list \<Rightarrow> TimerManager" where
  "TimerManager_new h =
     \<lparr>tm_heap = h, tm_timers = [], tm_tick = 0, tm_resolution = 5, tm_timeout = None,
      tm_workers = 0, tm_stop = False\<rparr>"

definition put_timer :: "nat \<Rightarrow> Timer \<Rightarrow> TimerManager \<Rightarrow> TimerManager" where
  "put_timer a t m = m\<lparr>tm_heap := (tm_heap m)[a := t]\<rparr>"

definition TimerManager_Size :: "TimerManager \<Rightarrow> int" where
  "TimerManager_Size m = to_int32 (int (length (tm_timers m)))"

subsection \<open>Adding and cancelling\<close>

definition AddTimer :: "nat \<Rightarrow> TimerManager \<Rightarrow> TimerManager res" where
  "AddTimer a m =
     bindE (deref (tm_heap m) a) (\<lambda>t.
       if t_expires t mod tm_resolution m \<noteq> 0
       then Inl (runtime_error ''Invalid expire time settting.'')
       else if t_expires t \<le> 0 then Inr m
       else let m' = put_timer a (t\<lparr>t_start := tm_tick m\<rparr>) m
            in Inr (m'\<lparr>tm_timers := tm_timers m' @ [a]\<rparr>))"

text \<open>An exception of \<open>AddTimer\<close> leaves the timer marked as a oneshot timer.\<close>

definition AddOneshotTimer :: "nat \<Rightarrow> TimerManager \<Rightarrow> unit res \<times> TimerManager" where
  "AddOneshotTimer a m =
     (case deref (tm_heap m) a of
        Inl e \<Rightarrow> (Inl e, m)
      | Inr t \<Rightarrow>
          let m1 = put_timer a (t\<lparr>t_oneshot := True\<rparr>) m in
          (case AddTimer a m1 of Inl e \<Rightarrow> (Inl e, m1) | Inr m' \<Rightarrow> (Inr (), m')))"

definition CancelTimer :: "nat \<Rightarrow> TimerManager \<Rightarrow> TimerManager res" where
  "CancelTimer a m =
     bindE (deref (tm_heap m) a) (\<lambda>t.
     bindE (sub32 (t_refcnt t) 1) (\<lambda>r.
       Inr (put_timer a (t\<lparr>t_refcnt := r, t_cancelled := True\<rparr>) m)))"

subsection \<open>One tick\<close>

definition due :: "Timer \<Rightarrow> u64 \<Rightarrow> bool" where
  "due t now \<longleftrightarrow> \<not> t_cancelled t \<and> t_expires t + t_start t = now"

definition expire :: "Timer \<Rightarrow> Timer res" where
  "expire t =
     (if t_oneshot t
      then bindE (sub32 (t_refcnt t) 1) (\<lambda>r. Inr (t\<lparr>t_cancelled := True, t_refcnt := r\<rparr>))
      else Inr t)"

text \<open>The body of the loop for the timer at \<open>a\<close>; the boolean says whether it is to be erased.\<close>

definition visit_timer :: "nat option interference \<Rightarrow> nat \<Rightarrow> TimerManager \<Rightarrow> (bool \<times> TimerManager) act" where
  "visit_timer env a m =
     bindA (Some (deref (tm_heap m) a)) (\<lambda>t.
     bindA (if due t (tm_tick m)
            then bindA (Some (expire t)) (\<lambda>t1.
                 let m1 = put_timer a (t1\<lparr>t_start := tm_tick m\<rparr>) m in
                 (case tm_timeout m1 of
                    None \<Rightarrow> fail_act NullDereference
                  | Some q \<Rightarrow> bindA (WaitEnqueue env (Some a) q) (\<lambda>(ok, q').
                              done_act (m1\<lparr>tm_timeout := Some q'\<rparr>))))
            else done_act m) (\<lambda>m2.
     bindA (Some (deref (tm_heap m2) a)) (\<lambda>t2.
       done_act (t_cancelled t2 \<and> t_refcnt t2 \<le> 0, m2))))"

definition erase_at :: "nat \<Rightarrow> 'a list \<Rightarrow> 'a list" where
  "erase_at k xs = take k xs @ drop (Suc k) xs"

definition advance :: "nat \<Rightarrow> bool \<Rightarrow> TimerManager \<Rightarrow> nat \<times> TimerManager" where
  "advance k erase m =
     (if erase then (k, m\<lparr>tm_timers := erase_at k (tm_timers m)\<rparr>) else (Suc k, m))"

text \<open>
  The loop over the list from position \<open>k\<close>; every iteration shortens what is left of the
  list, so its original length is enough fuel.
\<close>

fun tick_loop :: "nat \<Rightarrow> nat option interference list \<Rightarrow> nat \<Rightarrow> TimerManager \<Rightarrow> TimerManager act" where
  "tick_loop fuel envs k m =
     (if k \<ge> length (tm_timers m) then done_act m
      else case fuel of 0 \<Rightarrow> None
      | Suc fuel' \<Rightarrow>
          let (env, envs') = (case envs of [] \<Rightarrow> ([], []) | e # es \<Rightarrow> (e, es)) in
          bindA (visit_timer env (tm_timers m ! k) m) (\<lambda>(erase, m').
          let (k', m'') = advance k erase m' in tick_loop fuel' envs' k' m''))"

declare tick_loop.simps [simp del]

definition TimersTick :: "nat option interference list \<Rightarrow> TimerManager \<Rightarrow> TimerManager act" where
  "TimersTick envs m = tick_loop (length (tm_timers m)) envs 0 m"

subsection \<open>The service\<close>

definition worker_num :: nat where
  "worker_num = 1"

definition InitThreadPool :: "string \<Rightarrow> TimerManager \<Rightarrow> TimerManager res" where
  "InitThreadPool uuid m =
     bindE (Queue_new uuid ''timerq'' 10) (\<lambda>q.
       Inr (m\<lparr>tm_timeout := Some q, tm_workers := tm_workers m + worker_num\<rparr>))"

definition tick_once :: "TimerManager \<Rightarrow> TimerManager" where
  "tick_once m = m\<lparr>tm_tick := tm_tick m + tm_resolution m\<rparr>"

text \<open>
  The loop of \<open>Start\<close> and of the thread of \<open>StartAsThread\<close>, for at most as many rounds as
  the list of environments has: one round per element, which gives what the other threads do
  to the service while it sleeps and during the waits of that tick.
\<close>

fun Start_loop :: "((TimerManager \<Rightarrow> TimerManager) \<times> nat option interference list) list \<Rightarrow>
    TimerManager \<Rightarrow> TimerManager act" where
  "Start_loop rounds m =
     (if tm_stop m then done_act m
      else case rounds of [] \<Rightarrow> None
      | (others, envs) # rounds' \<Rightarrow>
          bindA (TimersTick envs (tick_once (others m))) (Start_loop rounds'))"

declare Start_loop.simps [simp del]

definition Start :: "string \<Rightarrow> ((TimerManager \<Rightarrow> TimerManager) \<times> nat option interference list) list \<Rightarrow>
    TimerManager \<Rightarrow> TimerManager act" where
  "Start uuid rounds m = bindA (Some (InitThreadPool uuid m)) (Start_loop rounds)"

definition StartAsThread :: "string \<Rightarrow> TimerManager \<Rightarrow> TimerManager res" where
  "StartAsThread uuid m =
     bindE (InitThreadPool uuid m) (\<lambda>m'. Inr (m'\<lparr>tm_workers := tm_workers m' + 1\<rparr>))"

text \<open>One round of a worker of the pool; the callback of the timer is the argument \<open>handler\<close>.\<close>

definition worker_round ::
    "nat option interference \<Rightarrow> (nat \<Rightarrow> TimerManager \<Rightarrow> TimerManager act) \<Rightarrow> TimerManager \<Rightarrow> TimerManager act" where
  "worker_round env handler m =
     (case tm_timeout m of
        None \<Rightarrow> fail_act NullDereference
      | Some q \<Rightarrow>
          bindA (WaitDequeue env None q) (\<lambda>((_, timer), q').
            let m' = m\<lparr>tm_timeout := Some q'\<rparr> in
            case timer of None \<Rightarrow> done_act m' | Some a \<Rightarrow> handler a m'))"

text \<open>
  \<open>Stop\<close>, up to the joining of the threads: after it every loop of the service ends, since
  its condition \<open>!stop_\<close> is false and no wait on the queue lasts.
\<close>

definition TimerManager_Stop :: "TimerManager \<Rightarrow> TimerManager res" where
  "TimerManager_Stop m =
     (let m' = m\<lparr>tm_stop := True\<rparr> in
      case tm_timeout m' of
        None \<Rightarrow> Inl NullDereference
      | Some q \<Rightarrow> bindE (BreakAllWait q) (\<lambda>q'. Inr (m'\<lparr>tm_timeout := Some q'\<rparr>)))"

definition TimerManager_destroy :: "TimerManager \<Rightarrow> TimerManager res" where
  "TimerManager_destroy m = TimerManager_Stop m"

subsection \<open>The threads of the service\<close>

text \<open>
  The ticking thread sleeps, has advanced the tick (\<open>Ticked\<close>) or visits position \<open>k\<close> of the
  list (\<open>Scan k\<close>, holding \<open>mutex_\<close>). The log records when, in ticks since the start, a timer was
  added or expired, and whether its expiry was queued.
\<close>

datatype ticker_pc = Sleep | Ticked | Scan nat | Exited

datatype timer_event = Added nat nat | Expired nat nat bool

record timer_sys =
  ts_m :: TimerManager
  ts_pc :: ticker_pc
  ts_now :: nat
  ts_log :: "timer_event list"
  ts_handled :: "nat option list"

datatype timer_label = LTick | LBegin | LVisit | LEnd | LExit | LAdd nat | LCancel nat | LDequeue | LStop

abbreviation holds_mutex :: "timer_sys \<Rightarrow> bool" where
  "holds_mutex s \<equiv> (\<exists>k. ts_pc s = Scan k)"

text \<open>The ticking thread waits in \<open>WaitEnqueue\<close> with the mutex of the timer at \<open>a\<close> held.\<close>

definition blocked_on :: "nat \<Rightarrow> timer_sys \<Rightarrow> bool" where
  "blocked_on a s \<longleftrightarrow>
     (case ts_pc s of Scan k \<Rightarrow> k < length (tm_timers (ts_m s)) \<and> tm_timers (ts_m s) ! k = a \<and>
                              visit_timer [] a (ts_m s) = None
      | _ \<Rightarrow> False)"

definition visit_events :: "nat \<Rightarrow> nat \<Rightarrow> TimerManager \<Rightarrow> timer_event list" where
  "visit_events now a m =
     (if due (tm_heap m ! a) (tm_tick m)
      then [Expired a now (case tm_timeout m of None \<Rightarrow> False | Some q \<Rightarrow> \<not> q_break q)] else [])"

definition added_events :: "nat \<Rightarrow> nat \<Rightarrow> TimerManager \<Rightarrow> timer_event list" where
  "added_events now a m =
     (if t_expires (tm_heap m ! a) mod tm_resolution m = 0 \<and> t_expires (tm_heap m ! a) \<noteq> 0
      then [Added a now] else [])"

inductive timer_step :: "timer_label \<Rightarrow> timer_sys \<Rightarrow> timer_sys \<Rightarrow> bool" where
  tick: "ts_pc s = Sleep \<Longrightarrow> \<not> tm_stop (ts_m s) \<Longrightarrow>
     timer_step LTick s (s\<lparr>ts_m := tick_once (ts_m s), ts_now := Suc (ts_now s), ts_pc := Ticked\<rparr>)"
| exit: "ts_pc s = Sleep \<Longrightarrow> tm_stop (ts_m s) \<Longrightarrow> timer_step LExit s (s\<lparr>ts_pc := Exited\<rparr>)"
| begin_scan: "ts_pc s = Ticked \<Longrightarrow> timer_step LBegin s (s\<lparr>ts_pc := Scan 0\<rparr>)"
| visit: "ts_pc s = Scan k \<Longrightarrow> k < length (tm_timers (ts_m s)) \<Longrightarrow> a = tm_timers (ts_m s) ! k \<Longrightarrow>
     visit_timer [] a (ts_m s) = done_act (erase, m1) \<Longrightarrow> advance k erase m1 = (k', m') \<Longrightarrow>
     timer_step LVisit s (s\<lparr>ts_m := m', ts_pc := Scan k',
                          ts_log := ts_log s @ visit_events (ts_now s) a (ts_m s)\<rparr>)"
| end_scan: "ts_pc s = Scan k \<Longrightarrow> length (tm_timers (ts_m s)) \<le> k \<Longrightarrow>
     timer_step LEnd s (s\<lparr>ts_pc := Sleep\<rparr>)"
| add: "\<not> holds_mutex s \<Longrightarrow> AddTimer a (ts_m s) = Inr m' \<Longrightarrow>
     timer_step (LAdd a) s (s\<lparr>ts_m := m', ts_log := ts_log s @ added_events (ts_now s) a (ts_m s)\<rparr>)"
| add_oneshot: "\<not> holds_mutex s \<Longrightarrow> a < length (tm_heap (ts_m s)) \<Longrightarrow>
     AddOneshotTimer a (ts_m s) = (r, m') \<Longrightarrow>
     timer_step (LAdd a) s (s\<lparr>ts_m := m', ts_log := ts_log s @ added_events (ts_now s) a (ts_m s)\<rparr>)"
| cancel: "\<not> blocked_on a s \<Longrightarrow> CancelTimer a (ts_m s) = Inr m' \<Longrightarrow>
     timer_step (LCancel a) s (s\<lparr>ts_m := m'\<rparr>)"
| dequeue: "tm_timeout (ts_m s) = Some q \<Longrightarrow> WaitDequeue [] None q = done_act ((True, x), q') \<Longrightarrow>
     timer_step LDequeue s (s\<lparr>ts_m := (ts_m s)\<lparr>tm_timeout := Some q'\<rparr>, ts_handled := ts_handled s @ [x]\<rparr>)"
| stop: "TimerManager_Stop (ts_m s) = Inr m' \<Longrightarrow> timer_step LStop s (s\<lparr>ts_m := m'\<rparr>)"

inductive_cases timer_stepE: "timer_step l s t"

definition timers_start :: "TimerManager \<Rightarrow> timer_sys" where
  "timers_start m = \<lparr>ts_m = m, ts_pc = Sleep, ts_now = 0, ts_log = [], ts_handled = []\<rparr>"

section \<open>Lemmas\<close>

subsection \<open>The log\<close>

fun event_timer :: "timer_event \<Rightarrow> nat" where
  "event_timer (Added a n) = a"
| "event_timer (Expired a n ok) = a"

fun event_time :: "timer_event \<Rightarrow> nat" where
  "event_time (Added a n) = n"
| "event_time (Expired a n ok) = n"

fun is_expiry :: "timer_event \<Rightarrow> bool" where
  "is_expiry (Added a n) = False"
| "is_expiry (Expired a n ok) = True"

definition events_of :: "nat \<Rightarrow> timer_event list \<Rightarrow> timer_event list" where
  "events_of a es = filter (\<lambda>e. event_timer e = a) es"

fun queued :: "timer_event list \<Rightarrow> nat option list" where
  "queued [] = []"
| "queued (Expired a n True # es) = Some a # queued es"
| "queued (_ # es) = queued es"

lemma queued_append [simp]: "queued (xs @ ys) = queued xs @ queued ys"
  by (induction xs rule: queued.induct) auto

lemma events_of_simps [simp]:
  "events_of a [] = []"
  "events_of a (e # es) = (if event_timer e = a then e # events_of a es else events_of a es)"
  by (simp_all add: events_of_def)

lemma events_of_append [simp]: "events_of a (xs @ ys) = events_of a xs @ events_of a ys"
  by (simp add: events_of_def)

text \<open>
  Every expiry comes exactly \<open>d\<close> milliseconds (five per tick) after the preceding event of
  the same timer, which is its addition or its previous expiry.
\<close>

definition punctual :: "u64 \<Rightarrow> timer_event list \<Rightarrow> bool" where
  "punctual d es \<longleftrightarrow> (\<forall>i<length es. is_expiry (es ! i) \<longrightarrow>
     0 < i \<and> 5 * event_time (es ! i) = 5 * event_time (es ! (i - 1)) + unat d)"

lemma punctual_Nil [simp]: "punctual d []"
  by (simp add: punctual_def)

lemma punctual_snoc:
  "punctual d (es @ [e]) \<longleftrightarrow> punctual d es \<and>
     (is_expiry e \<longrightarrow> es \<noteq> [] \<and> 5 * event_time e = 5 * event_time (last es) + unat d)"
proof -
  have "(es @ [e]) ! (i - 1) = es ! (i - 1)" if "i < length es" for i
    using that by (auto simp: nth_append)
  moreover have "(es @ [e]) ! (length es - 1) = last es" if "es \<noteq> []"
    using that by (simp add: nth_append last_conv_nth)
  ultimately show ?thesis
    by (auto simp: punctual_def less_Suc_eq all_conj_distrib nth_append_left)
qed

subsection \<open>When a timer is due\<close>

text \<open>
  A timer of the list that is not cancelled was started at its last event and is not overdue;
  it is exactly due only if the ticking thread still has to visit it (\<open>may\<close>).
\<close>

definition on_schedule :: "bool \<Rightarrow> nat \<Rightarrow> Timer \<Rightarrow> timer_event list \<Rightarrow> bool" where
  "on_schedule may now t es \<longleftrightarrow> \<not> t_cancelled t \<longrightarrow>
     es \<noteq> [] \<and> event_time (last es) \<le> now \<and> t_start t = of_nat (5 * event_time (last es)) \<and>
     0 < unat (t_expires t) \<and> 5 dvd unat (t_expires t) \<and>
     5 * (now - event_time (last es)) \<le> unat (t_expires t) \<and>
     (5 * (now - event_time (last es)) = unat (t_expires t) \<longrightarrow> may)"

lemma word_eq_of_nat:
  fixes w :: u64
  assumes "n \<le> unat w"
  shows "w = of_nat n \<longleftrightarrow> unat w = n"
proof
  assume "w = of_nat n"
  then have "unat w = n mod 2 ^ 64" by (simp only: unat_of_nat len_bit0 len_num1) simp
  with assms show "unat w = n"
    using mod_less_eq_dividend [of n "2 ^ 64"] by simp
next
  assume "unat w = n"
  then show "w = of_nat n" by auto
qed

lemma due_iff:
  assumes "on_schedule may now t es" and "\<not> t_cancelled t"
  shows "due t (of_nat (5 * now)) \<longleftrightarrow> 5 * (now - event_time (last es)) = unat (t_expires t)"
proof -
  let ?n = "event_time (last es)"
  have n: "?n \<le> now" "t_start t = of_nat (5 * ?n)" "5 * (now - ?n) \<le> unat (t_expires t)"
    using assms by (simp_all add: on_schedule_def)
  then have "5 * now = 5 * (now - ?n) + 5 * ?n" by simp
  then have "(of_nat (5 * now) :: u64) = of_nat (5 * (now - ?n)) + of_nat (5 * ?n)"
    by (metis of_nat_add)
  then have "due t (of_nat (5 * now)) \<longleftrightarrow> t_expires t = of_nat (5 * (now - ?n))"
    using assms(2) n(2) by (simp add: due_def del: of_nat_mult)
  also have "\<dots> \<longleftrightarrow> unat (t_expires t) = 5 * (now - ?n)"
    using n(3) by (rule word_eq_of_nat)
  finally show ?thesis by auto
qed

lemma on_schedule_cancelled [simp]: "t_cancelled t \<Longrightarrow> on_schedule may now t es"
  by (simp add: on_schedule_def)

lemma on_schedule_weaken: "on_schedule may now t es \<Longrightarrow> (may \<Longrightarrow> may') \<Longrightarrow> on_schedule may' now t es"
  by (auto simp: on_schedule_def)

lemma on_schedule_not_due:
  "on_schedule may now t es \<Longrightarrow> \<not> due t (of_nat (5 * now)) \<Longrightarrow> on_schedule False now t es"
  using due_iff [of may now t es] by (auto simp: on_schedule_def)

lemma on_schedule_tick:
  assumes "on_schedule False now t es"
  shows "on_schedule True (Suc now) t es"
proof -
  have "5 * (Suc now - n) \<le> e" if "5 * (now - n) < e" "n \<le> now" "5 dvd e" for n e :: nat
    using that by (auto simp: dvd_def)
  with assms show ?thesis by (auto simp: on_schedule_def Suc_diff_le)
qed

lemma on_schedule_started:
  "t_start t = of_nat (5 * now) \<Longrightarrow> es \<noteq> [] \<Longrightarrow> event_time (last es) = now \<Longrightarrow>
   0 < unat (t_expires t) \<Longrightarrow> 5 dvd unat (t_expires t) \<Longrightarrow> on_schedule False now t es"
  by (simp add: on_schedule_def)

subsection \<open>What the operations do\<close>

lemma put_timer_sel [simp]:
  "tm_heap (put_timer a t m) = (tm_heap m)[a := t]"
  "tm_timers (put_timer a t m) = tm_timers m" "tm_tick (put_timer a t m) = tm_tick m"
  "tm_resolution (put_timer a t m) = tm_resolution m" "tm_timeout (put_timer a t m) = tm_timeout m"
  "tm_stop (put_timer a t m) = tm_stop m"
  by (simp_all add: put_timer_def)

lemma tick_once_sel [simp]:
  "tm_heap (tick_once m) = tm_heap m" "tm_timers (tick_once m) = tm_timers m"
  "tm_tick (tick_once m) = tm_tick m + tm_resolution m" "tm_resolution (tick_once m) = tm_resolution m"
  "tm_timeout (tick_once m) = tm_timeout m" "tm_stop (tick_once m) = tm_stop m"
  by (simp_all add: tick_once_def)

lemma expireD:
  "expire t = Inr t1 \<Longrightarrow> t_expires t1 = t_expires t \<and> t_oneshot t1 = t_oneshot t \<and>
     t_cancelled t1 = (t_cancelled t \<or> t_oneshot t)"
  by (auto simp: expire_def split: if_splits)

text \<open>What a worker or an expiry leaves of the time-out queue.\<close>

definition push_unless_broken :: "'a \<Rightarrow> 'a Queue \<Rightarrow> 'a Queue" where
  "push_unless_broken x q = (if q_break q then q else q\<lparr>q_pool := q_pool q @ [x]\<rparr>)"

lemma push_unless_broken_sel [simp]:
  "q_break (push_unless_broken x q) = q_break q"
  "q_pool (push_unless_broken x q) = q_pool q @ (if q_break q then [] else [x])"
  "q_pool_size (push_unless_broken x q) = q_pool_size q"
  by (simp_all add: push_unless_broken_def)

lemma WaitEnqueue_doneD:
  assumes "queue_wf q" and "WaitEnqueue [] x q = done_act (ok, q')"
  shows "q' = push_unless_broken x q \<and> queue_wf q'"
  using assms by (auto simp: WaitEnqueue_Nil queue_wf_def push_unless_broken_def split: if_splits)

lemma visit_timer_cases:
  assumes "visit_timer [] a m = done_act (erase, m')" and "a < length (tm_heap m)"
    and "tm_timeout m = Some q" and "queue_wf q"
  obtains (idle) "\<not> due (tm_heap m ! a) (tm_tick m)" "m' = m"
      "erase = (t_cancelled (tm_heap m ! a) \<and> t_refcnt (tm_heap m ! a) \<le> 0)"
  | (expired) t1 where "due (tm_heap m ! a) (tm_tick m)" "expire (tm_heap m ! a) = Inr t1"
      "m' = (put_timer a (t1\<lparr>t_start := tm_tick m\<rparr>) m)\<lparr>tm_timeout := Some (push_unless_broken (Some a) q)\<rparr>"
      "queue_wf (push_unless_broken (Some a) q)"
      "erase = (t_cancelled t1 \<and> t_refcnt t1 \<le> 0)"
proof (cases "due (tm_heap m ! a) (tm_tick m)")
  case False
  with assms show ?thesis by (intro idle) (auto simp: visit_timer_def)
next
  case True
  with assms obtain t1 ok q' where "expire (tm_heap m ! a) = Inr t1"
      "WaitEnqueue [] (Some a) q = done_act (ok, q')"
      "m' = (put_timer a (t1\<lparr>t_start := tm_tick m\<rparr>) m)\<lparr>tm_timeout := Some q'\<rparr>"
      "erase = (t_cancelled t1 \<and> t_refcnt t1 \<le> 0)"
    by (fastforce simp: visit_timer_def Let_def)
  with True WaitEnqueue_doneD [OF assms(4)] show ?thesis
    by (intro expired) auto
qed

lemma AddTimer_eq:
  assumes "a < length (tm_heap m)"
  shows "AddTimer a m =
    (let t = tm_heap m ! a in
     if t_expires t mod tm_resolution m \<noteq> 0 then Inl (runtime_error ''Invalid expire time settting.'')
     else if t_expires t = 0 then Inr m
     else Inr ((put_timer a (t\<lparr>t_start := tm_tick m\<rparr>) m)\<lparr>tm_timers := tm_timers m @ [a]\<rparr>))"
  using assms by (simp add: AddTimer_def Let_def)

lemma AddTimer_bound: "AddTimer a m = Inr m' \<Longrightarrow> a < length (tm_heap m)"
  by (auto simp: AddTimer_def deref_def split: if_splits)

lemma CancelTimerD:
  "CancelTimer a m = Inr m' \<Longrightarrow> a < length (tm_heap m) \<and>
     (\<exists>r. m' = put_timer a ((tm_heap m ! a)\<lparr>t_refcnt := r, t_cancelled := True\<rparr>) m)"
  by (auto simp: CancelTimer_def deref_def split: if_splits)

lemma StopD:
  "TimerManager_Stop m = Inr m' \<Longrightarrow>
     \<exists>q. tm_timeout m = Some q \<and> m' = m\<lparr>tm_stop := True, tm_timeout := Some (q\<lparr>q_break := True\<rparr>)\<rparr>"
  by (auto simp: TimerManager_Stop_def Let_def split: option.splits dest: BreakAllWaitD)

lemma erase_at_subset: "set (erase_at k xs) \<subseteq> set xs"
  by (auto simp: erase_at_def dest: in_set_takeD in_set_dropD)

lemma drop_erase_at: "k < length xs \<Longrightarrow> drop k (erase_at k xs) = drop (Suc k) xs"
  by (simp add: erase_at_def)

lemma advance_sel:
  assumes "advance k erase m = (k', m')"
  shows "tm_heap m' = tm_heap m" "tm_tick m' = tm_tick m" "tm_resolution m' = tm_resolution m"
    "tm_timeout m' = tm_timeout m" "tm_stop m' = tm_stop m" "set (tm_timers m') \<subseteq> set (tm_timers m)"
    "k < length (tm_timers m) \<Longrightarrow> drop k' (tm_timers m') = drop (Suc k) (tm_timers m)"
  using assms erase_at_subset [of k "tm_timers m"]
  by (auto simp: advance_def drop_erase_at split: if_splits)

subsection \<open>The invariant of the service\<close>

definition may_be_due :: "ticker_pc \<Rightarrow> nat list \<Rightarrow> nat \<Rightarrow> bool" where
  "may_be_due pc timers a \<longleftrightarrow> pc = Ticked \<or> (\<exists>k. pc = Scan k \<and> a \<in> set (drop k timers))"

definition clock_ok :: "timer_sys \<Rightarrow> bool" where
  "clock_ok s \<longleftrightarrow> tm_resolution (ts_m s) = 5 \<and> tm_tick (ts_m s) = of_nat (5 * ts_now s)"

definition schedule_ok :: "timer_sys \<Rightarrow> bool" where
  "schedule_ok s \<longleftrightarrow> (\<forall>a\<in>set (tm_timers (ts_m s)). a < length (tm_heap (ts_m s)) \<and>
     on_schedule (may_be_due (ts_pc s) (tm_timers (ts_m s)) a) (ts_now s) (tm_heap (ts_m s) ! a)
       (events_of a (ts_log s)))"

definition log_ok :: "timer_sys \<Rightarrow> bool" where
  "log_ok s \<longleftrightarrow> (\<forall>a<length (tm_heap (ts_m s)).
     punctual (t_expires (tm_heap (ts_m s) ! a)) (events_of a (ts_log s)))"

definition queue_ok :: "timer_sys \<Rightarrow> bool" where
  "queue_ok s \<longleftrightarrow> (\<exists>q. tm_timeout (ts_m s) = Some q \<and> queue_wf q \<and>
     ts_handled s @ q_pool q = queued (ts_log s) \<and> (q_break q \<longrightarrow> tm_stop (ts_m s)) \<and>
     (\<forall>a n. Expired a n False \<in> set (ts_log s) \<longrightarrow> tm_stop (ts_m s)))"

definition timers_inv :: "timer_sys \<Rightarrow> bool" where
  "timers_inv s \<longleftrightarrow> clock_ok s \<and> schedule_ok s \<and> log_ok s \<and> queue_ok s"

lemma timers_inv_start:
  assumes "InitThreadPool uuid (TimerManager_new h) = Inr m"
  shows "timers_inv (timers_start m)"
proof -
  have "events_of a [] = []" for a by (simp add: events_of_def)
  then show ?thesis
    using assms
    by (auto simp: InitThreadPool_def TimerManager_new_def Queue_new_eq timers_inv_def clock_ok_def schedule_ok_def
        log_ok_def queue_ok_def timers_start_def queue_wf_def)
qed

lemma may_be_due_visit:
  "may_be_due (Scan k) ts b \<Longrightarrow> k < length ts \<Longrightarrow> b \<noteq> ts ! k \<Longrightarrow>
   drop k' ts' = drop (Suc k) ts \<Longrightarrow> may_be_due (Scan k') ts' b"
  by (auto simp: may_be_due_def) (metis Cons_nth_drop_Suc set_ConsD)

lemma events_of_other [simp]:
  "a \<noteq> b \<Longrightarrow> events_of b (visit_events n a m) = []"
  "a \<noteq> b \<Longrightarrow> events_of b (added_events n a m) = []"
  by (auto simp: events_of_def visit_events_def added_events_def)

lemma events_of_same [simp]:
  "events_of a (visit_events n a m) = visit_events n a m"
  "events_of a (added_events n a m) = added_events n a m"
  by (auto simp: events_of_def visit_events_def added_events_def)

lemma schedule_visit:
  assumes inv: "clock_ok s" "schedule_ok s" "queue_ok s" and pc: "ts_pc s = Scan k" "k < length (tm_timers (ts_m s))"
    and v: "visit_timer [] (tm_timers (ts_m s) ! k) (ts_m s) = done_act (erase, m1)" "advance k erase m1 = (k', m')"
  shows "schedule_ok (s\<lparr>ts_m := m', ts_pc := Scan k',
     ts_log := ts_log s @ visit_events (ts_now s) (tm_timers (ts_m s) ! k) (ts_m s)\<rparr>)"
proof -
  let ?m = "ts_m s" and ?a = "tm_timers (ts_m s) ! k"
  let ?es = "\<lambda>b. events_of b (ts_log s @ visit_events (ts_now s) ?a ?m)"
  obtain q where q: "tm_timeout ?m = Some q" "queue_wf q" using inv(3) by (auto simp: queue_ok_def)
  have old: "b < length (tm_heap ?m)"
      "on_schedule (may_be_due (Scan k) (tm_timers ?m) b) (ts_now s) (tm_heap ?m ! b) (events_of b (ts_log s))"
    if "b \<in> set (tm_timers ?m)" for b
    using inv(2) that pc(1) by (auto simp: schedule_ok_def)
  have a: "?a < length (tm_heap ?m)" using old pc(2) by simp
  note new = advance_sel [OF v(2)]
  have tick: "tm_tick ?m = of_nat (5 * ts_now s)" using inv(1) by (simp add: clock_ok_def)
  have "tm_timers m1 = tm_timers ?m \<and> length (tm_heap m1) = length (tm_heap ?m) \<and>
      (\<forall>b\<in>set (tm_timers ?m). b \<noteq> ?a \<longrightarrow> tm_heap m1 ! b = tm_heap ?m ! b) \<and>
      on_schedule False (ts_now s) (tm_heap m1 ! ?a) (?es ?a)"
    using v(1) a q
  proof (cases rule: visit_timer_cases)
    case idle
    then show ?thesis
      using on_schedule_not_due [OF old(2) [of ?a]] pc(2) tick by (simp add: visit_events_def)
  next
    case (expired t1)
    then have "?es ?a = events_of ?a (ts_log s) @ [Expired ?a (ts_now s) (\<not> q_break q)]"
      using q by (simp only: events_of_append events_of_same) (simp add: visit_events_def)
    moreover have "0 < unat (t_expires t1)" "5 dvd unat (t_expires t1)"
      using old(2) [of ?a] expired(1) expireD [OF expired(2)] pc(2) by (auto simp: on_schedule_def due_def)
    ultimately have "on_schedule False (ts_now s) (t1\<lparr>t_start := tm_tick ?m\<rparr>) (?es ?a)"
      using tick by (intro on_schedule_started) auto
    with expired(3) a show ?thesis by auto
  qed
  then have m1: "tm_timers m1 = tm_timers ?m" "length (tm_heap m1) = length (tm_heap ?m)"
      "\<And>b. b \<in> set (tm_timers ?m) \<Longrightarrow> b \<noteq> ?a \<Longrightarrow> tm_heap m1 ! b = tm_heap ?m ! b"
      "on_schedule False (ts_now s) (tm_heap m1 ! ?a) (?es ?a)" by blast+
  have "b < length (tm_heap m') \<and>
      on_schedule (may_be_due (Scan k') (tm_timers m') b) (ts_now s) (tm_heap m' ! b) (?es b)"
    if "b \<in> set (tm_timers m')" for b
  proof (cases "b = ?a")
    case True
    with m1(2,4) new(1) a show ?thesis by (auto intro: on_schedule_weaken)
  next
    case False
    have b: "b \<in> set (tm_timers ?m)" using that new(6) m1(1) by auto
    have "may_be_due (Scan k) (tm_timers ?m) b \<Longrightarrow> may_be_due (Scan k') (tm_timers m') b"
      using may_be_due_visit [OF _ pc(2) False] new(7) pc(2) m1(1) by simp
    with old [OF b] m1(2) m1(3) [OF b False] new(1) False show ?thesis
      by (auto intro: on_schedule_weaken)
  qed
  then show ?thesis by (simp add: schedule_ok_def)
qed

lemma schedule_add:
  assumes inv: "clock_ok s" "schedule_ok s" and pc: "\<not> holds_mutex s"
    and a: "a < length (tm_heap (ts_m s))" and t: "t_expires t = t_expires (tm_heap (ts_m s) ! a)"
    and e: "t_expires t mod 5 = 0" "t_expires t \<noteq> 0" and st: "t_start t = tm_tick (ts_m s)"
    and m': "tm_heap m' = (tm_heap (ts_m s))[a := t]" "tm_timers m' = tm_timers (ts_m s) @ [a]"
  shows "schedule_ok (s\<lparr>ts_m := m', ts_log := ts_log s @ [Added a (ts_now s)]\<rparr>)"
proof -
  have "unat (t_expires t) mod 5 = 0" using arg_cong [OF e(1), of unat] by (simp add: unat_mod_distrib)
  then have "on_schedule False (ts_now s) t (events_of a (ts_log s) @ [Added a (ts_now s)])"
    using st e(2) inv(1) by (intro on_schedule_started) (auto simp: clock_ok_def unat_gt_0)
  moreover have "may_be_due (ts_pc s) (tm_timers m') b" if "may_be_due (ts_pc s) (tm_timers (ts_m s)) b" for b
    using that pc by (auto simp: may_be_due_def)
  ultimately show ?thesis
    using inv(2) a m' by (auto simp: schedule_ok_def nth_list_update intro: on_schedule_weaken)
qed

lemma log_visit:
  assumes inv: "clock_ok s" "schedule_ok s" "log_ok s" and pc: "ts_pc s = Scan k" "k < length (tm_timers (ts_m s))"
    and m': "length (tm_heap m') = length (tm_heap (ts_m s))"
      "\<And>b. b < length (tm_heap (ts_m s)) \<Longrightarrow> t_expires (tm_heap m' ! b) = t_expires (tm_heap (ts_m s) ! b)"
  shows "log_ok (s\<lparr>ts_m := m', ts_pc := pc',
     ts_log := ts_log s @ visit_events (ts_now s) (tm_timers (ts_m s) ! k) (ts_m s)\<rparr>)"
proof -
  let ?m = "ts_m s" and ?a = "tm_timers (ts_m s) ! k"
  let ?t = "tm_heap ?m ! ?a" and ?es = "events_of ?a (ts_log s)"
  have a: "?a < length (tm_heap ?m)"
      "on_schedule (may_be_due (Scan k) (tm_timers ?m) ?a) (ts_now s) ?t ?es"
    using inv(2) pc by (auto simp: schedule_ok_def)
  have tick: "tm_tick ?m = of_nat (5 * ts_now s)" using inv(1) by (simp add: clock_ok_def)
  have "punctual (t_expires ?t) (?es @ visit_events (ts_now s) ?a ?m)"
  proof (cases "due ?t (tm_tick ?m)")
    case True
    then have "\<not> t_cancelled ?t" by (simp add: due_def)
    with a(2) True tick have "?es \<noteq> []" "event_time (last ?es) \<le> ts_now s"
        "5 * (ts_now s - event_time (last ?es)) = unat (t_expires ?t)"
      by (simp_all add: on_schedule_def due_iff [OF a(2), symmetric] del: of_nat_mult)
    with inv(3) a(1) True show ?thesis
      by (auto simp: log_ok_def visit_events_def punctual_snoc)
  next
    case False
    with inv(3) a(1) show ?thesis by (simp add: visit_events_def log_ok_def)
  qed
  then have "punctual (t_expires (tm_heap ?m ! b)) (events_of b (ts_log s @ visit_events (ts_now s) ?a ?m))"
    if "b < length (tm_heap ?m)" for b
    using inv(3) that by (cases "b = ?a") (simp_all add: log_ok_def)
  with m' show ?thesis by (simp add: log_ok_def)
qed

lemma log_add:
  assumes "log_ok s" and "length (tm_heap m') = length (tm_heap (ts_m s))"
    and "\<And>b. b < length (tm_heap (ts_m s)) \<Longrightarrow> t_expires (tm_heap m' ! b) = t_expires (tm_heap (ts_m s) ! b)"
  shows "log_ok (s\<lparr>ts_m := m', ts_log := ts_log s @ [Added a n]\<rparr>)"
  using assms by (auto simp: log_ok_def punctual_snoc)

lemma queued_events [simp]:
  "queued (added_events n a m) = []"
  "tm_timeout m = Some q \<Longrightarrow> queued (visit_events n a m) =
     (if due (tm_heap m ! a) (tm_tick m) \<and> \<not> q_break q then [Some a] else [])"
  by (auto simp: added_events_def visit_events_def)

lemma visit_step_inv:
  assumes inv: "timers_inv s" and pc: "ts_pc s = Scan k" "k < length (tm_timers (ts_m s))"
    and v: "visit_timer [] (tm_timers (ts_m s) ! k) (ts_m s) = done_act (erase, m1)" "advance k erase m1 = (k', m')"
  shows "timers_inv (s\<lparr>ts_m := m', ts_pc := Scan k',
     ts_log := ts_log s @ visit_events (ts_now s) (tm_timers (ts_m s) ! k) (ts_m s)\<rparr>)"
proof -
  let ?m = "ts_m s" and ?a = "tm_timers (ts_m s) ! k"
  have parts: "clock_ok s" "schedule_ok s" "log_ok s" "queue_ok s" using inv by (auto simp: timers_inv_def)
  then obtain q where q: "tm_timeout ?m = Some q" "queue_wf q"
      "ts_handled s @ q_pool q = queued (ts_log s)" "q_break q \<longrightarrow> tm_stop ?m"
      "\<forall>a n. Expired a n False \<in> set (ts_log s) \<longrightarrow> tm_stop ?m"
    by (auto simp: queue_ok_def)
  have a: "?a < length (tm_heap ?m)" using parts(2) pc by (auto simp: schedule_ok_def)
  note new = advance_sel [OF v(2)]
  have m1: "length (tm_heap m1) = length (tm_heap ?m) \<and> tm_tick m1 = tm_tick ?m \<and>
      tm_resolution m1 = tm_resolution ?m \<and> tm_stop m1 = tm_stop ?m \<and>
      (\<forall>b<length (tm_heap ?m). t_expires (tm_heap m1 ! b) = t_expires (tm_heap ?m ! b)) \<and>
      (\<exists>q'. tm_timeout m1 = Some q' \<and> queue_wf q' \<and> q_break q' = q_break q \<and>
         q_pool q' = q_pool q @ queued (visit_events (ts_now s) ?a ?m))"
    using v(1) a q(1,2)
  proof (cases rule: visit_timer_cases)
    case idle
    with q show ?thesis by simp
  next
    case (expired t1)
    with q a expireD [OF expired(2)] show ?thesis by (auto simp: nth_list_update)
  qed
  have "queue_ok (s\<lparr>ts_m := m', ts_pc := Scan k', ts_log := ts_log s @ visit_events (ts_now s) ?a ?m\<rparr>)"
    using m1 new q by (auto simp: queue_ok_def visit_events_def split: if_splits)
  moreover have "clock_ok (s\<lparr>ts_m := m', ts_pc := Scan k', ts_log := ts_log s @ visit_events (ts_now s) ?a ?m\<rparr>)"
    using m1 new parts(1) by (simp add: clock_ok_def)
  ultimately show ?thesis
    using schedule_visit [OF parts(1,2,4) pc v] log_visit [OF parts(1-3) pc, of m'] m1 new(1)
    by (simp add: timers_inv_def)
qed

lemma add_step_inv:
  assumes inv: "timers_inv s" and pc: "\<not> holds_mutex s" and a: "a < length (tm_heap (ts_m s))"
    and m: "m = put_timer a t (ts_m s)" and t: "t_expires t = t_expires (tm_heap (ts_m s) ! a)"
      "t_start t = t_start (tm_heap (ts_m s) ! a)" "t_cancelled t = t_cancelled (tm_heap (ts_m s) ! a)"
    and m': "AddTimer a m = Inr m'"
  shows "timers_inv (s\<lparr>ts_m := m', ts_log := ts_log s @ added_events (ts_now s) a (ts_m s)\<rparr>)"
proof -
  have parts: "clock_ok s" "schedule_ok s" "log_ok s" "queue_ok s" "tm_resolution (ts_m s) = 5"
    using inv by (auto simp: timers_inv_def clock_ok_def)
  show ?thesis
  proof (cases "t_expires t = 0")
    case True
    then have "m' = m" "added_events (ts_now s) a (ts_m s) = []"
      using m' a t(1) by (simp_all add: AddTimer_eq m added_events_def split: if_splits)
    with parts a t show ?thesis
      by (auto simp: timers_inv_def clock_ok_def schedule_ok_def log_ok_def queue_ok_def m
          nth_list_update on_schedule_def)
  next
    case False
    then have e: "t_expires t mod 5 = 0"
        "m' = (put_timer a (t\<lparr>t_start := tm_tick (ts_m s)\<rparr>) m)\<lparr>tm_timers := tm_timers (ts_m s) @ [a]\<rparr>"
      using m' a parts(5) by (simp_all add: AddTimer_eq m Let_def split: if_splits)
    have ev: "added_events (ts_now s) a (ts_m s) = [Added a (ts_now s)]"
      using e(1) False t(1) parts(5) by (simp add: added_events_def)
    have "schedule_ok (s\<lparr>ts_m := m', ts_log := ts_log s @ [Added a (ts_now s)]\<rparr>)"
      by (rule schedule_add [OF parts(1,2) pc a, where t = "t\<lparr>t_start := tm_tick (ts_m s)\<rparr>"])
         (use e False t in \<open>simp_all add: m\<close>)
    moreover have "log_ok (s\<lparr>ts_m := m', ts_log := ts_log s @ [Added a (ts_now s)]\<rparr>)"
      using e(2) t(1) a by (intro log_add [OF parts(3)]) (auto simp: m nth_list_update)
    ultimately show ?thesis
      using parts e(2) by (auto simp: timers_inv_def ev clock_ok_def queue_ok_def m)
  qed
qed

lemma oneshot_fail_inv:
  assumes "timers_inv s" and "a < length (tm_heap (ts_m s))"
  shows "timers_inv (s\<lparr>ts_m := put_timer a ((tm_heap (ts_m s) ! a)\<lparr>t_oneshot := True\<rparr>) (ts_m s)\<rparr>)"
  using assms
  by (auto simp: timers_inv_def clock_ok_def schedule_ok_def log_ok_def queue_ok_def nth_list_update on_schedule_def)

lemma dequeueD:
  "queue_wf q \<Longrightarrow> WaitDequeue [] None q = done_act ((True, x), q') \<Longrightarrow>
     \<exists>xs. q_pool q = x # xs \<and> q' = q\<lparr>q_pool := xs\<rparr> \<and> queue_wf q'"
  by (auto simp: WaitDequeue_Nil queue_wf_def split: if_splits list.splits)

lemma timer_step_inv:
  assumes inv: "timers_inv s" and step: "timer_step l s t"
  shows "timers_inv t"
  using step
proof cases
  case tick
  with inv show ?thesis
    by (auto simp: timers_inv_def clock_ok_def schedule_ok_def log_ok_def queue_ok_def may_be_due_def
        algebra_simps intro: on_schedule_tick)
next
  case exit
  with inv show ?thesis
    by (auto simp: timers_inv_def clock_ok_def schedule_ok_def log_ok_def queue_ok_def may_be_due_def)
next
  case begin_scan
  with inv show ?thesis
    by (auto simp: timers_inv_def clock_ok_def schedule_ok_def log_ok_def queue_ok_def may_be_due_def)
next
  case (visit k a erase m1 k' m')
  with visit_step_inv [OF inv visit(3,4)] show ?thesis by simp
next
  case (end_scan k)
  with inv show ?thesis
    by (auto simp: timers_inv_def clock_ok_def schedule_ok_def log_ok_def queue_ok_def may_be_due_def)
next
  case (add a m')
  note a = AddTimer_bound [OF add(4)]
  have "ts_m s = put_timer a (tm_heap (ts_m s) ! a) (ts_m s)" by (simp add: put_timer_def)
  from add_step_inv [OF inv add(3) a this _ _ _ add(4)] add(2) show ?thesis by simp
next
  case (add_oneshot a r m')
  let ?t = "(tm_heap (ts_m s) ! a)\<lparr>t_oneshot := True\<rparr>"
  show ?thesis
  proof (cases "AddTimer a (put_timer a ?t (ts_m s))")
    case (Inl e)
    then have "m' = put_timer a ?t (ts_m s)" "added_events (ts_now s) a (ts_m s) = []"
      using add_oneshot(4,5) by (auto simp: AddOneshotTimer_def Let_def AddTimer_eq added_events_def split: if_splits)
    with add_oneshot(2) oneshot_fail_inv [OF inv add_oneshot(4)] show ?thesis by simp
  next
    case (Inr m'')
    then have "m'' = m'" using add_oneshot(4,5) by (simp add: AddOneshotTimer_def Let_def)
    with add_step_inv [OF inv add_oneshot(3,4) refl _ _ _ Inr] add_oneshot(2) show ?thesis by simp
  qed
next
  case (cancel a m')
  with inv CancelTimerD [OF cancel(4)] show ?thesis
    by (auto simp: timers_inv_def clock_ok_def schedule_ok_def log_ok_def queue_ok_def nth_list_update)
next
  case (dequeue q x q')
  with inv have "queue_wf q" by (auto simp: timers_inv_def queue_ok_def)
  with dequeueD dequeue(4) obtain xs where "q_pool q = x # xs" "q' = q\<lparr>q_pool := xs\<rparr>" "queue_wf q'" by blast
  with dequeue inv show ?thesis
    by (auto simp: timers_inv_def clock_ok_def schedule_ok_def log_ok_def queue_ok_def)
next
  case (stop m')
  with inv StopD [OF stop(3)] show ?thesis
    by (auto simp: timers_inv_def clock_ok_def schedule_ok_def log_ok_def queue_ok_def queue_wf_def)
qed

abbreviation any_timer_step :: "timer_sys \<Rightarrow> timer_sys \<Rightarrow> bool" where
  "any_timer_step s t \<equiv> \<exists>l. timer_step l s t"

interpretation timers: invariant_system any_timer_step timers_inv
  by unfold_locales (auto intro: timer_step_inv)

subsection \<open>Oneshot and cancelled timers\<close>

definition expiries :: "nat \<Rightarrow> timer_event list \<Rightarrow> nat" where
  "expiries a es = length (filter is_expiry (events_of a es))"

text \<open>How often a timer that is cancelled or a oneshot timer has expired or may still expire.\<close>

definition budget :: "nat \<Rightarrow> timer_sys \<Rightarrow> nat" where
  "budget a s = expiries a (ts_log s) + (if t_cancelled (tm_heap (ts_m s) ! a) then 0 else 1)"

definition ending :: "nat \<Rightarrow> nat \<Rightarrow> nat \<Rightarrow> timer_sys \<Rightarrow> bool" where
  "ending a lo hi s \<longleftrightarrow> timers_inv s \<and> a < length (tm_heap (ts_m s)) \<and>
     (t_oneshot (tm_heap (ts_m s) ! a) \<or> t_cancelled (tm_heap (ts_m s) ! a)) \<and>
     lo \<le> expiries a (ts_log s) \<and> budget a s \<le> hi"

lemma expiries_append [simp]:
  "expiries a (es @ added_events n b m) = expiries a es"
  "expiries a (es @ visit_events n b m) =
     expiries a es + (if a = b \<and> due (tm_heap m ! a) (tm_tick m) then 1 else 0)"
  by (auto simp: expiries_def added_events_def visit_events_def)

text \<open>Steps other than a visit neither end the marks of a timer nor count an expiry.\<close>

lemma marks_kept:
  assumes "timer_step l s t" and "l \<noteq> LVisit" and "a < length (tm_heap (ts_m s))"
  shows "length (tm_heap (ts_m t)) = length (tm_heap (ts_m s)) \<and>
    (t_oneshot (tm_heap (ts_m s) ! a) \<longrightarrow> t_oneshot (tm_heap (ts_m t) ! a)) \<and>
    (t_cancelled (tm_heap (ts_m s) ! a) \<longrightarrow> t_cancelled (tm_heap (ts_m t) ! a)) \<and>
    expiries a (ts_log t) = expiries a (ts_log s)"
  using assms(1)
proof cases
  case (add b m')
  note b = AddTimer_bound [OF add(4)]
  with add assms(3) AddTimer_eq [OF b] show ?thesis by (auto simp: Let_def nth_list_update split: if_splits)
next
  case (add_oneshot b r m')
  then show ?thesis using assms(3)
    by (auto simp: AddOneshotTimer_def AddTimer_eq Let_def nth_list_update split: if_splits sum.splits)
next
  case (cancel b m')
  with CancelTimerD [OF cancel(4)] assms(3) show ?thesis by (auto simp: nth_list_update)
next
  case (stop m')
  with StopD [OF stop(3)] show ?thesis by auto
qed (use assms(2) in \<open>simp_all\<close>)

lemma ending_step:
  assumes e: "ending a lo hi s" and step: "timer_step l s t"
  shows "ending a lo hi t"
proof (cases "l = LVisit")
  case False
  then show ?thesis
    using marks_kept [OF step] timer_step_inv [OF _ step] e by (auto simp: ending_def budget_def split: if_splits)
next
  case True
  have inv: "timers_inv s" "timers_inv t" using e step timer_step_inv by (auto simp: ending_def)
  from step True obtain k b erase m1 k' m' where v: "t = s\<lparr>ts_m := m', ts_pc := Scan k',
        ts_log := ts_log s @ visit_events (ts_now s) b (ts_m s)\<rparr>" "ts_pc s = Scan k"
      "k < length (tm_timers (ts_m s))" "b = tm_timers (ts_m s) ! k"
      "visit_timer [] b (ts_m s) = done_act (erase, m1)" "advance k erase m1 = (k', m')"
    by (auto elim!: timer_stepE)
  obtain q where q: "tm_timeout (ts_m s) = Some q" "queue_wf q"
    using inv(1) by (auto simp: timers_inv_def queue_ok_def)
  have b: "b < length (tm_heap (ts_m s))"
    using inv(1) v(3,4) by (auto simp: timers_inv_def schedule_ok_def)
  note heap = advance_sel(1) [OF v(6)]
  from v(5) b q show ?thesis
  proof (cases rule: visit_timer_cases)
    case idle
    with e inv(2) v(1) heap show ?thesis by (auto simp: ending_def budget_def)
  next
    case (expired t1)
    note t1 = expireD [OF expired(2)]
    show ?thesis
    proof (cases "a = b")
      case True
      with expired t1 e b v(1) heap inv(2) show ?thesis
        by (auto simp: ending_def budget_def due_def)
    next
      case False
      with expired e v(1) heap inv(2) show ?thesis by (auto simp: ending_def budget_def)
    qed
  qed
qed

interpretation ending_timer: invariant_system any_timer_step "ending a lo hi" for a lo hi
  by unfold_locales (auto intro: ending_step)

subsection \<open>A whole tick\<close>

definition ticked :: "u64 \<Rightarrow> Timer \<Rightarrow> Timer" where
  "ticked now t =
     (if due t now
      then (if t_oneshot t then t\<lparr>t_cancelled := True, t_refcnt := t_refcnt t - 1\<rparr> else t)\<lparr>t_start := now\<rparr>
      else t)"

definition dead :: "Timer \<Rightarrow> bool" where
  "dead t \<longleftrightarrow> t_cancelled t \<and> t_refcnt t \<le> 0"

abbreviation due_timers :: "TimerManager \<Rightarrow> nat list \<Rightarrow> nat list" where
  "due_timers m as \<equiv> filter (\<lambda>a. due (tm_heap m ! a) (tm_tick m)) as"

definition refcnt_ok :: "Timer \<Rightarrow> bool" where
  "refcnt_ok t \<longleftrightarrow> int32_ok (t_refcnt t - 1)"

lemma visit_timer_room:
  assumes "a < length (tm_heap m)" and "tm_timeout m = Some q" and "queue_wf q" and "\<not> q_break q"
    and "length (q_pool q) + length (due_timers m [a]) \<le> queue_cap q" and "refcnt_ok (tm_heap m ! a)"
  shows "visit_timer [] a m = done_act (dead (ticked (tm_tick m) (tm_heap m ! a)),
    (put_timer a (ticked (tm_tick m) (tm_heap m ! a)) m)
      \<lparr>tm_timeout := Some (q\<lparr>q_pool := q_pool q @ map Some (due_timers m [a])\<rparr>)\<rparr>)"
  using assms
  by (auto simp: visit_timer_def ticked_def dead_def expire_def WaitEnqueue_Nil refcnt_ok_def
      Let_def put_timer_def cint)

lemma tick_loop_step:
  "k < length (tm_timers m) \<Longrightarrow> visit_timer [] (tm_timers m ! k) m = done_act (erase, m1) \<Longrightarrow>
   advance k erase m1 = (k', m') \<Longrightarrow> tick_loop (Suc fuel) [] k m = tick_loop fuel [] k' m'"
  by (simp add: tick_loop.simps [of "Suc fuel"])

lemma tick_loop_room:
  assumes "tm_timers m = ds @ as" and "length as \<le> fuel" and "distinct as"
    and "\<forall>a\<in>set as. a < length (tm_heap m) \<and> refcnt_ok (tm_heap m ! a)"
    and "tm_timeout m = Some q" and "queue_wf q" and "\<not> q_break q"
    and "length (q_pool q) + length (due_timers m as) \<le> queue_cap q"
  shows "\<exists>h. tick_loop fuel [] (length ds) m =
      done_act (m\<lparr>tm_heap := h, tm_timers := ds @ filter (\<lambda>a. \<not> dead (ticked (tm_tick m) (tm_heap m ! a))) as,
                  tm_timeout := Some (q\<lparr>q_pool := q_pool q @ map Some (due_timers m as)\<rparr>)\<rparr>) \<and>
      length h = length (tm_heap m) \<and>
      (\<forall>b<length h. h ! b = (if b \<in> set as then ticked (tm_tick m) (tm_heap m ! b) else tm_heap m ! b))"
  using assms
proof (induction as arbitrary: m ds fuel q)
  case Nil
  then show ?case by (intro exI [of _ "tm_heap m"]) (simp add: tick_loop.simps)
next
  case (Cons a as)
  obtain fuel' where fuel: "fuel = Suc fuel'" "length as \<le> fuel'" using Cons.prems(2) by (cases fuel) auto
  let ?t = "ticked (tm_tick m) (tm_heap m ! a)"
  let ?q = "q\<lparr>q_pool := q_pool q @ map Some (due_timers m [a])\<rparr>"
  let ?m = "(put_timer a ?t m)\<lparr>tm_timeout := Some ?q\<rparr>"
  let ?ds = "if dead ?t then ds else ds @ [a]"
  let ?m' = "?m\<lparr>tm_timers := ?ds @ as\<rparr>"
  have visit: "visit_timer [] a m = done_act (dead ?t, ?m)"
    using Cons.prems by (intro visit_timer_room) (auto split: if_splits)
  have "advance (length ds) (dead ?t) ?m = (length ?ds, ?m')"
    using Cons.prems(1) by (simp add: advance_def erase_at_def)
  then have step: "tick_loop fuel [] (length ds) m = tick_loop fuel' [] (length ?ds) ?m'"
    unfolding fuel(1) by (rule tick_loop_step [rotated 2]) (use visit Cons.prems(1) in simp_all)
  have other: "tm_heap ?m' ! b = tm_heap m ! b" if "b \<in> set as" for b
    using that Cons.prems(3) by (cases "b = a") auto
  then have same: "due_timers ?m' as = due_timers m as"
      "filter (\<lambda>b. \<not> dead (ticked (tm_tick ?m') (tm_heap ?m' ! b))) as =
       filter (\<lambda>b. \<not> dead (ticked (tm_tick m) (tm_heap m ! b))) as"
    by (auto intro!: filter_cong)
  have "\<exists>h. tick_loop fuel' [] (length ?ds) ?m' =
      done_act (?m'\<lparr>tm_heap := h, tm_timers := ?ds @ filter (\<lambda>b. \<not> dead (ticked (tm_tick ?m') (tm_heap ?m' ! b))) as,
                    tm_timeout := Some (?q\<lparr>q_pool := q_pool ?q @ map Some (due_timers ?m' as)\<rparr>)\<rparr>) \<and>
      length h = length (tm_heap ?m') \<and>
      (\<forall>b<length h. h ! b = (if b \<in> set as then ticked (tm_tick ?m') (tm_heap ?m' ! b) else tm_heap ?m' ! b))"
    by (rule Cons.IH)
       (use Cons.prems fuel(2) other same in \<open>auto simp: queue_wf_def split: if_splits\<close>)
  then obtain h where h: "tick_loop fuel' [] (length ?ds) ?m' =
      done_act (?m'\<lparr>tm_heap := h, tm_timers := ?ds @ filter (\<lambda>b. \<not> dead (ticked (tm_tick m) (tm_heap m ! b))) as,
                    tm_timeout := Some (?q\<lparr>q_pool := q_pool ?q @ map Some (due_timers m as)\<rparr>)\<rparr>)"
      "length h = length (tm_heap m)"
      "\<forall>b<length h. h ! b = (if b \<in> set as then ticked (tm_tick m) (tm_heap ?m' ! b) else tm_heap ?m' ! b)"
    unfolding same by auto
  have "\<forall>b<length h. h ! b = (if b \<in> set (a # as) then ticked (tm_tick m) (tm_heap m ! b) else tm_heap m ! b)"
    using h(2,3) Cons.prems(3,4) other by (auto simp: nth_list_update)
  with h(1,2) step Cons.prems(1) show ?case
    by (intro exI [of _ h]) (auto simp: put_timer_def)
qed


section \<open>Properties\<close>

text \<open>(C5) Timers are punctual. In every state that the service can reach, whatever the threads
  do and also after the 64-bit tick has wrapped around, every expiry of a timer comes exactly
  \<open>expires\<close> milliseconds after the timer was added or last expired; and whenever the ticking
  thread sleeps, a listed timer that is not cancelled has its next expiry still ahead, so none
  was missed.\<close>

theorem timers_punctual:
  assumes "InitThreadPool uuid (TimerManager_new h) = Inr m"
    and "any_timer_step\<^sup>*\<^sup>* (timers_start m) s"
  shows "(\<forall>a<length (tm_heap (ts_m s)).
       punctual (t_expires (tm_heap (ts_m s) ! a)) (events_of a (ts_log s))) \<and>
     (\<forall>a\<in>set (tm_timers (ts_m s)). ts_pc s = Sleep \<and> \<not> t_cancelled (tm_heap (ts_m s) ! a) \<longrightarrow>
       events_of a (ts_log s) \<noteq> [] \<and>
       5 * (ts_now s - event_time (last (events_of a (ts_log s)))) < unat (t_expires (tm_heap (ts_m s) ! a)))"
proof -
  have inv: "timers_inv s" using timers.reachable_inv [OF assms(2)] timers_inv_start [OF assms(1)] by blast
  then have "\<forall>a\<in>set (tm_timers (ts_m s)). ts_pc s = Sleep \<longrightarrow>
      on_schedule False (ts_now s) (tm_heap (ts_m s) ! a) (events_of a (ts_log s))"
    by (auto simp: timers_inv_def schedule_ok_def may_be_due_def)
  with inv show ?thesis by (auto simp: timers_inv_def log_ok_def on_schedule_def)
qed

text \<open>(C32) Expired timers are handed to the workers in the order of their expiry, each once: the
  timers taken from the queue so far followed by those still in it are exactly those that
  expired, and only after \<open>Stop\<close> may an expiry be dropped.\<close>

theorem timers_handled_in_order:
  assumes "InitThreadPool uuid (TimerManager_new h) = Inr m"
    and "any_timer_step\<^sup>*\<^sup>* (timers_start m) s"
  shows "\<exists>q. tm_timeout (ts_m s) = Some q \<and> ts_handled s @ q_pool q = queued (ts_log s) \<and>
     length (q_pool q) \<le> queue_cap q \<and>
     (\<not> tm_stop (ts_m s) \<longrightarrow>
        queued (ts_log s) = map (\<lambda>e. Some (event_timer e)) (filter is_expiry (ts_log s)))"
proof -
  have inv: "timers_inv s" using timers.reachable_inv [OF assms(2)] timers_inv_start [OF assms(1)] by blast
  have "queued es = map (\<lambda>e. Some (event_timer e)) (filter is_expiry es)"
    if "\<forall>a n. Expired a n False \<notin> set es" for es
    using that by (induction es rule: queued.induct) auto
  with inv show ?thesis by (auto simp: timers_inv_def queue_ok_def queue_wf_def)
qed

text \<open>(C33) A cancelled timer never expires again, and a oneshot timer expires at most once from
  then on: however the threads go on, the number of its expiries does not grow, or grows by at
  most one.\<close>

theorem cancelled_and_oneshot:
  assumes "InitThreadPool uuid (TimerManager_new h) = Inr m"
    and "any_timer_step\<^sup>*\<^sup>* (timers_start m) s" and "any_timer_step\<^sup>*\<^sup>* s t"
    and "a < length (tm_heap (ts_m s))"
  shows "(t_cancelled (tm_heap (ts_m s) ! a) \<longrightarrow> expiries a (ts_log t) = expiries a (ts_log s)) \<and>
     (t_oneshot (tm_heap (ts_m s) ! a) \<longrightarrow> expiries a (ts_log t) \<le> expiries a (ts_log s) + 1)"
proof -
  have inv: "timers_inv s" using timers.reachable_inv [OF assms(2)] timers_inv_start [OF assms(1)] by blast
  let ?lo = "expiries a (ts_log s)" and ?hi = "budget a s"
  have "ending a ?lo ?hi t"
    if "t_oneshot (tm_heap (ts_m s) ! a) \<or> t_cancelled (tm_heap (ts_m s) ! a)"
    using that inv assms(4) by (intro ending_timer.reachable_inv [OF assms(3)]) (simp add: ending_def)
  then show ?thesis by (auto simp: ending_def budget_def split: if_splits)
qed

text \<open>A tick when the queue has room: the call returns, puts exactly the due timers in the
  queue, in list order, restarts the periodic ones at the current tick, marks the oneshot ones
  cancelled, and removes from the list exactly the timers that are cancelled and no longer
  referenced.\<close>

theorem TimersTick_effect:
  assumes "distinct (tm_timers m)"
    and "\<forall>a\<in>set (tm_timers m). a < length (tm_heap m) \<and> refcnt_ok (tm_heap m ! a)"
    and "tm_timeout m = Some q" and "queue_wf q" and "\<not> q_break q"
    and "length (q_pool q) + length (due_timers m (tm_timers m)) \<le> queue_cap q"
  shows "\<exists>h. TimersTick [] m =
      done_act (m\<lparr>tm_heap := h,
                  tm_timers := filter (\<lambda>a. \<not> dead (ticked (tm_tick m) (tm_heap m ! a))) (tm_timers m),
                  tm_timeout := Some (q\<lparr>q_pool := q_pool q @ map Some (due_timers m (tm_timers m))\<rparr>)\<rparr>) \<and>
      length h = length (tm_heap m) \<and>
      (\<forall>b<length h. h ! b =
         (if b \<in> set (tm_timers m) then ticked (tm_tick m) (tm_heap m ! b) else tm_heap m ! b))"
  using tick_loop_room [of m "[]" "tm_timers m" "length (tm_timers m)" q] assms
  by (simp add: TimersTick_def)

text \<open>While the ticking thread waits for room in the full queue it holds \<open>mutex_\<close>: no call of
  \<open>AddTimer\<close> can proceed, nor can the thread itself or a cancellation of that timer; only a
  worker that takes a timer from the queue, or \<open>Stop\<close>, lets it go on. A callback that adds a
  timer at that moment waits for the lock, and with the only worker inside that callback the
  service stands still.\<close>

theorem full_queue_blocks_service:
  assumes "ts_pc s = Scan k" and "k < length (tm_timers (ts_m s))" and "a = tm_timers (ts_m s) ! k"
    and "a < length (tm_heap (ts_m s))" and "due (tm_heap (ts_m s) ! a) (tm_tick (ts_m s))"
    and "refcnt_ok (tm_heap (ts_m s) ! a)"
    and "tm_timeout (ts_m s) = Some q" and "queue_wf q" and "\<not> q_break q"
    and "length (q_pool q) = queue_cap q" and "timer_step l s t"
  shows "l = LDequeue \<or> l = LStop \<or>
     (\<exists>b. l = LCancel b \<and> b \<noteq> a \<and> ts_pc t = ts_pc s \<and> tm_timers (ts_m t) = tm_timers (ts_m s) \<and>
          tm_timeout (ts_m t) = tm_timeout (ts_m s))"
proof -
  have v: "visit_timer [] a (ts_m s) = None"
    using assms(4-10) by (auto simp: visit_timer_def expire_def WaitEnqueue_Nil refcnt_ok_def Let_def cint)
  show ?thesis
    using assms(11)
  proof cases
    case (cancel b m')
    then show ?thesis
      using v assms(1-3) by (auto simp: blocked_on_def dest: CancelTimerD)
  qed (use v assms(1-3) in auto)
qed

text \<open>A timer whose period is not a multiple of the resolution is refused and nothing
  changes; a period of zero is accepted and ignored; any other timer is appended and starts at
  the current tick, so that it is not due before the next one.\<close>

theorem AddTimer_outcomes:
  assumes "a < length (tm_heap m)" and "t = tm_heap m ! a"
  shows "AddTimer a m =
     (if t_expires t mod tm_resolution m \<noteq> 0 then Inl (runtime_error ''Invalid expire time settting.'')
      else if t_expires t = 0 then Inr m
      else Inr (m\<lparr>tm_heap := (tm_heap m)[a := t\<lparr>t_start := tm_tick m\<rparr>], tm_timers := tm_timers m @ [a]\<rparr>)) \<and>
     (t_expires t \<noteq> 0 \<longrightarrow> \<not> due (t\<lparr>t_start := tm_tick m\<rparr>) (tm_tick m))"
  using assms by (simp add: AddTimer_eq Let_def put_timer_def due_def)

text \<open>\<open>Stop\<close> uses the time-out queue without a check: on a manager that was never started,
  which is what the destructor of an unused manager does, it dereferences a null pointer; on a
  started one it succeeds and breaks the wait of the workers and of the ticking thread.\<close>

theorem Stop_needs_start:
  "TimerManager_Stop (TimerManager_new h) = Inl NullDereference \<and>
   (StartAsThread uuid (TimerManager_new h) = Inr m \<longrightarrow>
      (\<exists>m' q. TimerManager_Stop m = Inr m' \<and> tm_stop m' \<and> tm_timeout m' = Some q \<and> q_break q))"
  by (auto simp: TimerManager_Stop_def TimerManager_new_def StartAsThread_def InitThreadPool_def
      Queue_new_eq BreakAllWait_def)


subsection \<open>Witnesses\<close>

text \<open>A timer of 15 milliseconds and one of 5, a started manager, and a first full tick with
  the second timer, which is then handled.\<close>

definition two_timers :: "Timer list" where
  "two_timers = [Timer_new 0 15, Timer_new 0 5]"

definition timerq :: "nat option list \<Rightarrow> nat option Queue" where
  "timerq xs = \<lparr>q_pool = xs, q_pool_size = 10, q_name = ''timerq'', q_uuid = ''id'',
                q_wait = Some BlockWaitStrategy, q_break = False\<rparr>"

definition started :: TimerManager where
  "started = (TimerManager_new two_timers)\<lparr>tm_timeout := Some (timerq []), tm_workers := 1\<rparr>"

lemma started_init: "InitThreadPool ''id'' (TimerManager_new two_timers) = Inr started"
  by (simp add: InitThreadPool_def Queue_new_eq started_def timerq_def worker_num_def TimerManager_new_def)

definition after_tick :: timer_sys where
  "after_tick =
     \<lparr>ts_m = started\<lparr>tm_heap := [Timer_new 0 15, Timer_new 5 5], tm_timers := [1], tm_tick := 5\<rparr>,
      ts_pc = Sleep, ts_now = 1, ts_log = [Added 1 0, Expired 1 1 True], ts_handled = [Some 1]\<rparr>"

lemma timer_steps_snoc: "any_timer_step\<^sup>*\<^sup>* s t \<Longrightarrow> timer_step l t u \<Longrightarrow> any_timer_step\<^sup>*\<^sup>* s u"
  by (rule rtranclp.rtrancl_into_rtrancl) auto

lemma after_tick_reachable: "any_timer_step\<^sup>*\<^sup>* (timers_start started) after_tick"
proof -
  let ?m1 = "started\<lparr>tm_timers := [1]\<rparr>"
  let ?s1 = "(timers_start started)\<lparr>ts_m := ?m1, ts_log := [Added 1 0]\<rparr>"
  let ?s2 = "?s1\<lparr>ts_m := tick_once ?m1, ts_now := 1, ts_pc := Ticked\<rparr>"
  let ?s3 = "?s2\<lparr>ts_pc := Scan 0\<rparr>"
  let ?m4 = "?m1\<lparr>tm_heap := [Timer_new 0 15, Timer_new 5 5], tm_tick := 5, tm_timeout := Some (timerq [Some 1])\<rparr>"
  let ?s4 = "?s3\<lparr>ts_m := ?m4, ts_pc := Scan 1, ts_log := [Added 1 0, Expired 1 1 True]\<rparr>"
  let ?s5 = "?s4\<lparr>ts_pc := Sleep\<rparr>"
  note defs = timers_start_def started_def two_timers_def Timer_new_def TimerManager_new_def timerq_def
  have 1: "timer_step (LAdd 1) (timers_start started) ?s1"
    using timer_step.add [of "timers_start started" 1 ?m1]
    by (simp add: defs AddTimer_def Let_def put_timer_def added_events_def)
  have 2: "timer_step LTick ?s1 ?s2"
    using timer_step.tick [of ?s1] by (simp add: defs)
  have 3: "timer_step LBegin ?s2 ?s3"
    using timer_step.begin_scan [of ?s2] by simp
  have 4: "timer_step LVisit ?s3 ?s4"
    using timer_step.visit [of ?s3 0 1 False ?m4 1 ?m4]
    by (simp add: defs visit_timer_def advance_def visit_events_def due_def expire_def tick_once_def
        put_timer_def Let_def WaitEnqueue_Nil queue_wf_def to_size_t_def)
  have 5: "timer_step LEnd ?s4 ?s5"
    using timer_step.end_scan [of ?s4 1] by simp
  have 6: "timer_step LDequeue ?s5 after_tick"
    using timer_step.dequeue [of ?s5 "timerq [Some 1]" "Some 1" "timerq []"]
    by (simp add: defs after_tick_def WaitDequeue_Nil queue_wf_def to_size_t_def)
  note run = timer_steps_snoc [OF timer_steps_snoc [OF timer_steps_snoc [OF rtranclp.rtrancl_refl 1] 2] 3]
  show ?thesis
    by (rule timer_steps_snoc [OF timer_steps_snoc [OF timer_steps_snoc [OF run 4] 5] 6])
qed

theorem timers_punctual_witness:
  "punctual 5 [Added 1 0, Expired 1 1 True] \<and> 5 * (1 - 1) < unat (5 :: u64)"
  using timers_punctual [OF started_init after_tick_reachable]
  by (auto simp: after_tick_def Timer_new_def started_def less_Suc_eq)

theorem timers_handled_in_order_witness:
  "ts_handled after_tick = queued (ts_log after_tick) \<and> queued (ts_log after_tick) = [Some 1]"
  using timers_handled_in_order [OF started_init after_tick_reachable]
  by (auto simp: after_tick_def started_def timerq_def TimerManager_new_def)

theorem cancelled_and_oneshot_witness:
  "let m = put_timer 1 ((Timer_new 5 5)\<lparr>t_refcnt := 0, t_cancelled := True\<rparr>) (ts_m after_tick);
       s = after_tick\<lparr>ts_m := m\<rparr>; t = s\<lparr>ts_m := tick_once m, ts_now := 2, ts_pc := Ticked\<rparr>
   in expiries 1 (ts_log t) = expiries 1 (ts_log s) \<and> expiries 1 (ts_log s) = 1"
proof -
  let ?m = "put_timer 1 ((Timer_new 5 5)\<lparr>t_refcnt := 0, t_cancelled := True\<rparr>) (ts_m after_tick)"
  let ?s = "after_tick\<lparr>ts_m := ?m\<rparr>"
  let ?t = "?s\<lparr>ts_m := tick_once ?m, ts_now := 2, ts_pc := Ticked\<rparr>"
  have "CancelTimer 1 (ts_m after_tick) = Inr ?m"
    by (simp add: CancelTimer_def after_tick_def Timer_new_def cint int32_ok_def)
  then have "timer_step (LCancel 1) after_tick ?s"
    by (intro timer_step.cancel) (simp_all add: blocked_on_def after_tick_def)
  note s = timer_steps_snoc [OF after_tick_reachable this]
  have "timer_step LTick ?s ?t"
    using timer_step.tick [of ?s] by (simp add: after_tick_def started_def TimerManager_new_def numeral_2_eq_2)
  note t = timer_steps_snoc [OF rtranclp.rtrancl_refl this]
  show ?thesis
    using cancelled_and_oneshot [OF started_init s t, of 1] by (simp add: after_tick_def expiries_def Let_def)
qed

theorem TimersTick_effect_witness:
  "\<exists>m'. TimersTick [] (started\<lparr>tm_timers := [0, 1], tm_tick := 5\<rparr>) = done_act m' \<and>
      tm_timers m' = [0, 1] \<and> tm_timeout m' = Some (timerq [Some 1]) \<and> tm_heap m' ! 1 = Timer_new 5 5"
  using TimersTick_effect [of "started\<lparr>tm_timers := [0, 1], tm_tick := 5\<rparr>" "timerq []"]
  by (auto simp: started_def two_timers_def Timer_new_def TimerManager_new_def timerq_def queue_wf_def due_def
      to_size_t_def refcnt_ok_def int32_ok_def ticked_def dead_def)

theorem full_queue_blocks_service_witness:
  "let m = started\<lparr>tm_timers := [1], tm_tick := 5, tm_timeout := Some (timerq (replicate 10 (Some 1)))\<rparr>;
       s = (timers_start m)\<lparr>ts_pc := Scan 0\<rparr>
   in \<not> (\<exists>l t. timer_step l s t \<and> l = LAdd 0)"
proof -
  let ?m = "started\<lparr>tm_timers := [1], tm_tick := 5, tm_timeout := Some (timerq (replicate 10 (Some 1)))\<rparr>"
  let ?s = "(timers_start ?m)\<lparr>ts_pc := Scan 0\<rparr>"
  have "l = LDequeue \<or> l = LStop \<or> (\<exists>b. l = LCancel b)" if "timer_step l ?s t" for l t
    using full_queue_blocks_service [of ?s 0 1 "timerq (replicate 10 (Some 1))" l t] that
    by (auto simp: timers_start_def started_def two_timers_def Timer_new_def TimerManager_new_def timerq_def
        queue_wf_def due_def to_size_t_def refcnt_ok_def int32_ok_def)
  then show ?thesis by (auto simp: Let_def)
qed

theorem AddTimer_outcomes_witness:
  "AddTimer 0 started = Inr (started\<lparr>tm_timers := [0]\<rparr>) \<and> \<not> due (Timer_new 0 15) 0"
  using AddTimer_outcomes [of 0 started "Timer_new 0 15"]
  by (simp add: started_def two_timers_def Timer_new_def TimerManager_new_def)

theorem Stop_needs_start_witness:
  "\<exists>m m' q. StartAsThread ''id'' (TimerManager_new two_timers) = Inr m \<and>
     TimerManager_Stop m = Inr m' \<and> tm_timeout m' = Some q \<and> q_break q"
  using Stop_needs_start [of two_timers "''id''" "started\<lparr>tm_workers := 2\<rparr>"]
  by (auto simp: StartAsThread_def started_init) (auto simp: started_def numeral_2_eq_2)

end
