(* ===== verification/Double_Format.thy ===== *)
theory Double_Format
  imports Text_Format Complex_Main "HOL-Library.Log_Nat"
begin

text \<open>
  What the sources use of the type \<open>double\<close>: its values and rounding, how the C++ streams print it and
  how \<open>std::stod\<close> reads it.
\<close>

section \<open>Double precision\<close>

text \<open>The exponent of a positive number to a base, the distance of its neighbours, and rounding.\<close>

definition ilog :: "nat \<Rightarrow> rat \<Rightarrow> int" where
  "ilog b x = (if 1 \<le> x then int (floorlog b (nat \<lfloor>x\<rfloor>)) - 1
               else - int (floorlog b (nat \<lceil>1 / x\<rceil> - 1)))"

abbreviation ilog2 :: "rat \<Rightarrow> int" where
  "ilog2 \<equiv> ilog 2"

definition ulp :: "rat \<Rightarrow> rat" where
  "ulp x = 2 powi (ilog2 x - 52)"

definition half_even :: "rat \<Rightarrow> int" where
  "half_even y =
     (let f = \<lfloor>y\<rfloor>; r = y - of_int f in
      if r < 1 / 2 then f else if 1 / 2 < r then f + 1 else if even f then f else f + 1)"

definition dblp :: "rat \<Rightarrow> rat" where
  "dblp x = (if x \<le> 0 then 0 else of_int (half_even (x / ulp x)) * ulp x)"

definition dbl :: "rat \<Rightarrow> rat" where
  "dbl x = (if x < 0 then - dblp (- x) else dblp x)"

text \<open>The values of the type, with the sign and the magnitude of a finite one, and rounding with the least
  exponent that it has.\<close>

datatype double = Finite bool rat | Infinite bool | NotANumber bool

definition dround :: "rat \<Rightarrow> rat" where
  "dround x =
     (if x \<le> 0 then 0
      else let u = 2 powi (max (ilog2 x - 52) (- 1074)) in of_int (half_even (x / u)) * u)"

section \<open>Printing\<close>

text \<open>\<open>os << v\<close>: six significant digits, as with \<open>%g\<close>. \<open>sig6\<close> gives the digits as a number and the
  decimal exponent of the first.\<close>

definition sig6 :: "rat \<Rightarrow> nat \<times> int" where
  "sig6 x =
     (let e = ilog 10 x; n = nat (half_even (x / 10 powi (e - 5))) in
      if n = 1000000 then (100000, e + 1) else (n, e))"

definition strip_zeros :: "string \<Rightarrow> string" where
  "strip_zeros s = rev (dropWhile (\<lambda>c. c = CHR ''0'') (rev s))"

definition with_fraction :: "string \<Rightarrow> string \<Rightarrow> string" where
  "with_fraction i f = i @ (if strip_zeros f = [] then [] else ''.'' @ strip_zeros f)"

definition show_g :: "nat \<times> int \<Rightarrow> string" where
  "show_g d =
     (let (n, e) = d; ds = show_nat n in
      if e < - 4 \<or> 6 \<le> e
      then with_fraction (take 1 ds) (drop 1 ds) @ ''e'' @ (if e < 0 then ''-'' else ''+'') @
           pad_left 2 CHR ''0'' (show_nat (nat \<bar>e\<bar>))
      else if 0 \<le> e then with_fraction (take (nat e + 1) ds) (drop (nat e + 1) ds)
      else with_fraction ''0'' (replicate (nat (- e) - 1) CHR ''0'' @ ds))"

definition sign_text :: "bool \<Rightarrow> string" where
  "sign_text neg = (if neg then ''-'' else [])"

fun print_double :: "double \<Rightarrow> string" where
  "print_double (Finite neg m) = sign_text neg @ (if m = 0 then ''0'' else show_g (sig6 m))"
| "print_double (Infinite neg) = sign_text neg @ ''inf''"
| "print_double (NotANumber neg) = sign_text neg @ ''nan''"

section \<open>Reading\<close>

text \<open>\<open>std::stod\<close>, that is \<open>strtod\<close>: leading white space, an optional sign, then an infinity, a
  not-a-number, a hexadecimal or a decimal number. Nothing of this kind raises \<open>invalid_argument\<close>.\<close>

definition lower :: "char \<Rightarrow> char" where
  "lower c = (if 65 \<le> (of_char c :: nat) \<and> (of_char c :: nat) \<le> 90 then char_of (of_char c + 32 :: nat) else c)"

definition hex_value :: "char \<Rightarrow> nat option" where
  "hex_value c =
     (let n = of_char (lower c) :: nat in
      if digit_value c \<noteq> None then digit_value c else if 97 \<le> n \<and> n \<le> 102 then Some (n - 87) else None)"

definition digits_value :: "(char \<Rightarrow> nat option) \<Rightarrow> nat \<Rightarrow> string \<Rightarrow> nat" where
  "digits_value dv b ds = foldl (\<lambda>a c. b * a + (case dv c of None \<Rightarrow> 0 | Some d \<Rightarrow> d)) 0 ds"

definition split_sign :: "string \<Rightarrow> bool \<times> string" where
  "split_sign s =
     (case s of [] \<Rightarrow> (False, [])
      | c # cs \<Rightarrow> if c = CHR ''-'' then (True, cs) else if c = CHR ''+'' then (False, cs) else (False, s))"

text \<open>The digits before and after the point, and the rest; the exponent at the start of the rest.\<close>

definition mantissa :: "(char \<Rightarrow> nat option) \<Rightarrow> string \<Rightarrow> string \<times> string \<times> string" where
  "mantissa dv u =
     (let i = takeWhile (\<lambda>c. dv c \<noteq> None) u; r = dropWhile (\<lambda>c. dv c \<noteq> None) u in
      case r of [] \<Rightarrow> (i, [], [])
      | c # cs \<Rightarrow> if c = CHR ''.'' then (i, takeWhile (\<lambda>c. dv c \<noteq> None) cs, dropWhile (\<lambda>c. dv c \<noteq> None) cs)
                else (i, [], r))"

definition exponent_of :: "char \<Rightarrow> string \<Rightarrow> int" where
  "exponent_of mark s =
     (case s of [] \<Rightarrow> 0
      | c # cs \<Rightarrow> if lower c \<noteq> mark then 0
                else let (neg, t) = split_sign cs; n = int (digits_value digit_value 10 (takeWhile (\<lambda>c. digit_value c \<noteq> None) t))
                     in if neg then - n else n)"

definition decimal :: "string \<Rightarrow> rat option" where
  "decimal u =
     (let (i, f, r) = mantissa digit_value u in
      if i = [] \<and> f = [] then None
      else Some (of_nat (digits_value digit_value 10 (i @ f)) * 10 powi (exponent_of CHR ''e'' r - int (length f))))"

definition hexadecimal :: "string \<Rightarrow> rat option" where
  "hexadecimal u =
     (if map lower (take 2 u) \<noteq> ''0x'' then None
      else let (i, f, r) = mantissa hex_value (drop 2 u) in
        if i = [] \<and> f = [] then None
        else Some (of_nat (digits_value hex_value 16 (i @ f)) * 2 powi (exponent_of CHR ''p'' r - 4 * int (length f))))"

text \<open>A number too large for the type raises \<open>out_of_range\<close>, and so does one that is below its normal
  numbers and that it does not represent exactly (as the C library has it: what counts is the number
  rounded to 53 bits).\<close>

definition to_double :: "bool \<Rightarrow> rat \<Rightarrow> double res" where
  "to_double neg r =
     (if 2 ^ 1024 \<le> dround r then Inl out_of_range
      else if dround r \<noteq> r \<and> dblp r < 2 powi (- 1022) then Inl out_of_range
      else Inr (Finite neg (dround r)))"

definition stod :: "string \<Rightarrow> double res" where
  "stod s =
     (let (neg, u) = split_sign (dropWhile isspace s) in
      if map lower (take 3 u) = ''inf'' then Inr (Infinite neg)
      else if map lower (take 3 u) = ''nan'' then Inr (NotANumber neg)
      else case hexadecimal u of
             Some r \<Rightarrow> to_double neg r
           | None \<Rightarrow> (case decimal u of Some r \<Rightarrow> to_double neg r | None \<Rightarrow> Inl invalid_argument))"

section \<open>Lemmas\<close>

subsection \<open>Rounding\<close>

lemma floorlog_range: "1 < b \<Longrightarrow> 0 < n \<Longrightarrow> 0 < floorlog b n \<and> b ^ (floorlog b n - 1) \<le> n \<and> n < b ^ floorlog b n"
  using floorlog_bounds [of n b] floorlog_eq_zero_iff [of b n] by fastforce

lemma ilog_bounds:
  assumes b: "1 < b" and "0 < x"
  shows "of_nat b powi ilog b x \<le> x" "x < of_nat b powi (ilog b x + 1)"
proof -
  have pw: "rat_of_nat b ^ i = rat_of_nat (b ^ i)" for i by simp
  have "of_nat b powi ilog b x \<le> x \<and> x < of_nat b powi (ilog b x + 1)"
  proof (cases "1 \<le> x")
    case True
    let ?n = "nat \<lfloor>x\<rfloor>"
    have n: "0 < ?n" "rat_of_nat ?n \<le> x" "x < rat_of_nat ?n + 1" using True floor_correct [of x] by simp_all
    define k where "k = floorlog b ?n"
    have k: "0 < k" "b ^ (k - 1) \<le> ?n" "?n < b ^ k"
      using floorlog_range [OF b n(1)] unfolding k_def by blast+
    have e: "ilog b x = int (k - 1)" "ilog b x + 1 = int k" using k(1) True by (simp_all add: ilog_def k_def)
    have "rat_of_nat (b ^ (k - 1)) \<le> rat_of_nat ?n" using k(2) by (simp only: of_nat_le_iff)
    moreover have "rat_of_nat (Suc ?n) \<le> rat_of_nat (b ^ k)" using k(3) by (simp only: of_nat_le_iff Suc_le_eq)
    ultimately show ?thesis
      using n unfolding e(2) unfolding e(1) power_int_of_nat pw of_nat_Suc by linarith
  next
    case False
    let ?n = "nat \<lceil>1 / x\<rceil>"
    have y: "1 < 1 / x" using False assms by simp
    then have n: "1 < ?n" "rat_of_nat ?n - 1 < 1 / x" "1 / x \<le> rat_of_nat ?n"
      by (simp_all add: less_ceiling_iff, linarith+)
    define k where "k = floorlog b (?n - 1)"
    have k: "0 < k" "b ^ (k - 1) \<le> ?n - 1" "?n - 1 < b ^ k"
      using floorlog_range [OF b, of "?n - 1"] n(1) unfolding k_def by (metis zero_less_diff)+
    have e: "ilog b x = - int k" "ilog b x + 1 = - int (k - 1)" using k(1) False by (simp_all add: ilog_def k_def)
    have "rat_of_nat (b ^ (k - 1)) \<le> rat_of_nat (?n - 1)" using k(2) by (simp only: of_nat_le_iff)
    then have lo: "rat_of_nat b ^ (k - 1) < 1 / x" using n by (simp add: of_nat_diff)
    have "rat_of_nat ?n \<le> rat_of_nat (b ^ k)" using k(3) n(1) by (simp only: of_nat_le_iff)
    then have hi: "1 / x \<le> rat_of_nat b ^ k" using n(3) unfolding pw by (rule order_trans [rotated])
    show ?thesis unfolding e(2) unfolding e(1) power_int_minus power_int_of_nat
      using lo hi assms by (simp add: field_simps)
  qed
  then show "of_nat b powi ilog b x \<le> x" "x < of_nat b powi (ilog b x + 1)" by simp_all
qed

lemma ilog_eqI:
  assumes b: "1 < b" and x: "0 < x" "of_nat b powi k \<le> x" "x < of_nat b powi (k + 1)"
  shows "ilog b x = k"
proof -
  have "rat_of_nat b powi k < of_nat b powi (ilog b x + 1)" "rat_of_nat b powi ilog b x < of_nat b powi (k + 1)"
    using ilog_bounds [OF b x(1)] x by linarith+
  moreover have "1 \<le> rat_of_nat b" using b by simp
  ultimately have "k < ilog b x + 1" "ilog b x < k + 1" by (metis not_less power_int_increasing)+
  then show ?thesis by simp
qed

lemmas ilog2_bounds = ilog_bounds [of 2, simplified]
lemmas ilog2_eqI = ilog_eqI [of 2, simplified]

lemma ulp_pos [simp]: "0 < ulp x" by (simp add: ulp_def)

lemma half_even_near: "\<bar>of_int (half_even y) - y\<bar> \<le> 1 / 2"
proof -
  have "of_int \<lfloor>y\<rfloor> \<le> y" "y < of_int \<lfloor>y\<rfloor> + 1" using floor_correct [of y] by simp_all
  then show ?thesis by (auto simp: half_even_def Let_def abs_le_iff)
qed

lemma half_even_int [simp]: "half_even (of_int k) = k"
  by (simp add: half_even_def)

lemma dblp_near: "0 < x \<Longrightarrow> \<bar>dblp x - x\<bar> \<le> ulp x / 2"
proof -
  assume x: "0 < x"
  let ?h = "of_int (half_even (x / ulp x)) :: rat"
  have "\<bar>dblp x - x\<bar> = \<bar>?h - x / ulp x\<bar> * ulp x"
  proof -
    have "dblp x - x = (?h - x / ulp x) * ulp x" using x ulp_pos [of x] by (simp add: dblp_def left_diff_distrib del: ulp_pos)
    then show ?thesis by (simp add: abs_mult abs_of_pos [OF ulp_pos])
  qed
  also have "\<dots> \<le> 1 / 2 * ulp x" by (intro mult_right_mono half_even_near) (simp add: less_imp_le)
  finally show ?thesis by simp
qed

lemma ulp_le: "0 < x \<Longrightarrow> ulp x \<le> x / 2 ^ 52"
proof -
  assume x: "0 < x"
  have "ulp x = 2 powi ilog2 x / 2 ^ 52" by (simp add: ulp_def power_int_diff)
  with ilog2_bounds(1) [OF x] show ?thesis by (simp add: divide_right_mono)
qed

lemma dblp_of_nat:
  assumes "n < 2 ^ 53"
  shows "dblp (rat_of_nat n) = rat_of_nat n"
proof (cases "n = 0")
  case False
  let ?x = "rat_of_nat n"
  have x: "0 < ?x" using False by simp
  have "2 powi ilog2 ?x \<le> ?x" by (rule ilog2_bounds(1) [OF x])
  also have "?x < 2 powi 53" using assms by (metis of_nat_less_iff of_nat_numeral of_nat_power power_int_numeral)
  finally have "ilog2 ?x < 53" by (metis not_less one_le_numeral power_int_increasing)
  then have le: "ilog2 ?x \<le> 52" by simp
  then have "ulp ?x = 1 / 2 ^ nat (52 - ilog2 ?x)"
    using power_int_minus [of "2::rat" "52 - ilog2 ?x"] power_int_of_nat [of "2::rat" "nat (52 - ilog2 ?x)"]
    by (simp add: ulp_def divide_inverse)
  then have "?x / ulp ?x = of_int (int n * 2 ^ nat (52 - ilog2 ?x))" by simp
  then have "half_even (?x / ulp ?x) = int n * 2 ^ nat (52 - ilog2 ?x)" by (simp only: half_even_int)
  then show ?thesis using x \<open>ulp ?x = _\<close> by (simp add: dblp_def)
qed (simp add: dblp_def)

lemma floor_dblp_div:
  assumes "n < 2 ^ 53" and "0 < d"
  shows "\<lfloor>dblp (rat_of_nat n / rat_of_nat d)\<rfloor> = int (n div d)"
proof (cases "n mod d = 0")
  case True
  then have "rat_of_nat n / rat_of_nat d = rat_of_nat (n div d)" using assms(2) by (auto simp: mod_eq_0_iff_dvd field_simps simp flip: of_nat_mult)
  moreover have "n div d < 2 ^ 53" using assms(1) div_le_dividend le_less_trans by blast
  ultimately show ?thesis by (simp add: dblp_of_nat)
next
  case False
  let ?q = "rat_of_nat n / rat_of_nat d"
  have n: "0 < n" using False by (cases n) auto
  have q: "0 < ?q" using n assms(2) by simp
  have "ulp ?q / 2 \<le> ?q / 2 ^ 53" using ulp_le [OF q] by simp
  also have "\<dots> < 1 / rat_of_nat d"
  proof -
    have "rat_of_nat n < 2 ^ 53" using assms(1) by (metis of_nat_less_iff of_nat_numeral of_nat_power)
    then show ?thesis using assms(2) by (simp add: field_simps)
  qed
  finally have near: "\<bar>dblp ?q - ?q\<bar> < 1 / rat_of_nat d" using dblp_near [OF q] by linarith
  have eq: "?q = rat_of_nat (n div d) + rat_of_nat (n mod d) / rat_of_nat d"
    using assms(2) by (simp add: field_simps flip: of_nat_mult of_nat_add)
  have "1 \<le> rat_of_nat (n mod d)" "rat_of_nat (n mod d) + 1 \<le> rat_of_nat d"
    using False assms(2) by (simp_all, metis Suc_leI add.commute mod_less_divisor of_nat_Suc of_nat_le_iff)
  then have "1 / rat_of_nat d \<le> rat_of_nat (n mod d) / rat_of_nat d"
      "rat_of_nat (n mod d) / rat_of_nat d + 1 / rat_of_nat d \<le> 1"
    using assms(2) by (simp_all add: field_simps)
  with near eq show ?thesis by (intro floor_unique) (auto simp: abs_less_iff)
qed

lemma dblp_rel: "0 < x \<Longrightarrow> \<bar>dblp x - x\<bar> \<le> x / 2 ^ 53"
  using dblp_near [of x] ulp_le [of x] by simp

lemma dblp_pos: "0 < x \<Longrightarrow> 0 < dblp x"
  using dblp_rel [of x] by (simp only: abs_le_iff) simp

lemma dbl_nonneg: "0 \<le> x \<Longrightarrow> dbl x = dblp x"
  by (simp add: dbl_def)

lemma dbl_of_nat: "n < 2 ^ 53 \<Longrightarrow> dbl (of_nat n) = of_nat n"
  by (simp add: dbl_def dblp_of_nat)

subsection \<open>Digits\<close>

lemma length_show_nat: "n < 10 ^ k \<Longrightarrow> 0 < k \<Longrightarrow> length (show_nat n) \<le> k"
proof (induction k arbitrary: n)
  case (Suc k)
  show ?case
  proof (cases "n < 10")
    case False
    then have "n div 10 < 10 ^ k" "0 < k" using Suc.prems(1) by (auto simp: less_mult_imp_div_less mult.commute intro: Nat.gr0I)
    then show ?thesis using Suc.IH [of "n div 10"] False by (subst show_base.simps) simp
  qed (subst show_base.simps, simp)
qed simp

lemma read_digits_zeros: "read_digits 0 (replicate k CHR ''0'' @ cs) = read_digits 0 cs"
  by (induction k) (simp_all add: digit_value_def)

lemma read_padded: "read_digits 0 (pad_left w CHR ''0'' (show_nat n)) = (n, [])"
  using read_digits_show_nat [of 0 n "[]"] by (simp add: pad_left_def read_digits_zeros)

lemma show_nat_digits: "c \<in> set (show_nat n) \<Longrightarrow> \<exists>d<10. c = digit_char d"
  using subsetD [OF set_show_nat, of c n] by auto

definition all_digits :: "string \<Rightarrow> bool" where
  "all_digits s \<longleftrightarrow> (\<forall>c\<in>set s. \<exists>d<10. c = digit_char d)"

lemma all_digits_simps [simp]:
  "all_digits []" "all_digits (show_nat n)" "all_digits (replicate k CHR ''0'')"
  "all_digits (xs @ ys) \<longleftrightarrow> all_digits xs \<and> all_digits ys"
proof -
  have "digit_char 0 = CHR ''0''" by (simp add: digit_char_def)
  then show "all_digits (replicate k CHR ''0'')" unfolding all_digits_def by (metis in_set_replicate zero_less_numeral)
qed (use show_nat_digits [of _ n] in \<open>auto simp: all_digits_def\<close>)

lemma all_digits_sub: "all_digits s \<Longrightarrow> set t \<subseteq> set s \<Longrightarrow> all_digits t"
  by (auto simp: all_digits_def)

lemma all_digits_value: "all_digits s \<Longrightarrow> c \<in> set s \<Longrightarrow> digit_value c \<noteq> None"
  by (auto simp: all_digits_def)

lemma takeWhile_digits:
  assumes "all_digits s" and "r = [] \<or> digit_value (hd r) = None"
  shows "takeWhile (\<lambda>c. digit_value c \<noteq> None) (s @ r) = s" "dropWhile (\<lambda>c. digit_value c \<noteq> None) (s @ r) = r"
proof -
  have "takeWhile (\<lambda>c. digit_value c \<noteq> None) r = []" "dropWhile (\<lambda>c. digit_value c \<noteq> None) r = r"
    using assms(2) by (cases r; simp)+
  with all_digits_value [OF assms(1)] show "takeWhile (\<lambda>c. digit_value c \<noteq> None) (s @ r) = s"
      "dropWhile (\<lambda>c. digit_value c \<noteq> None) (s @ r) = r"
    by (simp_all add: takeWhile_append dropWhile_append)
qed

abbreviation dec_value :: "string \<Rightarrow> nat" where
  "dec_value \<equiv> digits_value digit_value 10"

lemma dec_value_read: "all_digits s \<Longrightarrow> read_digits a s = (foldl (\<lambda>a c. 10 * a + (case digit_value c of None \<Rightarrow> 0 | Some d \<Rightarrow> d)) a s, [])"
  by (induction s arbitrary: a) (auto simp: all_digits_def split: option.splits)

lemma dec_value_show [simp]: "dec_value (show_nat n) = n"
  using dec_value_read [of "show_nat n" 0] read_digits_show_nat [of 0 n "[]"] by (simp add: digits_value_def)

lemma dec_value_zeros [simp]:
  "dec_value (s @ replicate k CHR ''0'') = dec_value s * 10 ^ k"
  "dec_value (replicate k CHR ''0'' @ s) = dec_value s"
proof -
  have zero: "digit_value CHR ''0'' = Some 0" by (simp add: digit_value_def)
  have "foldl (\<lambda>a c. 10 * a + (case digit_value c of None \<Rightarrow> 0 | Some d \<Rightarrow> d)) a (replicate k CHR ''0'') = a * 10 ^ k" for a
    by (induction k arbitrary: a) (simp_all add: zero)
  then show "dec_value (s @ replicate k CHR ''0'') = dec_value s * 10 ^ k" "dec_value (replicate k CHR ''0'' @ s) = dec_value s"
    by (simp_all add: digits_value_def)
qed

lemma strip_zeros_split: "\<exists>k. s = strip_zeros s @ replicate k CHR ''0''"
proof -
  let ?z = "takeWhile (\<lambda>c. c = CHR ''0'') (rev s)"
  have "?z = replicate (length ?z) CHR ''0''" by (rule replicate_length_same [symmetric]) (auto dest: set_takeWhileD)
  moreover have "s = strip_zeros s @ rev ?z"
    unfolding strip_zeros_def by (metis rev_append rev_rev_ident takeWhile_dropWhile_id)
  ultimately show ?thesis by (metis rev_replicate)
qed

subsection \<open>Reading a printed number\<close>

lemma mantissa_fraction:
  assumes "all_digits i" and "all_digits f" and r: "r = [] \<or> digit_value (hd r) = None \<and> hd r \<noteq> CHR ''.''"
  shows "mantissa digit_value (with_fraction i f @ r) = (i, strip_zeros f, r)"
proof -
  obtain k where "f = strip_zeros f @ replicate k CHR ''0''" using strip_zeros_split by blast
  then have f: "all_digits (strip_zeros f)" using assms(2) by (metis all_digits_simps(4))
  have dot: "digit_value CHR ''.'' = None" by (simp add: digit_value_def)
  have r': "r = [] \<or> digit_value (hd r) = None" using r by auto
  show ?thesis
  proof (cases "strip_zeros f = []")
    case True
    then show ?thesis using takeWhile_digits [OF assms(1) r'] r
      by (auto simp: mantissa_def with_fraction_def Let_def split: list.splits)
  next
    case False
    then show ?thesis
      using takeWhile_digits [OF assms(1), of "CHR ''.'' # strip_zeros f @ r"] takeWhile_digits [OF f r'] dot
      by (simp add: mantissa_def with_fraction_def)
  qed
qed

lemma decimal_fraction:
  assumes "all_digits i" and "all_digits f" and r: "r = [] \<or> digit_value (hd r) = None \<and> hd r \<noteq> CHR ''.''" and "i \<noteq> []"
  shows "decimal (with_fraction i f @ r) =
    Some (of_nat (dec_value (i @ f)) * 10 powi (exponent_of CHR ''e'' r - int (length f)))"
proof -
  obtain k where k: "f = strip_zeros f @ replicate k CHR ''0''" using strip_zeros_split by blast
  let ?s = "strip_zeros f" and ?e = "exponent_of CHR ''e'' r"
  have "dec_value (i @ f) = dec_value (i @ ?s) * 10 ^ k" using k dec_value_zeros(1) [of "i @ ?s" k] by simp
  moreover have "int (length f) = int (length ?s) + int k" using arg_cong [OF k, of length] by simp
  moreover have "rat_of_nat (10 ^ k) * 10 powi (?e - (int (length ?s) + int k)) = 10 powi (?e - int (length ?s))"
    by (simp add: power_int_diff power_int_add)
  ultimately have "of_nat (dec_value (i @ f)) * 10 powi (?e - int (length f)) =
      rat_of_nat (dec_value (i @ ?s)) * 10 powi (?e - int (length ?s))"
    by (simp only: of_nat_mult mult.assoc)
  with mantissa_fraction [OF assms(1-3)] assms(4) show ?thesis by (simp add: decimal_def)
qed

lemma exponent_text:
  "exponent_of CHR ''e'' (''e'' @ (if e < 0 then ''-'' else ''+'') @ pad_left 2 CHR ''0'' (show_nat (nat \<bar>e\<bar>))) = e"
proof -
  let ?p = "pad_left 2 CHR ''0'' (show_nat (nat \<bar>e\<bar>))"
  have p: "all_digits ?p" "dec_value ?p = nat \<bar>e\<bar>" by (simp_all add: pad_left_def)
  have t: "takeWhile (\<lambda>c. digit_value c \<noteq> None) ?p = ?p"
    using takeWhile_digits(1) [OF p(1), of "[]"] unfolding append_Nil2 by blast
  have e: "exponent_of CHR ''e'' (''e'' @ (if e < 0 then ''-'' else ''+'') @ t) =
      (if e < 0 then - int (dec_value (takeWhile (\<lambda>c. digit_value c \<noteq> None) t))
       else int (dec_value (takeWhile (\<lambda>c. digit_value c \<noteq> None) t)))" for t
    by (simp add: exponent_of_def lower_def split_sign_def Let_def)
  show ?thesis unfolding e t p(2) by simp
qed

lemma length_show_nat_ge: "10 ^ k \<le> n \<Longrightarrow> Suc k \<le> length (show_nat n)"
proof (induction k arbitrary: n)
  case (Suc k)
  then have "10 ^ k \<le> n div 10" by simp
  moreover have "\<not> n < 10" using Suc.prems order_trans [of 10 "10 * 10 ^ k" n] by simp
  ultimately show ?case using Suc.IH [of "n div 10"] by (subst show_base.simps) simp
qed (simp add: Suc_leI)

lemma decimal_show_g:
  assumes "100000 \<le> n" and "n < 1000000"
  shows "decimal (show_g (n, e)) = Some (of_nat n * 10 powi (e - 5))"
proof -
  let ?ds = "show_nat n"
  have len: "length ?ds = 6" using length_show_nat [of n 6] length_show_nat_ge [of 5 n] assms by simp
  have sub: "all_digits (take k ?ds)" "all_digits (drop k ?ds)" for k
    by (rule all_digits_sub [OF all_digits_simps(2)], auto dest: in_set_takeD in_set_dropD)+
  consider "e < - 4 \<or> 6 \<le> e" | "- 4 \<le> e" "e < 0" | "0 \<le> e" "e < 6" by linarith
  then show ?thesis
  proof cases
    case 1
    let ?r = "''e'' @ (if e < 0 then ''-'' else ''+'') @ pad_left 2 CHR ''0'' (show_nat (nat \<bar>e\<bar>))"
    have "decimal (with_fraction (take 1 ?ds) (drop 1 ?ds) @ ?r) =
        Some (of_nat (dec_value (take 1 ?ds @ drop 1 ?ds)) * 10 powi (exponent_of CHR ''e'' ?r - int (length (drop 1 ?ds))))"
      by (rule decimal_fraction) (use sub len in \<open>auto simp: digit_value_def\<close>)
    with 1 len show ?thesis unfolding exponent_text by (simp add: show_g_def Let_def)
  next
    case 2
    let ?f = "replicate (nat (- e) - 1) CHR ''0'' @ ?ds"
    have "decimal (with_fraction ''0'' ?f @ []) = Some (of_nat (dec_value (''0'' @ ?f)) * 10 powi (exponent_of CHR ''e'' [] - int (length ?f)))"
      by (rule decimal_fraction) (auto simp: all_digits_simps(3) [of 1, simplified])
    moreover have "dec_value (''0'' @ ?f) = n" using dec_value_zeros(2) [of 1 ?f] by simp
    ultimately show ?thesis using 2 len by (simp add: show_g_def exponent_of_def algebra_simps of_nat_diff)
  next
    case 3
    have "decimal (with_fraction (take (nat e + 1) ?ds) (drop (nat e + 1) ?ds) @ []) =
        Some (of_nat (dec_value (take (nat e + 1) ?ds @ drop (nat e + 1) ?ds)) * 10 powi (exponent_of CHR ''e'' [] - int (length (drop (nat e + 1) ?ds))))"
      by (rule decimal_fraction) (use sub len in auto)
    with 3 len show ?thesis by (simp add: show_g_def exponent_of_def Let_def algebra_simps of_nat_diff)
  qed
qed

text \<open>The characters of a printed number.\<close>

definition number_chars :: "char set" where
  "number_chars = set ''0123456789.e+-''"

lemma number_chars_plain:
  "c \<in> number_chars \<Longrightarrow> lower c = c \<and> c \<noteq> CHR ''x'' \<and> c \<noteq> CHR ''i'' \<and> c \<noteq> CHR ''n'' \<and> \<not> isspace c"
  by (auto simp: number_chars_def lower_def isspace_def)

lemma all_digits_chars: "all_digits s \<Longrightarrow> set s \<subseteq> number_chars"
proof -
  have "digit_char d \<in> number_chars" if "d < 10" for d
  proof -
    from that have "d \<in> {0, 1, 2, 3, 4, 5, 6, 7, 8, 9}" by auto
    then show ?thesis by (auto simp: digit_char_def number_chars_def)
  qed
  then show "all_digits s \<Longrightarrow> set s \<subseteq> number_chars" by (auto simp: all_digits_def)
qed

lemma with_fraction_chars:
  assumes "all_digits i" and "all_digits f"
  shows "set (with_fraction i f) \<subseteq> number_chars"
proof -
  have "set (strip_zeros f) \<subseteq> set f" unfolding strip_zeros_def by (metis set_dropWhileD set_rev subsetI)
  moreover have "CHR ''.'' \<in> number_chars" by (simp add: number_chars_def)
  ultimately show ?thesis
    using all_digits_chars [OF assms(1)] all_digits_chars [OF assms(2)] unfolding with_fraction_def by auto
qed

lemma show_g_digits:
  "\<exists>i f r. show_g (n, e) = with_fraction i f @ r \<and> all_digits i \<and> all_digits f \<and> i \<noteq> [] \<and> set r \<subseteq> number_chars"
proof -
  let ?ds = "show_nat n"
  have sub: "all_digits (take k ?ds)" "all_digits (drop k ?ds)" for k
    by (rule all_digits_sub [OF all_digits_simps(2)], auto dest: in_set_takeD in_set_dropD)+
  have zero: "all_digits ''0''" using all_digits_simps(3) [of 1] by simp
  have "set (pad_left 2 CHR ''0'' (show_nat (nat \<bar>e\<bar>))) \<subseteq> number_chars"
    by (rule all_digits_chars) (simp add: pad_left_def)
  moreover have "{CHR ''e'', CHR ''-'', CHR ''+''} \<subseteq> number_chars" by (simp add: number_chars_def)
  ultimately have exp: "set (''e'' @ (if e < 0 then ''-'' else ''+'') @ pad_left 2 CHR ''0'' (show_nat (nat \<bar>e\<bar>))) \<subseteq> number_chars"
    by simp
  have take: "take (Suc k) ?ds \<noteq> []" for k by simp
  show ?thesis
  proof (cases "e < - 4 \<or> 6 \<le> e")
    case True
    then have "show_g (n, e) = with_fraction (take 1 ?ds) (drop 1 ?ds) @
        (''e'' @ (if e < 0 then ''-'' else ''+'') @ pad_left 2 CHR ''0'' (show_nat (nat \<bar>e\<bar>)))"
      by (simp only: show_g_def Let_def prod.case if_True)
    with sub [of 1] exp take [of 0] show ?thesis by (metis One_nat_def)
  next
    case False
    show ?thesis
    proof (cases "0 \<le> e")
      case True
      with False have "show_g (n, e) = with_fraction (take (Suc (nat e)) ?ds) (drop (Suc (nat e)) ?ds) @ []"
        by (simp add: show_g_def Let_def)
      with sub [of "Suc (nat e)"] take [of "nat e"] show ?thesis by (metis empty_set empty_subsetI)
    next
      case neg: False
      with False have "show_g (n, e) = with_fraction ''0'' (replicate (nat (- e) - 1) CHR ''0'' @ ?ds) @ []"
        by (simp add: show_g_def Let_def)
      with zero show ?thesis by (metis all_digits_simps(2-4) empty_set empty_subsetI list.discI)
    qed
  qed
qed

lemma show_g_chars: "set (show_g (n, e)) \<subseteq> number_chars"
proof -
  obtain i f r where "show_g (n, e) = with_fraction i f @ r" "all_digits i" "all_digits f" "set r \<subseteq> number_chars"
    using show_g_digits by blast
  with with_fraction_chars [of i f] show ?thesis by simp
qed

lemma show_g_start: "show_g (n, e) \<noteq> [] \<and> digit_value (hd (show_g (n, e))) \<noteq> None"
proof -
  obtain i f r where s: "show_g (n, e) = with_fraction i f @ r" "all_digits i" "i \<noteq> []"
    using show_g_digits by blast
  then have "hd (show_g (n, e)) = hd i" by (simp add: with_fraction_def)
  with s all_digits_value [OF s(2), of "hd i"] show ?thesis by (auto simp: with_fraction_def)
qed

lemma stod_plain:
  assumes "set u \<subseteq> number_chars" and "u \<noteq> []" and "digit_value (hd u) \<noteq> None"
  shows "stod (sign_text neg @ u) = (case decimal u of Some r \<Rightarrow> to_double neg r | None \<Rightarrow> Inl invalid_argument)"
proof -
  obtain c cs where u: "u = c # cs" using assms(2) by (cases u) auto
  have sign: "c \<noteq> CHR ''-''" "c \<noteq> CHR ''+''" using assms(3) by (auto simp: u digit_value_def)
  have c: "c \<in> number_chars" "set cs \<subseteq> number_chars" using assms(1) by (simp_all add: u)
  have "\<not> isspace CHR ''-''" by (simp add: isspace_def)
  then have "split_sign (dropWhile isspace (sign_text neg @ u)) = (neg, u)"
    using sign number_chars_plain [OF c(1)] by (simp add: u sign_text_def split_sign_def)
  moreover have "map lower (take 3 u) \<noteq> ''inf''" "map lower (take 3 u) \<noteq> ''nan''"
    using number_chars_plain [OF c(1)] by (auto simp: u numeral_3_eq_3)
  moreover have "hexadecimal u = None"
  proof (cases cs)
    case (Cons d ds)
    then show ?thesis using c(2) number_chars_plain [of d] by (simp add: hexadecimal_def u numeral_2_eq_2)
  qed (simp add: hexadecimal_def u numeral_2_eq_2)
  ultimately show ?thesis by (simp add: stod_def)
qed

subsection \<open>Six digits\<close>

lemma half_even_eq: "\<bar>y - of_int k\<bar> < 1 / 2 \<Longrightarrow> half_even y = k"
proof -
  assume "\<bar>y - of_int k\<bar> < 1 / 2"
  with half_even_near [of y] have "\<bar>rat_of_int (half_even y) - of_int k\<bar> < 1" by linarith
  then have "\<bar>half_even y - k\<bar> < 1" by (metis of_int_1 of_int_abs of_int_diff of_int_less_iff)
  then show ?thesis by simp
qed

definition six_digits :: "rat \<Rightarrow> rat" where
  "six_digits x = (case sig6 x of (n, e) \<Rightarrow> of_nat n * 10 powi (e - 5))"

lemma ten_split: "(10::rat) powi e = 100000 * 10 powi (e - 5)" "(10::rat) powi (e + 1) = 1000000 * 10 powi (e - 5)"
    "(10::rat) powi (e - 5) = 10 * 10 powi (e - 6)"
  by (simp_all add: power_int_diff power_int_add)

lemma sig6_range:
  assumes "0 < x" and "sig6 x = (n, e)"
  shows "100000 \<le> n" "n < 1000000" "\<bar>six_digits x - x\<bar> \<le> x / 200000"
proof -
  define k where "k = ilog 10 x"
  define u :: rat where "u = 10 powi (k - 5)"
  have u: "0 < u" by (simp add: u_def)
  have b: "100000 * u \<le> x" "x < 1000000 * u"
    using ilog_bounds [of 10 x] assms(1) ten_split [of k] by (simp_all add: k_def u_def)
  define h where "h = half_even (x / u)"
  have near: "\<bar>of_int h - x / u\<bar> \<le> 1 / 2" unfolding h_def by (rule half_even_near)
  have y: "100000 \<le> x / u" "x / u < 1000000" using b u by (simp_all add: field_simps)
  from near y have "(99999 :: rat) < of_int h" "of_int h < (1000001 :: rat)" by linarith+
  then have h: "100000 \<le> h" "h \<le> 1000000" by linarith+
  have val: "six_digits x = of_int h * u"
  proof (cases "h = 1000000")
    case True
    then have "sig6 x = (100000, k + 1)" by (simp add: sig6_def k_def h_def u_def)
    then show ?thesis using True by (simp add: six_digits_def u_def power_int_diff power_int_add)
  next
    case False
    then have "nat h \<noteq> 1000000" using h by linarith
    then have "sig6 x = (nat h, k)" using h by (simp add: sig6_def k_def h_def u_def Let_def)
    then show ?thesis using h by (simp add: six_digits_def u_def)
  qed
  have "sig6 x = (if nat h = 1000000 then (100000, k + 1) else (nat h, k))"
    by (simp add: sig6_def k_def h_def u_def Let_def)
  with assms(2) h show "100000 \<le> n" "n < 1000000" by (auto split: if_splits)
  have "six_digits x - x = (of_int h - x / u) * u" using u by (simp add: val left_diff_distrib)
  then have "\<bar>six_digits x - x\<bar> = \<bar>of_int h - x / u\<bar> * u" using u by (simp add: abs_mult)
  also have "\<dots> \<le> 1 / 2 * u" by (intro mult_right_mono near) (use u in simp)
  finally show "\<bar>six_digits x - x\<bar> \<le> x / 200000" using b(1) by simp
qed

lemma sig6_near:
  assumes n: "100000 \<le> n" "n < 1000000" and near: "\<bar>y - of_nat n * 10 powi (e - 5)\<bar> \<le> 10 powi (e - 5) / 100"
  shows "sig6 y = (n, e)"
proof -
  define u :: rat where "u = 10 powi (e - 5)"
  have u: "0 < u" by (simp add: u_def)
  have nn: "(100000 :: rat) \<le> of_nat n" "of_nat n \<le> (999999 :: rat)"
    using n by (simp_all add: of_nat_le_iff [of _ "999999 :: nat", where 'a = rat, simplified])
  have q: "\<bar>y / u - of_nat n\<bar> \<le> 1 / 100"
  proof -
    have "y / u - of_nat n = (y - of_nat n * u) / u" using u by (simp add: diff_divide_distrib)
    then show ?thesis using near u by (simp add: u_def [symmetric] abs_divide field_simps)
  qed
  have y: "y = y / u * u" using u by simp
  show ?thesis
  proof (cases "100000 * u \<le> y")
    case True
    have "y / u < 1000000" using q nn by linarith
    then have "y < 1000000 * u" using u by (simp add: field_simps)
    moreover have "0 < y" using True u by linarith
    ultimately have "ilog 10 y = e"
      using True ten_split(1,2) [of e] by (intro ilog_eqI) (simp_all add: u_def)
    moreover have "half_even (y / u) = int n" using q by (intro half_even_eq) simp
    ultimately show ?thesis using n by (simp add: sig6_def u_def Let_def)
  next
    case False
    then have "y / u < 100000" using u by (simp add: field_simps)
    then have "of_nat n < (100001 :: rat)" using q by linarith
    then have n5: "n = 100000" using n(1) by (simp add: of_nat_less_iff [of _ "100001 :: nat", where 'a = rat, simplified])
    have "\<bar>y / u - 100000\<bar> \<le> 1 / 100" using q n5 by simp
    then have "99999 < y / u" by linarith
    then have lo: "99999 * u < y" using u by (simp add: field_simps)
    then have "0 < y" using u by linarith
    define w :: rat where "w = 10 powi (e - 6)"
    have uw: "u = 10 * w" "0 < w" using ten_split(3) [of e] by (simp_all add: u_def w_def)
    have "(10::rat) powi (e - 1) = 100000 * w" by (simp add: w_def power_int_diff)
    then have "ilog 10 y = e - 1"
      using lo False uw \<open>0 < y\<close> ten_split(1) [of e] by (intro ilog_eqI) (simp_all add: u_def [symmetric])
    moreover have "\<bar>y / w - 1000000\<bar> \<le> 1 / 10" using q n5 uw by (simp add: abs_le_iff field_simps)
    then have "half_even (y / w) = 1000000" by (intro half_even_eq) simp
    ultimately show ?thesis using n5 by (simp add: sig6_def w_def Let_def)
  qed
qed

lemma dround_near:
  assumes "0 < q" and "dround q = q \<or> 2 powi (- 1022) \<le> dblp q"
  shows "\<bar>dround q - q\<bar> \<le> q / 2 ^ 50"
proof (cases "dround q = q")
  case False
  define u :: rat where "u = 2 powi (max (ilog2 q - 52) (- 1074))"
  have u: "0 < u" by (simp add: u_def)
  have "dblp q - q \<le> q / 2 ^ 53" using dblp_rel [OF assms(1)] by (rule abs_le_D1)
  then have "2 powi (- 1022) \<le> q + q / 2 ^ 53" using assms(2) False by (metis add.commute diff_le_eq order_trans)
  moreover have "(2::rat) powi (- 1022) = 2 ^ 52 * 2 powi (- 1074)" by (simp add: power_int_minus)
  ultimately have "2 powi (- 1074) \<le> q / 2 ^ 51" using assms(1) by simp
  moreover have "ulp q \<le> q / 2 ^ 51" using ulp_le [OF assms(1)] assms(1) by simp
  ultimately have le: "u \<le> q / 2 ^ 51" by (simp add: u_def ulp_def max_def)
  have "dround q - q = (of_int (half_even (q / u)) - q / u) * u"
    using assms(1) u by (simp add: dround_def u_def [symmetric] left_diff_distrib)
  then have "\<bar>dround q - q\<bar> = \<bar>of_int (half_even (q / u)) - q / u\<bar> * u" using u by (simp add: abs_mult)
  also have "\<dots> \<le> 1 / 2 * u" by (intro mult_right_mono half_even_near) (use u in simp)
  finally show ?thesis using le assms(1) by simp
qed (use assms(1) in simp)

lemma to_double_InrD: "to_double neg q = Inr d \<Longrightarrow> d = Finite neg (dround q) \<and> (dround q = q \<or> 2 powi (- 1022) \<le> dblp q)"
  by (auto simp: to_double_def split: if_splits)

lemma stod_print_double:
  assumes "0 < m"
  shows "stod (print_double (Finite neg m)) = to_double neg (six_digits m)"
proof -
  obtain n e where s: "sig6 m = (n, e)" by fastforce
  have "decimal (show_g (n, e)) = Some (six_digits m)"
    using decimal_show_g [of n e] sig6_range [OF assms s] by (simp add: six_digits_def s)
  with stod_plain [OF show_g_chars, of n e neg] show_g_start [of n e] assms s show ?thesis by simp
qed

lemma print_double_zero: "stod (print_double (Finite neg 0)) = Inr (Finite neg 0)"
  using stod_plain [of "''0''" neg]
  by (simp add: number_chars_def digit_value_def decimal_def mantissa_def digits_value_def to_double_def dround_def)

text \<open>Rounding a number of six digits to the type does not change its six digits.\<close>

lemma sig6_dround:
  assumes n: "100000 \<le> n" "n < 1000000" and q: "q = of_nat n * 10 powi (e - 5)"
    and ok: "dround q = q \<or> 2 powi (- 1022) \<le> dblp q"
  shows "sig6 (dround q) = (n, e)" "0 < dround q" "\<bar>dround q - q\<bar> \<le> q / 2 ^ 50"
proof -
  define u :: rat where "u = 10 powi (e - 5)"
  have u: "0 < u" by (simp add: u_def)
  have pos: "0 < q" using n(1) u by (simp add: q u_def)
  show near: "\<bar>dround q - q\<bar> \<le> q / 2 ^ 50" by (rule dround_near [OF pos ok])
  have "rat_of_nat n < 1000000" using n(2) by (simp add: of_nat_less_iff [of _ "1000000 :: nat", where 'a = rat, simplified])
  then have "q < 1000000 * u" using u by (simp add: q u_def)
  then have "q / 2 ^ 50 \<le> u / 100" using u by simp
  with near have "\<bar>dround q - q\<bar> \<le> u / 100" by linarith
  then show "sig6 (dround q) = (n, e)" using sig6_near [OF n, of "dround q" e] unfolding u_def q [symmetric] by blast
  have "q / 2 ^ 50 < q" using pos by simp
  then show "0 < dround q" using near pos unfolding abs_le_iff by linarith
qed

text \<open>A number that is the nearest one to a decimal fraction of at most six digits is read back exactly.\<close>

lemma short_decimal:
  assumes n: "100000 \<le> n" "n < 1000000" and d: "to_double neg (of_nat n * 10 powi (e - 5)) = Inr d"
  shows "stod (print_double d) = Inr d"
proof -
  define q :: rat where "q = of_nat n * 10 powi (e - 5)"
  have v: "d = Finite neg (dround q)" "dround q = q \<or> 2 powi (- 1022) \<le> dblp q"
    using to_double_InrD [OF d] by (simp_all add: q_def)
  note s = sig6_dround [OF n q_def v(2)]
  have "six_digits (dround q) = q" unfolding six_digits_def s(1) by (simp add: q_def)
  then show ?thesis unfolding v(1) stod_print_double [OF s(2)] using d by (simp add: v(1) q_def)
qed

text \<open>What is read back of a printed number prints in the same way, and is near the number.\<close>

lemma double_text:
  assumes "0 < m" and "stod (print_double (Finite neg m)) = Inr d"
  shows "print_double d = print_double (Finite neg m) \<and> (\<exists>v. d = Finite neg v \<and> \<bar>v - m\<bar> \<le> m / 100000)"
proof -
  obtain n e where s: "sig6 m = (n, e)" by fastforce
  define q where "q = six_digits m"
  have qn: "q = of_nat n * 10 powi (e - 5)" by (simp add: q_def six_digits_def s)
  note range = sig6_range [OF assms(1) s]
  have d: "d = Finite neg (dround q)" "dround q = q \<or> 2 powi (- 1022) \<le> dblp q"
    using assms(2) stod_print_double [OF assms(1)] to_double_InrD [of neg q d] by (auto simp: q_def)
  note same = sig6_dround [OF range(1,2) qn d(2)]
  with s d(1) assms(1) have "print_double d = print_double (Finite neg m)" by simp
  moreover have "\<bar>dround q - m\<bar> \<le> m / 100000"
  proof -
    have a: "\<bar>q - m\<bar> \<le> m / 200000" using range(3) by (simp add: q_def)
    then have "q \<le> 2 * m" using assms(1) unfolding abs_le_iff by linarith
    then have "q / 2 ^ 50 \<le> m / 200000" using assms(1) by simp
    with a same(3) show ?thesis by linarith
  qed
  ultimately show ?thesis using d(1) by blast
qed

lemma stod_special:
  "stod (print_double (Infinite neg)) = Inr (Infinite neg)" "stod (print_double (NotANumber neg)) = Inr (NotANumber neg)"
  by (simp_all add: stod_def sign_text_def split_sign_def isspace_def lower_def)

text \<open>Printed numbers have no white space.\<close>

lemma print_double_no_space: "c \<in> set (print_double d) \<Longrightarrow> \<not> isspace c"
proof -
  have sign: "set (sign_text neg) \<subseteq> {CHR ''-''}" for neg by (auto simp: sign_text_def)
  have plain: "c \<in> number_chars \<Longrightarrow> \<not> isspace c" for c using number_chars_plain by blast
  have letters: "\<forall>c\<in>set ''-0infa''. \<not> isspace c" by (simp add: isspace_def)
  show "c \<in> set (print_double d) \<Longrightarrow> \<not> isspace c"
    using show_g_chars sign plain letters by (cases d; cases "sig6 (case d of Finite neg m \<Rightarrow> m | _ \<Rightarrow> 0)") (auto split: if_splits, blast+)
qed

lemma print_double_nonempty: "print_double d \<noteq> []"
proof (cases d)
  case (Finite neg m)
  then show ?thesis using show_g_start by (cases "sig6 m") auto
qed auto

text \<open>A number that is not near the ends of the range is read back; the smallest normal number is not.\<close>

lemma stod_in_range:
  assumes "2 powi (- 1021) \<le> m" and "m \<le> 2 ^ 1023"
  shows "\<exists>d. stod (print_double (Finite neg m)) = Inr d"
proof -
  have m: "0 < m" using assms(1) by (rule less_le_trans [rotated]) simp
  obtain n e where s: "sig6 m = (n, e)" by fastforce
  define q where "q = six_digits m"
  have qm: "\<bar>q - m\<bar> \<le> m / 200000" using sig6_range(3) [OF m s] by (simp add: q_def)
  then have b: "m / 2 < q" "q < 3 / 2 * m" using m unfolding abs_le_iff by linarith+
  have q: "3 / 4 * m < q" "0 < q" using qm m unfolding abs_le_iff by linarith+
  have "q - dblp q \<le> q / 2 ^ 53" using dblp_rel [OF q(2)] by (simp only: abs_le_iff minus_diff_eq)
  then have "m / 2 \<le> dblp q" using q by simp
  moreover have "(2::rat) powi (- 1021) = 2 * 2 powi (- 1022)" by (simp add: power_int_minus)
  ultimately have lo: "2 powi (- 1022) \<le> dblp q" using assms(1) by simp
  then have "\<bar>dround q - q\<bar> \<le> q / 2 ^ 50" using dround_near [OF q(2)] by blast
  then have "dround q - q \<le> q / 2 ^ 50" by (rule abs_le_D1)
  then have "dround q < 2 * m" using b m by simp
  also have "2 * m \<le> 2 * 2 ^ 1023" using assms(2) by simp
  also have "(2::rat) * 2 ^ 1023 = 2 ^ 1024" by simp
  finally have "\<not> 2 ^ 1024 \<le> dround q" by simp
  with lo show ?thesis unfolding stod_print_double [OF m] q_def [symmetric] by (simp add: to_double_def)
qed

lemma sig6_smallest: "sig6 (2 powi (- 1022)) = (222507, - 308)"
proof -
  have "ilog 10 (2 powi (- 1022)) = - 308" by (rule ilog_eqI) (simp_all add: power_int_minus)
  moreover have "half_even (2 powi (- 1022) / 10 powi (- 313)) = 222507"
    by (rule half_even_eq) (simp add: power_int_minus)
  ultimately show ?thesis by (simp add: sig6_def)
qed

lemma stod_smallest: "stod (print_double (Finite neg (2 powi (- 1022)))) = Inl out_of_range"
proof -
  define q :: rat where "q = 222507 * 10 powi (- 313)"
  have six: "six_digits (2 powi (- 1022)) = q" unfolding six_digits_def sig6_smallest q_def by simp
  have q: "0 < q" by (simp add: q_def)
  have "ilog2 q = - 1023" by (rule ilog2_eqI) (simp_all add: q_def power_int_minus)
  then have d: "dround q = of_int (half_even (q / 2 powi (- 1074))) * 2 powi (- 1074)" using q by (simp add: dround_def)
  have ne: "dround q \<noteq> q"
  proof
    assume "dround q = q"
    then obtain h where "of_int h * 2 powi (- 1074) = q" using d by metis
    then have "of_int h * 5 ^ 313 = (222507 * 2 ^ 761 :: rat)" by (simp add: q_def power_int_minus field_simps)
    then have "rat_of_int (h * 5 ^ 313) = rat_of_int (222507 * 2 ^ 761)" by simp
    then have eq: "h * 5 ^ 313 = 222507 * 2 ^ 761" by (simp only: of_int_eq_iff)
    have "5 dvd h * 5 ^ 313" by (rule dvd_mult) (rule dvd_power, simp)
    then have "5 dvd (222507 * 2 ^ 761 :: int)" unfolding eq .
    moreover have "coprime (5::int) (2 ^ 761)"
      unfolding coprime_power_right_iff by (simp add: coprime_iff_gcd_eq_1 gcd_non_0_int)
    ultimately have "5 dvd (222507 :: int)" by (metis coprime_dvd_mult_left_iff)
    then show False by simp
  qed
  have "dblp q - q \<le> q / 2 ^ 53" using dblp_rel [OF q] by (rule abs_le_D1)
  then have "dblp q \<le> q / 2 ^ 53 + q" by (simp only: diff_le_eq)
  also have "\<dots> < 2 powi (- 1022)"
  proof -
    define t w :: rat where "t = 10 ^ 313" and "w = 2 ^ 1022"
    have "222507 * (2 ^ 53 + 1) * w < t * 2 ^ 53" "0 < t" "0 < w" unfolding t_def w_def by simp_all
    then have "222507 * inverse t / 2 ^ 53 + 222507 * inverse t < inverse w" by (simp add: field_simps)
    moreover have "q = 222507 * inverse t" "2 powi (- 1022) = inverse w" by (simp_all only: q_def t_def w_def power_int_minus power_int_numeral)
    ultimately show ?thesis by (simp only:)
  qed
  finally have "dblp q < 2 powi (- 1022)" .
  with ne have "to_double neg q = Inl out_of_range" by (simp only: to_double_def simp_thms if_True if_cancel)
  moreover have "stod (print_double (Finite neg (2 powi (- 1022)))) = to_double neg q"
    unfolding six [symmetric] by (rule stod_print_double) simp
  ultimately show ?thesis by simp
qed

end
