(* ===== verification/Settings.thy ===== *)
theory Settings
  imports Double_Format "HOL-Library.List_Lexorder" "HOL-Library.Char_ord"
begin

text \<open>
  The settings file, \<open>src/src/util/settings.h\<close> and \<open>settings.cpp\<close>, with \<open>trim\<close> of
  \<open>util.h\<close>.

  \<open>std::map<std::string, std::string>\<close> is an association list kept in increasing order of
  its keys, which is the order in which the code iterates over it. A file is its contents with
  two flags that say whether the two ways of opening it succeed; opening it for reading uses
  the mode \<open>a+\<close>, which creates a missing file empty. The values are strings, \<open>int\<close>s and
  \<open>double\<close>s (\<open>Double_Format\<close>); any other type is the constructor
  \<open>OtherV\<close>, which \<open>isSupported\<close> refuses. Messages on standard output are left out.
\<close>

section \<open>Model\<close>

subsection \<open>Strings and maps\<close>

text \<open>\<open>trim\<close> of \<open>util.h\<close> on the classic locale.\<close>

definition trim :: "string \<Rightarrow> string" where
  "trim s = (let t = dropWhile isspace s in
             if t = [] then [] else rev (dropWhile isspace (rev t)))"

text \<open>
  The loop of \<open>split\<close>. It continues one character behind the match, whatever the length of the
  pattern; \<open>substr\<close> throws when that is past the end.
\<close>

function (sequential) split_loop :: "string \<Rightarrow> string \<Rightarrow> string list \<Rightarrow> string list res" where
  "split_loop pattern strs resStr =
     (case find_str pattern strs of
        None \<Rightarrow> Inr resStr
      | Some pos \<Rightarrow>
          if length strs < pos + 1 then Inl out_of_range
          else split_loop pattern (drop (pos + 1) strs) (resStr @ [substr 0 pos strs]))"
  by pat_completeness auto
termination
  by (relation "measure (\<lambda>(_, strs, _). length strs)") auto

declare split_loop.simps [simp del]

definition split :: "string \<Rightarrow> string \<Rightarrow> string list res" where
  "split str pattern = (if str = [] then Inr [] else split_loop pattern (str @ pattern) [])"

type_synonym sectionKv = "(string \<times> string) list"

text \<open>\<open>std::map::insert\<close>, which keeps an existing entry, and \<open>erase\<close>.\<close>

fun kv_insert :: "string \<Rightarrow> string \<Rightarrow> sectionKv \<Rightarrow> sectionKv" where
  "kv_insert k v [] = [(k, v)]"
| "kv_insert k v ((k', v') # m) =
     (if k < k' then (k, v) # (k', v') # m
      else if k = k' then (k', v') # m
      else (k', v') # kv_insert k v m)"

definition kv_erase :: "string \<Rightarrow> sectionKv \<Rightarrow> sectionKv" where
  "kv_erase k m = filter (\<lambda>(k', _). k' \<noteq> k) m"

subsection \<open>Reading\<close>

abbreviation newline :: char where
  "newline \<equiv> CHR 0x0A"

text \<open>
  The pieces between occurrences of a character. The loop over \<open>std::getline\<close> sees the pieces
  between the newlines, the last of them also when it is empty.
\<close>

fun chop :: "char \<Rightarrow> string \<Rightarrow> string list" where
  "chop c [] = [[]]"
| "chop c (x # xs) =
     (if x = c then [] # chop c xs
      else case chop c xs of [] \<Rightarrow> [[x]] | p # ps \<Rightarrow> (x # p) # ps)"

text \<open>One line, with the current section and the entries read so far.\<close>

definition read_line :: "string \<Rightarrow> string \<times> sectionKv \<Rightarrow> string \<times> sectionKv" where
  "read_line raw st =
     (let (section, local) = st; line = trim raw in
      if line = [] then st
      else if hd line = CHR '';'' \<or> hd line = CHR ''#'' then st
      else if hd line = CHR ''[''
      then (case find_str '']'' line of
              None \<Rightarrow> st
            | Some e \<Rightarrow> (trim (substr 1 (e - 1) line), local))
      else if section = [] then st
      else (case find_str ''='' line of
              None \<Rightarrow> st
            | Some eqpos \<Rightarrow>
                if eqpos = 0 then st
                else let key = trim (substr 0 eqpos line); data = trim (drop (eqpos + 1) line)
                     in (section, kv_insert (section @ ''.'' @ key) data local)))"

definition read_ini :: "string \<Rightarrow> sectionKv \<Rightarrow> sectionKv" where
  "read_ini stream local = snd (fold read_line (chop newline stream) ([], local))"

subsection \<open>Writing\<close>

definition join_key :: "string list \<Rightarrow> string" where
  "join_key ps = foldl (\<lambda>key p. (if key \<noteq> [] then key @ ''.'' else key) @ p) [] ps"

text \<open>The sections printed so far are \<open>print\<close>; an entry without section or key ends the loop.\<close>

fun write_entries :: "string list \<Rightarrow> sectionKv \<Rightarrow> string res" where
  "write_entries print [] = Inr []"
| "write_entries print ((k, v) # m) =
     bindE (split k ''.'') (\<lambda>res.
       if length res < 2 then Inr []
       else let header = (if res ! 0 \<in> set print then []
                          else if print = [] then ''['' @ res ! 0 @ '']'' @ [newline]
                          else [newline] @ ''['' @ res ! 0 @ '']'' @ [newline]);
                print' = (if res ! 0 \<in> set print then print else res ! 0 # print)
            in bindE (write_entries print' m) (\<lambda>rest.
                 Inr (header @ join_key (tl res) @ ''='' @ v @ [newline] @ rest)))"

definition write_ini :: "sectionKv \<Rightarrow> string res" where
  "write_ini local = write_entries [] local"

subsection \<open>Values\<close>

datatype cxx_value = StringV string | IntV int | DoubleV double | OtherV

fun isSupported :: "cxx_value \<Rightarrow> bool" where
  "isSupported (StringV s) = True"
| "isSupported (IntV i) = True"
| "isSupported (DoubleV x) = True"
| "isSupported OtherV = False"

fun value_of :: "string \<Rightarrow> cxx_value \<Rightarrow> cxx_value res" where
  "value_of s (StringV d) = Inr (StringV (if s = [] then d else s))"
| "value_of s (IntV d) = (if s = [] then Inr (IntV d) else bindE (stoi s) (\<lambda>i. Inr (IntV i)))"
| "value_of s (DoubleV d) = (if s = [] then Inr (DoubleV d) else bindE (stod s) (\<lambda>x. Inr (DoubleV x)))"
| "value_of s OtherV = Inr OtherV"

text \<open>\<open>ss << v; ss >> tmpstr\<close>: the first word of the printed value.\<close>

fun print_value :: "cxx_value \<Rightarrow> string" where
  "print_value (StringV s) = s"
| "print_value (IntV i) = show_int i"
| "print_value (DoubleV x) = print_double x"
| "print_value OtherV = []"

definition first_word :: "string \<Rightarrow> string" where
  "first_word s = takeWhile (\<lambda>c. \<not> isspace c) (dropWhile isspace s)"

subsection \<open>The settings\<close>

text \<open>The class has no members. \<open>memory\<close> says whether the allocation of the instance succeeds.\<close>

definition getInstance :: "bool \<Rightarrow> unit static_instance \<Rightarrow> unit res \<times> unit static_instance" where
  "getInstance memory s =
     (case static_get (if memory then Some () else None) s of
        (None, s') \<Rightarrow> (Inl NullDereference, s')
      | (Some ins, s') \<Rightarrow> (Inr ins, s'))"

record ini_file =
  f_content :: string
  f_readable :: bool
  f_writable :: bool

definition lookup :: "string \<Rightarrow> sectionKv \<Rightarrow> string" where
  "lookup name res = (case map_of res name of None \<Rightarrow> [] | Some s \<Rightarrow> s)"

definition getValue :: "string \<Rightarrow> cxx_value \<Rightarrow> ini_file \<Rightarrow> cxx_value res" where
  "getValue name v f =
     (if \<not> isSupported v then Inl (runtime_error ''Type not supported'')
      else if \<not> f_readable f then Inl (runtime_error ''File open failed'')
      else value_of (lookup name (read_ini (f_content f) [])) v)"

text \<open>
  The variant with a format string. \<open>formatted\<close> is what \<open>vsnprintf\<close> would write into an
  unlimited buffer; the buffer has 1024 bytes and the name ends at the first null byte. The
  default is the uninitialised variable \<open>v\<close>.
\<close>

definition getValue_fmt :: "string \<Rightarrow> cxx_value \<Rightarrow> ini_file \<Rightarrow> cxx_value res" where
  "getValue_fmt formatted v f =
     (if \<not> isSupported v then Inl (runtime_error ''Type not supported'')
      else if \<not> f_readable f then Inl (runtime_error ''File open failed'')
      else let name = takeWhile (\<lambda>c. c \<noteq> CHR 0x00) (take 1023 formatted)
           in value_of (lookup name (read_ini (f_content f) [])) v)"

definition setValue :: "string \<Rightarrow> cxx_value \<Rightarrow> ini_file \<Rightarrow> ini_file res" where
  "setValue name v f =
     (if \<not> isSupported v then Inl (runtime_error ''Type not supported'')
      else if \<not> f_readable f then Inl (runtime_error ''File open failed'')
      else let res = read_ini (f_content f) [];
               tmpstr = first_word (print_value v);
               res1 = (if map_of res name \<noteq> None then kv_erase name res else res);
               res2 = kv_insert name tmpstr res1
           in if \<not> f_writable f then Inl (runtime_error ''File open failed'')
              else bindE (write_ini res2) (\<lambda>out. Inr (f\<lparr>f_content := out\<rparr>)))"

definition dump :: "ini_file \<Rightarrow> string res" where
  "dump f =
     (if \<not> f_readable f then Inl (runtime_error ''File open failed'')
      else Inr (concat (map (\<lambda>(k, v). k @ ''='' @ v @ [newline]) (read_ini (f_content f) []))))"

section \<open>Lemmas\<close>

subsection \<open>Trimming, searching and splitting\<close>

definition trimmed :: "string \<Rightarrow> bool" where
  "trimmed s \<longleftrightarrow> s = [] \<or> \<not> isspace (hd s) \<and> \<not> isspace (last s)"

lemma trim_trimmed: "trimmed s \<Longrightarrow> trim s = s"
proof (cases "s = []")
  case False
  assume "trimmed s"
  with False have "dropWhile isspace s = s" "dropWhile isspace (rev s) = rev s"
    by (simp_all add: dropWhile_hd hd_rev trimmed_def)
  then show ?thesis by (simp add: trim_def)
qed (simp add: trim_def)

lemma hd_dropWhile_rev: "t \<noteq> [] \<Longrightarrow> \<not> P (hd t) \<Longrightarrow> dropWhile P (rev t) \<noteq> [] \<and>
    hd (rev (dropWhile P (rev t))) = hd t"
  by (cases t) (auto simp: dropWhile_append)

lemma trimmed_trim: "trimmed (trim s)"
proof (cases "dropWhile isspace s = []")
  case False
  then have "\<not> isspace (hd (dropWhile isspace s))" by (rule hd_dropWhile)
  with False hd_dropWhile_rev [OF False] show ?thesis
    by (auto simp: trimmed_def trim_def Let_def last_rev hd_dropWhile)
qed (simp add: trim_def trimmed_def)

lemma find_char: "find_str [c] s = (if c \<in> set s then Some (length (takeWhile (\<lambda>x. x \<noteq> c) s)) else None)"
  by (induction s) auto

lemma chop_nonempty [simp]: "chop c s \<noteq> []"
  by (cases s) (auto split: list.splits)

lemma chop_split: "c \<notin> set l \<Longrightarrow> chop c (l @ c # s) = l # chop c s"
  by (induction l) auto

lemma chop_free: "c \<notin> set l \<Longrightarrow> chop c l = [l]"
  by (induction l) auto

lemma split_loop_char: "split_loop [c] (s @ [c]) acc = Inr (acc @ chop c s)"
proof (induction "length s" arbitrary: s acc rule: less_induct)
  case less
  have nil: "split_loop [c] [] a = Inr a" for a by (simp add: split_loop.simps)
  show ?case
  proof (cases "c \<in> set s")
    case True
    then obtain l r where s: "s = l @ c # r" "c \<notin> set l" by (metis split_list_first)
    then have "takeWhile (\<lambda>x. x \<noteq> c) (s @ [c]) = l" by (auto simp: takeWhile_append)
    then have "split_loop [c] (s @ [c]) acc = split_loop [c] (r @ [c]) (acc @ [l])"
      by (subst split_loop.simps) (simp add: s(1) find_char substr_def)
    with less [of r] s show ?thesis by (simp add: chop_split)
  next
    case False
    then have "takeWhile (\<lambda>x. x \<noteq> c) (s @ [c]) = s" by (auto simp: takeWhile_append)
    then have "split_loop [c] (s @ [c]) acc = split_loop [c] [] (acc @ [s])"
      by (subst split_loop.simps) (simp add: find_char substr_def)
    with False nil show ?thesis by (simp add: chop_free)
  qed
qed

lemma split_char: "s \<noteq> [] \<Longrightarrow> split s [c] = Inr (chop c s)"
  by (simp add: split_def split_loop_char)

lemma join_from: "key \<noteq> [] \<Longrightarrow>
    foldl (\<lambda>key p. (if key \<noteq> [] then key @ ''.'' else key) @ p) key ps = key @ concat (map (\<lambda>p. ''.'' @ p) ps)"
  by (induction ps arbitrary: key) auto

lemma concat_chop: "concat (map (\<lambda>p. c # p) (chop c s)) = c # s"
proof (induction s)
  case (Cons x xs)
  then show ?case by (cases "chop c xs") auto
qed simp

lemma join_key_chop: "r \<noteq> [] \<Longrightarrow> hd r \<noteq> CHR ''.'' \<Longrightarrow> join_key (chop CHR ''.'' r) = r"
proof -
  assume "r \<noteq> []" and "hd r \<noteq> CHR ''.''"
  then obtain p ps where ps: "chop CHR ''.'' r = p # ps" "p \<noteq> []"
    by (cases r; cases "chop CHR ''.'' (tl r)") auto
  have "CHR ''.'' # r = CHR ''.'' # p @ concat (map (\<lambda>p. CHR ''.'' # p) ps)"
    using concat_chop [of "CHR ''.''" r] by (simp add: ps(1))
  with ps show ?thesis by (simp add: join_key_def join_from)
qed

subsection \<open>Names of settings\<close>

definition section_of :: "string \<Rightarrow> string" where
  "section_of k = takeWhile (\<lambda>x. x \<noteq> CHR ''.'') k"

definition name_of :: "string \<Rightarrow> string" where
  "name_of k = tl (dropWhile (\<lambda>x. x \<noteq> CHR ''.'') k)"

lemma name_parts: "CHR ''.'' \<in> set k \<Longrightarrow> section_of k @ CHR ''.'' # name_of k = k"
proof (induction k)
  case (Cons x xs)
  then show ?case by (auto simp: section_of_def name_of_def)
qed simp

lemma dot_notin_section [simp]: "CHR ''.'' \<notin> set (section_of k)"
  by (auto simp: section_of_def dest: set_takeWhileD)

lemma chop_key:
  assumes "CHR ''.'' \<in> set k"
  shows "chop CHR ''.'' k = section_of k # chop CHR ''.'' (name_of k)"
  using chop_split [of "CHR ''.''" "section_of k" "name_of k"] name_parts [OF assms] by simp

text \<open>The entries that survive being written and read back.\<close>

definition good_section :: "string \<Rightarrow> bool" where
  "good_section s \<longleftrightarrow> s \<noteq> [] \<and> trimmed s \<and> CHR '']'' \<notin> set s \<and> newline \<notin> set s"

definition good_name :: "string \<Rightarrow> bool" where
  "good_name r \<longleftrightarrow> r \<noteq> [] \<and> hd r \<notin> set ''.;#['' \<and> trimmed r \<and> CHR ''='' \<notin> set r \<and> newline \<notin> set r"

definition good_value :: "string \<Rightarrow> bool" where
  "good_value v \<longleftrightarrow> trimmed v \<and> newline \<notin> set v"

definition good_key :: "string \<Rightarrow> bool" where
  "good_key k \<longleftrightarrow> CHR ''.'' \<in> set k \<and> good_section (section_of k) \<and> good_name (name_of k)"

definition good_entries :: "sectionKv \<Rightarrow> bool" where
  "good_entries m \<longleftrightarrow> (\<forall>(k, v)\<in>set m. good_key k \<and> good_value v)"

lemma write_good:
  assumes "good_key k"
  shows "write_entries print ((k, v) # m) =
    bindE (write_entries (if section_of k \<in> set print then print else section_of k # print) m) (\<lambda>rest.
      Inr ((if section_of k \<in> set print then []
            else (if print = [] then [] else [newline]) @ ''['' @ section_of k @ '']'' @ [newline]) @
           name_of k @ ''='' @ v @ [newline] @ rest))"
proof -
  have k: "CHR ''.'' \<in> set k" "name_of k \<noteq> []" "hd (name_of k) \<noteq> CHR ''.''"
    using assms by (auto simp: good_key_def good_name_def)
  then have "k \<noteq> []" by auto
  then have split: "split k ''.'' = Inr (section_of k # chop CHR ''.'' (name_of k))"
    using k(1) by (simp add: split_char chop_key)
  have "0 < length (chop CHR ''.'' (name_of k))" by simp
  then show ?thesis
    using join_key_chop [OF k(2,3)] by (simp add: split Let_def)
qed

subsection \<open>Reading what was written\<close>

lemma prefix_between: "(p @ a :: string) \<le> b \<Longrightarrow> b \<le> p @ c \<Longrightarrow> \<exists>d. b = p @ d"
proof (induction p arbitrary: b)
  case (Cons x p)
  then show ?case by (cases b) auto
qed simp

lemma section_of_append: "CHR ''.'' \<notin> set s \<Longrightarrow> section_of (s @ CHR ''.'' # r) = s"
  by (induction s) (auto simp: section_of_def)

text \<open>The keys of a section are adjacent in the order of the map.\<close>

lemma sections_adjacent:
  assumes "a \<le> b" and "b \<le> c" and "CHR ''.'' \<in> set a" and "CHR ''.'' \<in> set c"
    and "section_of a = section_of c"
  shows "section_of b = section_of c"
proof -
  have "(section_of c @ ''.'') @ name_of a \<le> b" "b \<le> (section_of c @ ''.'') @ name_of c"
    using assms name_parts [of a] name_parts [of c] by simp_all
  then obtain d where "b = (section_of c @ ''.'') @ d" using prefix_between by blast
  then show ?thesis by (simp add: section_of_append)
qed

lemma kv_insert_last: "\<forall>k'\<in>fst ` set m. k' < k \<Longrightarrow> kv_insert k v m = m @ [(k, v)]"
  by (induction m) auto

lemma not_space [simp]: "\<not> isspace CHR ''[''" "\<not> isspace CHR '']''" "\<not> isspace CHR ''=''" "isspace newline"
  by (simp_all add: isspace_def)

lemma takeWhile_free: "c \<notin> set l \<Longrightarrow> takeWhile (\<lambda>x. x \<noteq> c) (l @ c # r) = l"
  by (induction l) auto

lemma read_header:
  assumes "good_section s"
  shows "read_line (''['' @ s @ '']'') (cur, local) = (s, local)"
proof -
  have "trimmed (''['' @ s @ '']'')" by (simp add: trimmed_def)
  moreover have "takeWhile (\<lambda>x. x \<noteq> CHR '']'') (s @ '']'') = s"
    using assms by (intro takeWhile_free [of _ _ "[]", simplified]) (simp add: good_section_def)
  ultimately show ?thesis
    using assms trim_trimmed [of "''['' @ s @ '']''"] trim_trimmed [of s]
    by (simp add: read_line_def Let_def find_char substr_def good_section_def)
qed

lemma read_entry:
  assumes "good_name r" and "good_value v" and "s \<noteq> []"
  shows "read_line (r @ ''='' @ v) (s, local) = (s, kv_insert (s @ ''.'' @ r) v local)"
proof -
  have "trimmed (r @ ''='' @ v)"
    using assms by (cases "v = []") (auto simp: trimmed_def good_name_def good_value_def)
  then have "trim (r @ ''='' @ v) = r @ ''='' @ v" by (rule trim_trimmed)
  moreover have "takeWhile (\<lambda>x. x \<noteq> CHR ''='') (r @ ''='' @ v) = r"
    using assms takeWhile_free [of "CHR ''=''" r v] by (simp add: good_name_def)
  moreover have "trim r = r" "trim v = v"
    using assms by (auto simp: good_name_def good_value_def intro: trim_trimmed)
  ultimately show ?thesis
    using assms by (simp add: read_line_def Let_def find_char substr_def good_name_def)
qed

lemma read_blank: "read_line [] st = st"
  by (simp add: read_line_def trim_def Let_def split: prod.splits)

lemma read_lines:
  assumes "newline \<notin> set l"
  shows "fold read_line (chop newline (l @ newline # s)) st = fold read_line (chop newline s) (read_line l st)"
  using assms by (simp add: chop_split)

lemma read_written_entry:
  assumes k: "good_key k" and v: "good_value v" and new: "\<forall>k'\<in>fst ` set m. k' < k"
    and cur: "section_of k \<in> set print \<Longrightarrow> cur = section_of k"
  shows "fold read_line (chop newline ((if section_of k \<in> set print then []
            else (if print = [] then [] else [newline]) @ ''['' @ section_of k @ '']'' @ [newline]) @
           name_of k @ ''='' @ v @ [newline] @ rest)) (cur, m) =
         fold read_line (chop newline rest) (section_of k, m @ [(k, v)])"
proof -
  let ?s = "section_of k" and ?r = "name_of k"
  have good: "good_section ?s" "good_name ?r" "CHR ''.'' \<in> set k" "?s \<noteq> []"
    using k by (auto simp: good_key_def good_section_def)
  have line: "newline \<notin> set (?r @ ''='' @ v)" "newline \<notin> set (''['' @ ?s @ '']'')"
    using good v by (auto simp: good_name_def good_value_def good_section_def)
  have key: "?s @ ''.'' @ ?r = k" using name_parts [OF good(3)] by simp
  have entry: "fold read_line (chop newline (?r @ ''='' @ v @ [newline] @ rest)) (?s, m) =
      fold read_line (chop newline rest) (?s, m @ [(k, v)])"
    using read_lines [OF line(1), of rest "(?s, m)"] read_entry [OF good(2) v good(4), of m]
      kv_insert_last [OF new, of v] key by simp
  have header: "fold read_line (chop newline (''['' @ ?s @ '']'' @ newline # out)) (cur, m) =
      fold read_line (chop newline out) (?s, m)" for out
    using read_lines [OF line(2), of out "(cur, m)"] read_header [OF good(1), of cur m] by simp
  have blank: "fold read_line (chop newline (newline # out)) st = fold read_line (chop newline out) st" for out st
    by (simp add: read_blank)
  show ?thesis
    using entry header cur by (auto simp: blank read_blank)
qed

lemma read_written:
  assumes "sorted_wrt (<) (map fst (ds @ m))" and "good_entries (ds @ m)"
    and "set print = section_of ` fst ` set ds"
    and "cur = (if ds = [] then [] else section_of (fst (last ds)))"
  shows "\<exists>out. write_entries print m = Inr out \<and>
     snd (fold read_line (chop newline out) (cur, ds)) = ds @ m"
  using assms
proof (induction m arbitrary: ds print cur)
  case Nil
  then show ?case by (simp add: read_blank)
next
  case (Cons kv m)
  obtain k v where kv: "kv = (k, v)" by (cases kv)
  have k: "good_key k" "good_value v" "CHR ''.'' \<in> set k"
    using Cons.prems(2) by (auto simp: good_entries_def good_key_def kv)
  have new: "\<forall>k'\<in>fst ` set ds. k' < k"
    using Cons.prems(1) by (auto simp: sorted_wrt_append kv)
  have cur: "cur = section_of k" if in_print: "section_of k \<in> set print"
  proof -
    from in_print Cons.prems(3) obtain d where d: "d \<in> set ds" "section_of (fst d) = section_of k" by auto
    then have ne: "ds \<noteq> []" by auto
    have "sorted (map fst ds)"
      using Cons.prems(1) by (simp add: sorted_wrt_append strict_sorted_iff)
    then have "fst d \<le> fst (last ds)"
      using d(1) ne by (cases ds rule: rev_cases) (auto simp: sorted_append)
    moreover have "fst (last ds) < k" using new ne by simp
    moreover have "CHR ''.'' \<in> set (fst d)"
      using d(1) bspec [OF Cons.prems(2) [unfolded good_entries_def], of d] by (auto simp: good_key_def)
    ultimately have "section_of (fst (last ds)) = section_of k"
      using sections_adjacent [of "fst d" "fst (last ds)" k] d(2) k(3) by simp
    with ne Cons.prems(4) show ?thesis by simp
  qed
  let ?print = "if section_of k \<in> set print then print else section_of k # print"
  have "\<exists>out. write_entries ?print m = Inr out \<and>
      snd (fold read_line (chop newline out) (section_of k, ds @ [(k, v)])) = (ds @ [(k, v)]) @ m"
    using Cons.prems(1-3) by (intro Cons.IH) (auto simp: kv)
  then obtain out where out: "write_entries ?print m = Inr out"
      "snd (fold read_line (chop newline out) (section_of k, ds @ [(k, v)])) = (ds @ [(k, v)]) @ m" by blast
  let ?head = "if section_of k \<in> set print then []
            else (if print = [] then [] else [newline]) @ ''['' @ section_of k @ '']'' @ [newline]"
  have "write_entries print (kv # m) = Inr (?head @ name_of k @ ''='' @ v @ [newline] @ out)"
    unfolding kv write_good [OF k(1)] out(1) by (rule bindE_Inr)
  moreover have "fold read_line (chop newline (?head @ name_of k @ ''='' @ v @ [newline] @ out)) (cur, ds) =
      fold read_line (chop newline out) (section_of k, ds @ [(k, v)])"
    by (rule read_written_entry [OF k(1,2) new]) (rule cur)
  then have "snd (fold read_line (chop newline (?head @ name_of k @ ''='' @ v @ [newline] @ out)) (cur, ds)) = ds @ kv # m"
    by (simp only: out(2)) (simp add: kv)
  ultimately show ?case by blast
qed

text \<open>A value set by \<open>setValue\<close>, and the entries it leaves alone.\<close>

lemma keys_kv_insert: "fst ` set (kv_insert k v m) = insert k (fst ` set m)"
  by (induction k v m rule: kv_insert.induct) auto

lemma kv_insert_sorted: "sorted_wrt (<) (map fst m) \<Longrightarrow> sorted_wrt (<) (map fst (kv_insert k v m))"
proof (induction k v m rule: kv_insert.induct)
  case (2 k v k' v' m)
  consider "k < k'" | "k = k'" | "k' < k" by fastforce
  then show ?case
  proof cases
    case 3
    have "\<forall>y\<in>fst ` set (kv_insert k v m). k' < y" using 2(2) 3 by (simp add: keys_kv_insert)
    with 3 2 show ?thesis by auto
  qed (use 2(2) in auto)
qed simp

lemma map_of_kv_insert: "map_of m k = None \<Longrightarrow> map_of (kv_insert k v m) = (map_of m)(k \<mapsto> v)"
  by (induction m) (auto split: if_splits)

lemma set_kv_insert: "set (kv_insert k v m) \<subseteq> insert (k, v) (set m)"
  by (induction m) (auto split: if_splits)

lemma kv_erase_sorted: "sorted_wrt (<) (map fst m) \<Longrightarrow> sorted_wrt (<) (map fst (kv_erase k m))"
  by (induction m) (auto simp: kv_erase_def)

lemma map_of_kv_erase: "map_of (kv_erase k m) = (map_of m)(k := None)"
  by (induction m) (auto simp: kv_erase_def)

lemma read_line_sorted: "sorted_wrt (<) (map fst (snd st)) \<Longrightarrow> sorted_wrt (<) (map fst (snd (read_line l st)))"
  by (auto simp: read_line_def Let_def kv_insert_sorted split: prod.splits option.splits)

lemma read_ini_sorted: "sorted_wrt (<) (map fst (read_ini s []))"
proof -
  have "sorted_wrt (<) (map fst (snd st)) \<Longrightarrow> sorted_wrt (<) (map fst (snd (fold read_line ls st)))" for ls st
    by (induction ls arbitrary: st) (simp_all add: read_line_sorted)
  then show ?thesis by (simp add: read_ini_def)
qed

lemma first_word_no_space: "c \<in> set (first_word s) \<Longrightarrow> \<not> isspace c"
  by (auto simp: first_word_def dest: set_takeWhileD)

lemma good_value_first_word: "good_value (first_word s)"
  using first_word_no_space [of _ s] first_word_no_space [of newline s]
  by (auto simp: good_value_def trimmed_def)

lemma first_word_free: "\<forall>c\<in>set s. \<not> isspace c \<Longrightarrow> first_word s = s"
  by (cases s) (auto simp: first_word_def)

lemma first_word_show_int: "first_word (show_int i) = show_int i"
proof (rule first_word_free)
  have "\<not> isspace c" if "c \<in> set (show_nat n)" for c n
    using subsetD [OF set_show_nat that] digit_char_not(3) by auto
  then show "\<forall>c\<in>set (show_int i). \<not> isspace c"
    by (auto simp: show_int_def isspace_def)
qed

text \<open>The map that \<open>setValue\<close> writes.\<close>

abbreviation with_value :: "string \<Rightarrow> string \<Rightarrow> sectionKv \<Rightarrow> sectionKv" where
  "with_value name tok res \<equiv> kv_insert name tok (if map_of res name \<noteq> None then kv_erase name res else res)"

lemma with_value:
  assumes "sorted_wrt (<) (map fst res)"
  shows "sorted_wrt (<) (map fst (with_value name tok res))"
    and "map_of (with_value name tok res) = (map_of res)(name \<mapsto> tok)"
    and "set (with_value name tok res) \<subseteq> insert (name, tok) (set res)"
proof -
  show "sorted_wrt (<) (map fst (with_value name tok res))"
    using assms by (simp add: kv_insert_sorted kv_erase_sorted)
  show "map_of (with_value name tok res) = (map_of res)(name \<mapsto> tok)"
    by (subst map_of_kv_insert) (auto simp: map_of_kv_erase)
  have "set (kv_erase name res) \<subseteq> set res" by (auto simp: kv_erase_def)
  then show "set (with_value name tok res) \<subseteq> insert (name, tok) (set res)"
    using set_kv_insert [of name tok "kv_erase name res"] set_kv_insert [of name tok res] by auto
qed

lemma good_entries_add:
  assumes "set m \<subseteq> insert (k, v) (set m')" and "good_entries m'" and "good_key k" and "good_value v"
  shows "good_entries m"
proof -
  have "good_entries ((k, v) # m')" using assms(2-4) by (simp add: good_entries_def)
  with assms(1) show ?thesis unfolding good_entries_def by (intro ballI) (auto dest: subsetD)
qed

lemma setValue_eq:
  "isSupported v \<Longrightarrow> f_readable f \<Longrightarrow> f_writable f \<Longrightarrow>
   setValue name v f = bindE (write_ini (with_value name (first_word (print_value v)) (read_ini (f_content f) [])))
     (\<lambda>out. Inr (f\<lparr>f_content := out\<rparr>))"
  by (simp add: setValue_def Let_def)

subsection \<open>Names without a section\<close>

lemma write_stops:
  assumes "CHR ''.'' \<notin> set k"
  shows "write_entries print (m1 @ (k, v) # m2) = write_entries print m1"
proof (induction m1 arbitrary: print)
  case Nil
  have "\<exists>ps. split k ''.'' = Inr ps \<and> length ps < 2"
    using assms by (cases "k = []") (simp_all add: split_def split_loop_char chop_free)
  then show ?case by auto
next
  case (Cons kv m1)
  then show ?case by (cases kv) (simp add: Let_def cong: if_cong)
qed

lemma with_value_parts:
  assumes "sorted_wrt (<) (map fst res)"
  shows "\<exists>m2. with_value name tok res = filter (\<lambda>(k, _). k < name) res @ (name, tok) # m2"
proof -
  have ins: "\<exists>m2. kv_insert name tok m = filter (\<lambda>(k, _). k < name) m @ (name, tok) # m2"
    if "sorted_wrt (<) (map fst m)" "name \<notin> fst ` set m" for m
    using that
  proof (induction m)
    case (Cons kv m)
    obtain k v where kv: "kv = (k, v)" by (cases kv)
    show ?case
    proof (cases "name < k")
      case True
      have "filter (\<lambda>(k, _). k < name) (kv # m) = []"
        using True Cons.prems(1) by (auto simp: kv filter_empty_conv)
      with True show ?thesis by (simp add: kv)
    next
      case False
      then have "k < name" using Cons.prems(2) by (auto simp: kv)
      with False Cons show ?thesis by (auto simp: kv)
    qed
  qed simp
  have er: "filter (\<lambda>(k, _). k < name) (kv_erase name res) = filter (\<lambda>(k, _). k < name) res"
    by (auto simp: kv_erase_def intro: filter_cong)
  show ?thesis
  proof (cases "map_of res name")
    case None
    with ins [OF assms] show ?thesis by (auto simp: map_of_eq_None_iff)
  next
    case (Some v)
    have "name \<notin> fst ` set (kv_erase name res)" by (auto simp: kv_erase_def)
    from ins [OF kv_erase_sorted [OF assms] this] er Some show ?thesis by simp
  qed
qed


text \<open>What a set value leaves in the file.\<close>

lemma set_then_get:
  assumes "f_readable f" and "f_writable f" and "good_entries (read_ini (f_content f) [])"
    and "good_key name" and "isSupported v" and "tok = first_word (print_value v)"
  shows "\<exists>f'. setValue name v f = Inr f' \<and>
      (\<forall>other. lookup other (read_ini (f_content f') []) =
         (if other = name then tok else lookup other (read_ini (f_content f) []))) \<and>
      (\<forall>w. isSupported w \<longrightarrow> getValue name w f' = value_of tok w) \<and>
      f_readable f' \<and> f_writable f' \<and> good_entries (read_ini (f_content f') [])"
proof -
  let ?res = "read_ini (f_content f) []"
  let ?m = "with_value name tok ?res"
  note res = with_value [OF read_ini_sorted [of "f_content f"], of name tok]
  have "good_value tok" using assms(6) good_value_first_word by simp
  with good_entries_add [OF res(3) assms(3,4)] have good: "good_entries ?m" .
  then obtain out where out: "write_ini ?m = Inr out" "read_ini out [] = ?m"
    using read_written [of "[]" ?m "[]" "[]"] res(1) by (auto simp: write_ini_def read_ini_def)
  let ?f = "f\<lparr>f_content := out\<rparr>"
  have set: "setValue name v f = Inr ?f"
    using setValue_eq [OF assms(5,1,2), of name] out(1) assms(6) by simp
  have look: "lookup other ?m = (if other = name then tok else lookup other ?res)" for other
    by (simp only: lookup_def res(2)) simp
  have "getValue name w ?f = value_of tok w" if "isSupported w" for w
    using that assms(1) look [of name] by (simp add: getValue_def out(2))
  with set look out(2) good assms(1,2) show ?thesis by (intro exI [of _ ?f]) simp
qed

lemma first_word_double: "first_word (print_double x) = print_double x"
  by (rule first_word_free) (use print_double_no_space in blast)

fun double_near :: "double \<Rightarrow> double \<Rightarrow> bool" where
  "double_near (Finite s v) (Finite t m) \<longleftrightarrow> s = t \<and> \<bar>v - m\<bar> \<le> m / 100000"
| "double_near x y \<longleftrightarrow> x = y"

fun double_wf :: "double \<Rightarrow> bool" where
  "double_wf (Finite s m) \<longleftrightarrow> 0 \<le> m"
| "double_wf _ \<longleftrightarrow> True"

lemma double_back:
  assumes "double_wf x"
  shows "stod (print_double x) = Inr d \<Longrightarrow> print_double d = print_double x \<and> double_near d x"
    and "(\<exists>d. stod (print_double x) = Inr d) \<or> stod (print_double x) = Inl out_of_range"
proof -
  have "(stod (print_double x) = Inr d \<longrightarrow> print_double d = print_double x \<and> double_near d x) \<and>
      ((\<exists>d. stod (print_double x) = Inr d) \<or> stod (print_double x) = Inl out_of_range)"
  proof (cases x)
    case (Finite s m)
    show ?thesis
    proof (cases "m = 0")
      case True
      then show ?thesis unfolding Finite True print_double_zero by auto
    next
      case False
      then have "0 < m" using assms by (simp add: Finite)
      with double_text [of m s d] stod_print_double [of m s] show ?thesis
        unfolding Finite by (auto simp: to_double_def)
    qed
  qed (simp_all only: stod_special, auto)
  then show "stod (print_double x) = Inr d \<Longrightarrow> print_double d = print_double x \<and> double_near d x"
      "(\<exists>d. stod (print_double x) = Inr d) \<or> stod (print_double x) = Inl out_of_range" by blast+
qed

section \<open>Properties\<close>

text \<open>(C23) Writing the settings and reading the file back gives the same settings, for every map
  whose names have a section and a key that the format can hold and whose values have no line
  break and no white space at either end.\<close>

theorem ini_round_trip:
  assumes "sorted_wrt (<) (map fst m)" and "good_entries m"
  shows "\<exists>out. write_ini m = Inr out \<and> read_ini out [] = m"
  using read_written [of "[]" m "[]" "[]"] assms by (simp add: write_ini_def read_ini_def)

text \<open>(C16) What \<open>setValue\<close> stores is found by \<open>getValue\<close>, and every other setting is unchanged,
  when the file holds well-formed entries. What is stored of a string is its first word only:
  the value goes through a stream that reads up to white space. An integer comes back exactly.\<close>

theorem setValue_getValue:
  assumes "f_readable f" and "f_writable f" and "good_entries (read_ini (f_content f) [])"
    and "good_key name" and "isSupported v" and "tok = first_word (print_value v)"
  shows "\<exists>f'. setValue name v f = Inr f' \<and>
      (\<forall>other. lookup other (read_ini (f_content f') []) =
         (if other = name then tok else lookup other (read_ini (f_content f) []))) \<and>
      getValue name (StringV d) f' = Inr (StringV (if tok = [] then d else tok)) \<and>
      (\<forall>i. v = IntV i \<and> int32_ok i \<longrightarrow> getValue name (IntV j) f' = Inr (IntV i))"
proof -
  obtain f' where f': "setValue name v f = Inr f'" "\<And>other. lookup other (read_ini (f_content f') []) =
         (if other = name then tok else lookup other (read_ini (f_content f) []))"
      "\<And>w. isSupported w \<Longrightarrow> getValue name w f' = value_of tok w"
    using set_then_get [OF assms] by blast
  have "tok = show_int i \<and> tok \<noteq> [] \<and> stoi tok = Inr i" if "v = IntV i" "int32_ok i" for i
    using that assms(6) stoi_show_int [of i] first_word_show_int [of i]
    by (auto simp: show_int_def)
  with f' show ?thesis by (intro exI [of _ f']) auto
qed


text \<open>A name without a dot ends the writing of the file. Setting such a name loses not only
  that entry but every setting whose name comes after it in the alphabetical order; with the
  empty name the whole file is erased.\<close>

theorem setValue_without_section:
  assumes "f_readable f" and "f_writable f" and "good_entries (read_ini (f_content f) [])"
    and "CHR ''.'' \<notin> set name" and "isSupported v"
  shows "\<exists>f'. setValue name v f = Inr f' \<and>
      read_ini (f_content f') [] = filter (\<lambda>(k, _). k < name) (read_ini (f_content f) []) \<and>
      (name = [] \<longrightarrow> f_content f' = [])"
proof -
  let ?res = "read_ini (f_content f) []" and ?tok = "first_word (print_value v)"
  let ?kept = "filter (\<lambda>(k, _). k < name) ?res"
  obtain m2 where m2: "with_value name ?tok ?res = ?kept @ (name, ?tok) # m2"
    using with_value_parts [OF read_ini_sorted] by blast
  have "sorted_wrt (<) (map fst ?kept)"
    using read_ini_sorted [of "f_content f"] by (simp add: sorted_wrt_map sorted_wrt_filter)
  moreover have "good_entries ?kept" using assms(3) by (auto simp: good_entries_def)
  ultimately obtain out where out: "write_ini ?kept = Inr out" "read_ini out [] = ?kept"
    using read_written [of "[]" ?kept "[]" "[]"] by (auto simp: write_ini_def read_ini_def)
  have "write_ini (with_value name ?tok ?res) = Inr out"
    using out(1) write_stops [OF assms(4)] by (simp only: m2 write_ini_def)
  then have "setValue name v f = Inr (f\<lparr>f_content := out\<rparr>)"
    by (simp only: setValue_eq [OF assms(5,1,2)] bindE_Inr)
  moreover have "out = []" if "name = []"
    using that out(1) by (simp add: write_ini_def)
  ultimately show ?thesis using out(2) by (intro exI [of _ "f\<lparr>f_content := out\<rparr>"]) simp
qed

text \<open>Splitting a non-empty string at a one-character pattern returns its pieces: none
  contains the character, and joined by it they give the string back.\<close>

theorem split_pieces:
  assumes "s \<noteq> []"
  shows "\<exists>ps. split s [c] = Inr ps \<and> (\<forall>p\<in>set ps. c \<notin> set p) \<and> concat (map (\<lambda>p. c # p) ps) = c # s"
proof -
  have "c \<notin> set p" if "p \<in> set (chop c s)" for p
    using that
  proof (induction s arbitrary: p)
    case (Cons x xs)
    then show ?case by (cases "chop c xs") (auto split: if_splits)
  qed simp
  with assms show ?thesis by (simp add: split_char concat_chop)
qed

subsection \<open>Witnesses\<close>

definition two_settings :: sectionKv where
  "two_settings = [(''main.a.b'', ''x y''), (''net.mtu'', ''1500'')]"

definition two_settings_file :: ini_file where
  "two_settings_file =
     \<lparr>f_content = ''[main]'' @ [newline] @ ''a.b=x y'' @ [newline, newline] @ ''[net]'' @ [newline] @ ''mtu=1500'' @ [newline],
      f_readable = True, f_writable = True\<rparr>"

lemma two_settings_good: "good_entries two_settings" "sorted_wrt (<) (map fst two_settings)"
  by (simp_all add: two_settings_def good_entries_def good_key_def good_section_def good_name_def good_value_def
      section_of_def name_of_def trimmed_def isspace_def less_char_def)

lemma two_settings_read: "read_ini (f_content two_settings_file) [] = two_settings"
  by (simp add: two_settings_def two_settings_file_def read_ini_def read_line_def trim_def isspace_def
      substr_def Let_def less_char_def)

theorem ini_round_trip_witness:
  "\<exists>out. write_ini two_settings = Inr out \<and> read_ini out [] = two_settings"
  by (rule ini_round_trip [OF two_settings_good(2,1)])

theorem setValue_getValue_witness:
  "\<exists>f'. setValue ''main.c'' (StringV ''two words'') two_settings_file = Inr f' \<and>
      getValue ''main.c'' (StringV []) f' = Inr (StringV ''two'') \<and>
      lookup ''net.mtu'' (read_ini (f_content f') []) = ''1500''"
proof -
  have "good_key ''main.c''"
    by (simp add: good_key_def good_section_def good_name_def section_of_def name_of_def trimmed_def isspace_def)
  moreover have "first_word (print_value (StringV ''two words'')) = ''two''"
    by (simp add: first_word_def isspace_def)
  moreover have "f_readable two_settings_file" "f_writable two_settings_file"
    by (simp_all add: two_settings_file_def)
  moreover have "lookup ''net.mtu'' two_settings = ''1500''" by (simp add: two_settings_def lookup_def)
  ultimately show ?thesis
    using setValue_getValue [of two_settings_file "''main.c''" "StringV ''two words''" "''two''" "[]" 0]
      two_settings_good(1) two_settings_read by auto
qed


theorem setValue_without_section_witness:
  "\<exists>f'. setValue ''n'' (IntV 1) two_settings_file = Inr f' \<and>
      read_ini (f_content f') [] = [(''main.a.b'', ''x y'')]"
proof -
  have "filter (\<lambda>(k, _). k < ''n'') two_settings = [(''main.a.b'', ''x y'')]"
    by (simp add: two_settings_def less_char_def)
  then show ?thesis
    using setValue_without_section [of two_settings_file "''n''" "IntV 1"] two_settings_good(1) two_settings_read
    by (auto simp: two_settings_file_def)
qed

theorem split_pieces_witness:
  "\<exists>ps. split ''a.b'' ''.'' = Inr ps \<and> concat (map (\<lambda>p. CHR ''.'' # p) ps) = ''.a.b''"
  using split_pieces [of "''a.b''" "CHR ''.''"] by auto

end
