(* ===== verification/Collector.thy ===== *)
theory Collector
  imports Node Timer Settings
begin

text \<open>
  The collector node, \<open>src/src/util/node_collector.h\<close> and \<open>node_collector.cc\<close>: it gathers packets
  per next hop in blocks, and passes a block on when it has enough bytes, when its timer expires, or
  when a packet must be sent uncoded.

  The classes it is built on (\<open>BatsBuffer\<close>, \<open>BatsMsg\<close>, \<open>NetMsg\<close>, \<open>RouteTable\<close>, \<open>FlowRecoder\<close>,
  \<open>TimoutBuffer\<close>) come from headers that are not in the repository. What the collector calls of
  them is the record \<open>bats_library\<close>, an argument of every operation; \<open>bats_ok\<close> states what the
  collector relies on. Messages are objects of \<open>BaseMsg\<close> (\<open>include/msg.h\<close>) with further members of
  type \<open>'e\<close>: \<open>size\<close>, \<open>resize\<close>, \<open>reserveHeader\<close>, \<open>fill\<close> and \<open>id\<close> are those of \<open>Base_Msg\<close>.

  The blocks are shared objects: the collector pushes a pointer to a block into a local list and may
  still write through another pointer to it before it is dispatched. They live in the store
  \<open>co_msgs\<close>, the \<open>BatsBuffer\<close> objects in \<open>co_buffers\<close>; timers and the map hold positions there. The part
  of an operation that runs with \<open>mutex_\<close> held is one definition (\<open>BufferingData_locked\<close> and the like);
  it returns the blocks to be dispatched, and \<open>Dispatch\<close> puts their contents into the channels.
\<close>

section \<open>Model\<close>

subsection \<open>What is used of other code\<close>

type_synonym 'e msg = "'e BaseMsg_scheme"

record ('e, 'b, 'r, 'f) bats_library =
  L_growth :: growth
  L_PROTOCOL_OVERHEAD :: int
  L_RouteTable :: "int \<Rightarrow> 'r"
  L_LoadConfig :: "'r \<Rightarrow> 'r"
  L_RouteMatch :: "'r \<Rightarrow> u32 \<Rightarrow> string"
  L_FlowRecoder :: 'f
  L_FlowUpdate :: "'f \<Rightarrow> 'e msg \<Rightarrow> 'f \<times> 'e msg"
  L_DstAddr :: "'e msg \<Rightarrow> u32 option"
  L_NeedCoded :: "'e \<Rightarrow> bool"
  L_set_NeedCoded :: "bool \<Rightarrow> 'e \<Rightarrow> 'e"
  L_FilledBytes :: "'e msg \<Rightarrow> int"
  L_BatsBuffer :: "string \<Rightarrow> string \<Rightarrow> int \<Rightarrow> int \<Rightarrow> 'e msg list \<Rightarrow> 'b \<times> 'e msg list"
  L_GetBuf :: "'b \<Rightarrow> nat option"
  L_ResetBuf :: "'b \<Rightarrow> 'e msg list \<Rightarrow> 'b \<times> 'e msg list"
  L_Name :: "'e msg_ptr QueueBasedChannel \<Rightarrow> string"

text \<open>
  \<open>L_DstAddr\<close> is the dynamic cast to \<open>NetMsg\<close>, which may fail, with \<open>DstAddr()\<close>; \<open>L_FlowUpdate\<close> may
  change the message it is given. Constructing or resetting a \<open>BatsBuffer\<close> may create a message.
\<close>

definition NeedCoded :: "('e, 'b, 'r, 'f) bats_library \<Rightarrow> 'e msg \<Rightarrow> bool" where
  "NeedCoded L m = L_NeedCoded L (BaseMsg.more m)"

subsection \<open>State\<close>

record ('e, 'b, 'r, 'f) Collector =
  co_max_block_size :: int
  co_coding_threshold :: int
  co_src_addr :: string
  co_bats_buffer_map :: "(string \<times> nat) list"
  co_timeout_mgr :: "TimerManager option"
  co_route_t :: "'r option"
  co_flow_r :: "'f option"
  co_udp_channel :: "nat option"
  co_encode_channles :: "nat list"
  co_dispath_chn_init :: bool
  co_buffers :: "'b list"
  co_msgs :: "'e msg list"
  co_tbufs :: "(nat \<times> nat) list"

text \<open>\<open>co_tbufs\<close> holds the member \<open>buffer\<close> of the \<open>TimoutBuffer\<close> objects, by the address of the timer.\<close>

definition int_setting :: "string \<Rightarrow> int \<Rightarrow> ini_file \<Rightarrow> int res" where
  "int_setting name d f = bindE (getValue name (IntV d) f) (\<lambda>v. case v of IntV i \<Rightarrow> Inr i | _ \<Rightarrow> Inr d)"

definition string_setting :: "string \<Rightarrow> string \<Rightarrow> ini_file \<Rightarrow> string res" where
  "string_setting name d f = bindE (getValue name (StringV d) f) (\<lambda>v. case v of StringV s \<Rightarrow> Inr s | _ \<Rightarrow> Inr d)"

text \<open>\<open>Init\<close> of a new collector; the flag \<open>is_stop_\<close> of its node is cleared by the caller of this
  definition (see \<open>Collector_new\<close>).\<close>

definition Collector_Init :: "('e, 'b, 'r, 'f) bats_library \<Rightarrow> string \<Rightarrow> ini_file \<Rightarrow> ('e, 'b, 'r, 'f) Collector res" where
  "Collector_Init L uuid f =
     bindE (int_setting ''coding.max_block_size'' 65540 f) (\<lambda>max_block.
     bindE (int_setting ''coding.encode_threshold'' 30000 f) (\<lambda>threshold.
     bindE (string_setting ''tun.address'' ''10.0.0.1'' f) (\<lambda>addr.
     bindE (StartAsThread uuid (TimerManager_new [])) (\<lambda>tm.
     Inr \<lparr>co_max_block_size = max_block, co_coding_threshold = threshold, co_src_addr = addr,
          co_bats_buffer_map = [], co_timeout_mgr = Some tm,
          co_route_t = Some (L_LoadConfig L (L_RouteTable L 32)), co_flow_r = Some (L_FlowRecoder L),
          co_udp_channel = None, co_encode_channles = [], co_dispath_chn_init = False,
          co_buffers = [], co_msgs = [], co_tbufs = []\<rparr>))))"

definition Collector_new ::
    "('e, 'b, 'r, 'f) bats_library \<Rightarrow> string \<Rightarrow> ini_file \<Rightarrow> (Node \<times> ('e, 'b, 'r, 'f) Collector) res" where
  "Collector_new L uuid f =
     bindE (Collector_Init L uuid f) (\<lambda>c. Inr ((Node_new NODE_RELAY ''collector'')\<lparr>n_is_stop := False\<rparr>, c))"

definition Collector_destroy :: "('e, 'b, 'r, 'f) Collector \<Rightarrow> ('e, 'b, 'r, 'f) Collector res" where
  "Collector_destroy c =
     (case co_timeout_mgr c of
        None \<Rightarrow> Inl NullDereference
      | Some tm \<Rightarrow> bindE (TimerManager_Stop tm) (\<lambda>tm'. Inr (c\<lparr>co_timeout_mgr := Some tm'\<rparr>)))"

subsection \<open>Blocks\<close>

definition GetBatsBuffer ::
    "('e, 'b, 'r, 'f) bats_library \<Rightarrow> u64 \<Rightarrow> string \<Rightarrow> ('e, 'b, 'r, 'f) Collector \<Rightarrow>
     (nat \<times> ('e, 'b, 'r, 'f) Collector) res" where
  "GetBatsBuffer L garbage nexthop c =
     (case map_of (co_bats_buffer_map c) nexthop of
        Some p \<Rightarrow> Inr (p, c)
      | None \<Rightarrow>
          (case L_BatsBuffer L (co_src_addr c) nexthop 8888 (co_max_block_size c) (co_msgs c) of (b, ms) \<Rightarrow>
           let p = length (co_buffers c);
               c1 = c\<lparr>co_buffers := co_buffers c @ [b], co_msgs := ms,
                      co_bats_buffer_map := co_bats_buffer_map c @ [(nexthop, p)]\<rparr>
           in case co_timeout_mgr c of
                None \<Rightarrow> Inl NullDereference
              | Some tm \<Rightarrow>
                  let a = length (tm_heap tm); tm1 = tm\<lparr>tm_heap := tm_heap tm @ [Timer_new garbage 15]\<rparr>
                  in bindE (AddTimer a tm1) (\<lambda>tm2.
                     Inr (p, c1\<lparr>co_tbufs := co_tbufs c @ [(a, p)], co_timeout_mgr := Some tm2\<rparr>))))"

definition GetBuf_at :: "('e, 'b, 'r, 'f) bats_library \<Rightarrow> nat \<Rightarrow> ('e, 'b, 'r, 'f) Collector \<Rightarrow> nat option res" where
  "GetBuf_at L p c = bindE (deref (co_buffers c) p) (\<lambda>b. Inr (L_GetBuf L b))"

definition ResetBuf_at ::
    "('e, 'b, 'r, 'f) bats_library \<Rightarrow> nat \<Rightarrow> ('e, 'b, 'r, 'f) Collector \<Rightarrow> ('e, 'b, 'r, 'f) Collector res" where
  "ResetBuf_at L p c =
     bindE (deref (co_buffers c) p) (\<lambda>b.
       case L_ResetBuf L b (co_msgs c) of (b', ms) \<Rightarrow>
         Inr (c\<lparr>co_buffers := (co_buffers c)[p := b'], co_msgs := ms\<rparr>))"

definition msg_at :: "nat option \<Rightarrow> ('e, 'b, 'r, 'f) Collector \<Rightarrow> 'e msg res" where
  "msg_at q c = (case q of None \<Rightarrow> Inl NullDereference | Some k \<Rightarrow> deref (co_msgs c) k)"

definition set_msg :: "nat option \<Rightarrow> 'e msg \<Rightarrow> ('e, 'b, 'r, 'f) Collector \<Rightarrow> ('e, 'b, 'r, 'f) Collector" where
  "set_msg q m c = (case q of None \<Rightarrow> c | Some k \<Rightarrow> c\<lparr>co_msgs := (co_msgs c)[k := m]\<rparr>)"

text \<open>\<open>auto buffer = bats_buffer->GetBuf(); if (buffer == nullptr) ...\<close>\<close>

definition open_buffer ::
    "('e, 'b, 'r, 'f) bats_library \<Rightarrow> nat \<Rightarrow> ('e, 'b, 'r, 'f) Collector \<Rightarrow>
     (nat option \<times> ('e, 'b, 'r, 'f) Collector) res" where
  "open_buffer L p c =
     bindE (GetBuf_at L p c) (\<lambda>q.
       if q \<noteq> None then Inr (q, c)
       else bindE (ResetBuf_at L p c) (\<lambda>c'. bindE (GetBuf_at L p c') (\<lambda>q'. Inr (q', c'))))"

text \<open>\<open>buffer->resize(buffer->FilledBytes())\<close>, \<open>buffer->fill(msg->begin(), msg->size())\<close>.\<close>

definition cut_block ::
    "('e, 'b, 'r, 'f) bats_library \<Rightarrow> nat option \<Rightarrow> ('e, 'b, 'r, 'f) Collector \<Rightarrow> ('e, 'b, 'r, 'f) Collector res" where
  "cut_block L q c =
     bindE (msg_at q c) (\<lambda>m. bindE (msg_resize (L_growth L) m (L_FilledBytes L m)) (\<lambda>m'. Inr (set_msg q m' c)))"

definition fill_block ::
    "nat option \<Rightarrow> 'e msg \<Rightarrow> ('e, 'b, 'r, 'f) Collector \<Rightarrow> ('e, 'b, 'r, 'f) Collector res" where
  "fill_block q msg c =
     bindE (msg_at q c) (\<lambda>m. bindE (fill m (m_data msg) (msg_size msg)) (\<lambda>m'. Inr (set_msg q m' c)))"

definition ForceRelayData_locked ::
    "('e, 'b, 'r, 'f) bats_library \<Rightarrow> u64 \<Rightarrow> 'e msg \<Rightarrow> string \<Rightarrow> ('e, 'b, 'r, 'f) Collector \<Rightarrow>
     (nat option list \<times> ('e, 'b, 'r, 'f) Collector) res" where
  "ForceRelayData_locked L garbage msg nexthop c =
     bindE (GetBatsBuffer L garbage nexthop c) (\<lambda>(p, c1).
     bindE (open_buffer L p c1) (\<lambda>(buffer, c2).
     bindE (msg_at buffer c2) (\<lambda>m.
     bindE (if L_FilledBytes L m > 0
            then bindE (cut_block L buffer c2) (\<lambda>c3.
                 bindE (ResetBuf_at L p c3) (\<lambda>c4.
                 bindE (GetBuf_at L p c4) (\<lambda>buffer'. Inr ([buffer], buffer', c4))))
            else Inr ([], buffer, c2)) (\<lambda>(msg_to_udp, buf, c5).
     bindE (msg_at buf c5) (\<lambda>m1.
     bindE (reserveHeader m1 (L_PROTOCOL_OVERHEAD L)) (\<lambda>(_, m2).
     bindE (fill_block buf msg (set_msg buf m2 c5)) (\<lambda>c6.
     bindE (cut_block L buf c6) (\<lambda>c7.
     bindE (msg_at buf c7) (\<lambda>m3.
     bindE (ResetBuf_at L p (set_msg buf (BaseMsg.more_update (L_set_NeedCoded L False) m3) c7)) (\<lambda>c8.
     Inr (msg_to_udp @ [buf], c8)))))))))))"

definition BufferingData_locked ::
    "('e, 'b, 'r, 'f) bats_library \<Rightarrow> u64 \<Rightarrow> 'e msg \<Rightarrow> string \<Rightarrow> ('e, 'b, 'r, 'f) Collector \<Rightarrow>
     (nat option list \<times> ('e, 'b, 'r, 'f) Collector) res" where
  "BufferingData_locked L garbage msg nexthop c =
     bindE (GetBatsBuffer L garbage nexthop c) (\<lambda>(p, c1).
     bindE (open_buffer L p c1) (\<lambda>(buffer, c2).
     bindE (msg_at buffer c2) (\<lambda>m.
     bindE (add32 (L_FilledBytes L m) (msg_size msg)) (\<lambda>needed.
     bindE (if needed > msg_size m
            then bindE (cut_block L buffer c2) (\<lambda>c3. bindE (ResetBuf_at L p c3) (\<lambda>c4. Inr ([buffer], c4)))
            else Inr ([], c2)) (\<lambda>(msg_to_encode, c5).
     bindE (fill_block buffer msg c5) (\<lambda>c6.
     bindE (msg_at buffer c6) (\<lambda>m1.
       if L_FilledBytes L m1 > co_coding_threshold c6
       then bindE (cut_block L buffer c6) (\<lambda>c7.
            bindE (ResetBuf_at L p c7) (\<lambda>c8. Inr (msg_to_encode @ [buffer], c8)))
       else Inr (msg_to_encode, c6))))))))"

definition HandleTimeoutBuffer_locked ::
    "('e, 'b, 'r, 'f) bats_library \<Rightarrow> nat \<Rightarrow> ('e, 'b, 'r, 'f) Collector \<Rightarrow>
     (nat option list \<times> ('e, 'b, 'r, 'f) Collector) res" where
  "HandleTimeoutBuffer_locked L timeout c =
     (case map_of (co_tbufs c) timeout of
        None \<Rightarrow> Inr ([], c)
      | Some p \<Rightarrow>
          bindE (GetBuf_at L p c) (\<lambda>buf.
            if buf = None then Inr ([], c)
            else bindE (msg_at buf c) (\<lambda>m.
              if L_FilledBytes L m \<le> 0 then Inr ([], c)
              else bindE (cut_block L buf c) (\<lambda>c1.
                   bindE (ResetBuf_at L p c1) (\<lambda>c2. Inr ([buf], c2))))))"

subsection \<open>Dispatching\<close>

text \<open>The first pass over the output channels.\<close>

fun sort_channels ::
    "('e, 'b, 'r, 'f) bats_library \<Rightarrow> 'e msg_ptr QueueBasedChannel list \<Rightarrow> nat list \<Rightarrow>
     ('e, 'b, 'r, 'f) Collector \<Rightarrow> ('e, 'b, 'r, 'f) Collector res" where
  "sort_channels L chans [] c = Inr c"
| "sort_channels L chans (chn # rest) c =
     bindE (deref chans chn) (\<lambda>ch.
       sort_channels L chans rest
         (if find_str '':UDP'' (L_Name L ch) = None
          then c\<lparr>co_encode_channles := co_encode_channles c @ [chn]\<rparr>
          else c\<lparr>co_udp_channel := Some chn, co_dispath_chn_init := True\<rparr>))"

definition write_to :: "nat \<Rightarrow> 'e msg \<Rightarrow> ('e, 'x) world \<Rightarrow> ('e, 'x) world act" where
  "write_to chn msg w =
     bindA (Some (deref (w_chans w) chn)) (\<lambda>ch.
     bindA (WriteMessage [] (Some msg) ch) (\<lambda>ch'. done_act (set_chan chn ch' w)))"

definition Collector_Dispatch ::
    "('e, 'b, 'r, 'f) bats_library \<Rightarrow> nat \<Rightarrow> 'e msg \<Rightarrow> ('e, ('e, 'b, 'r, 'f) Collector) world \<Rightarrow>
     ('e, ('e, 'b, 'r, 'f) Collector) world act" where
  "Collector_Dispatch L i msg w =
     bindA (Some (deref (w_nodes w) i)) (\<lambda>n.
       if n_down n = [] then done_act w
       else bindA (Some (if \<not> co_dispath_chn_init (w_ext w)
                         then sort_channels L (w_chans w) (n_down n) (w_ext w)
                         else Inr (w_ext w))) (\<lambda>c.
         let w1 = w\<lparr>w_ext := c\<rparr> in
         if NeedCoded L msg
         then if co_encode_channles c = [] then fail_act DivisionByZero
              else write_to (co_encode_channles c ! (unat (m_id msg) mod length (co_encode_channles c))) msg w1
         else case co_udp_channel c of
                None \<Rightarrow> fail_act NullDereference
              | Some chn \<Rightarrow> write_to chn msg w1))"

fun dispatch_blocks ::
    "('e, 'b, 'r, 'f) bats_library \<Rightarrow> nat \<Rightarrow> nat option list \<Rightarrow> ('e, ('e, 'b, 'r, 'f) Collector) world \<Rightarrow>
     ('e, ('e, 'b, 'r, 'f) Collector) world act" where
  "dispatch_blocks L i [] w = done_act w"
| "dispatch_blocks L i (b # bs) w =
     bindA (Some (msg_at b (w_ext w))) (\<lambda>m. bindA (Collector_Dispatch L i m w) (dispatch_blocks L i bs))"

subsection \<open>Handlers\<close>

definition ForceRelayData ::
    "('e, 'b, 'r, 'f) bats_library \<Rightarrow> u64 \<Rightarrow> nat \<Rightarrow> 'e msg \<Rightarrow> string \<Rightarrow>
     ('e, ('e, 'b, 'r, 'f) Collector) world \<Rightarrow> ('e, ('e, 'b, 'r, 'f) Collector) world act" where
  "ForceRelayData L garbage i msg nexthop w =
     bindA (Some (ForceRelayData_locked L garbage msg nexthop (w_ext w))) (\<lambda>(msg_to_udp, c).
     dispatch_blocks L i msg_to_udp (w\<lparr>w_ext := c\<rparr>))"

definition BufferingData ::
    "('e, 'b, 'r, 'f) bats_library \<Rightarrow> u64 \<Rightarrow> nat \<Rightarrow> 'e msg \<Rightarrow> string \<Rightarrow>
     ('e, ('e, 'b, 'r, 'f) Collector) world \<Rightarrow> ('e, ('e, 'b, 'r, 'f) Collector) world act" where
  "BufferingData L garbage i msg nexthop w =
     bindA (Some (BufferingData_locked L garbage msg nexthop (w_ext w))) (\<lambda>(msg_to_encode, c).
     dispatch_blocks L i msg_to_encode (w\<lparr>w_ext := c\<rparr>))"

definition HandleTimeoutBuffer ::
    "('e, 'b, 'r, 'f) bats_library \<Rightarrow> nat \<Rightarrow> nat \<Rightarrow> ('e, ('e, 'b, 'r, 'f) Collector) world \<Rightarrow>
     ('e, ('e, 'b, 'r, 'f) Collector) world act" where
  "HandleTimeoutBuffer L i timeout w =
     bindA (Some (HandleTimeoutBuffer_locked L timeout (w_ext w))) (\<lambda>(bufs, c).
     dispatch_blocks L i bufs (w\<lparr>w_ext := c\<rparr>))"

definition Collector_HandleMsg ::
    "('e, 'b, 'r, 'f) bats_library \<Rightarrow> u64 \<Rightarrow> ('e, ('e, 'b, 'r, 'f) Collector) msg_handler" where
  "Collector_HandleMsg L garbage i msg w =
     (case L_DstAddr L msg of
        None \<Rightarrow> fail_act AssertionFailed
      | Some dst \<Rightarrow>
          (case co_route_t (w_ext w) of
             None \<Rightarrow> fail_act NullDereference
           | Some r \<Rightarrow>
               let nexthop = L_RouteMatch L r dst in
               if nexthop = [] then done_act w
               else let (flow, msg') = (case co_flow_r (w_ext w) of
                                          None \<Rightarrow> (None, msg)
                                        | Some f \<Rightarrow> (case L_FlowUpdate L f msg of (f', m') \<Rightarrow> (Some f', m')));
                        w1 = w\<lparr>w_ext := (w_ext w)\<lparr>co_flow_r := flow\<rparr>\<rparr>
                    in if NeedCoded L msg' then BufferingData L garbage i msg' nexthop w1
                       else ForceRelayData L garbage i msg' nexthop w1))"

end
