(* ===== verification/Collector_Stream.thy ===== *)
theory Collector_Stream
  imports Collector
begin

text \<open>
  What the collector promises: per next hop, the bytes that go in come out, in order, in blocks. The
  abstract collector (\<open>spec_buffer\<close>, \<open>spec_relay\<close>, \<open>spec_timeout\<close>) keeps the pending bytes of every next
  hop; the locked parts of the operations are shown to refine it (\<open>pending_of\<close> is the abstraction
  function), as long as the blocks are large enough for the packets. When a block is full, the
  code writes past its end.

  \<open>bats_ok\<close> states what the collector relies on from the missing classes: a reset gives the
  \<open>BatsBuffer\<close> a new, empty block of its size that is to be coded, \<open>FilledBytes\<close> is the fill position
  of the message, and \<open>NeedCoded\<close> can be set.
\<close>

section \<open>The interface of the missing classes\<close>

definition fresh_block :: "('e, 'b, 'r, 'f) bats_library \<Rightarrow> int \<Rightarrow> 'e msg \<Rightarrow> bool" where
  "fresh_block L z m \<longleftrightarrow> msg_wf m \<and> m_head m = 0 \<and> m_curr m = 0 \<and> m_tail m = 0 \<and>
     int (length (m_data m)) = z \<and> NeedCoded L m"

abbreviation size_ok32 :: "int \<Rightarrow> bool" where
  "size_ok32 z \<equiv> 0 \<le> z \<and> int32_ok z"

definition bats_ok :: "('e, 'b, 'r, 'f) bats_library \<Rightarrow> ('b \<Rightarrow> int) \<Rightarrow> bool" where
  "bats_ok L cap \<longleftrightarrow> 0 \<le> L_PROTOCOL_OVERHEAD L \<and>
     (\<forall>m. L_FilledBytes L m = m_tail m) \<and>
     (\<forall>v e. L_NeedCoded L (L_set_NeedCoded L v e) = v) \<and>
     (\<forall>s n p z ms b ms'. size_ok32 z \<longrightarrow> L_BatsBuffer L s n p z ms = (b, ms') \<longrightarrow> cap b = z \<and>
        (L_GetBuf L b = None \<and> ms' = ms \<or>
         L_GetBuf L b = Some (length ms) \<and> (\<exists>m. ms' = ms @ [m] \<and> fresh_block L z m))) \<and>
     (\<forall>b ms b' ms'. size_ok32 (cap b) \<longrightarrow> L_ResetBuf L b ms = (b', ms') \<longrightarrow> cap b' = cap b \<and>
        L_GetBuf L b' = Some (length ms) \<and> (\<exists>m. ms' = ms @ [m] \<and> fresh_block L (cap b) m))"

lemma bats_ok_simps:
  assumes "bats_ok L cap"
  shows "0 \<le> L_PROTOCOL_OVERHEAD L" and "L_FilledBytes L m = m_tail m"
    and "L_NeedCoded L (L_set_NeedCoded L v e) = v"
  using assms by (auto simp: bats_ok_def)

lemma bats_ok_new:
  assumes "bats_ok L cap" and "size_ok32 z" and "L_BatsBuffer L s n p z ms = (b, ms')"
  shows "cap b = z \<and> (L_GetBuf L b = None \<and> ms' = ms \<or>
      L_GetBuf L b = Some (length ms) \<and> (\<exists>m. ms' = ms @ [m] \<and> fresh_block L z m))"
  using assms unfolding bats_ok_def by blast

lemma bats_ok_reset:
  assumes "bats_ok L cap" and "size_ok32 (cap b)"
  obtains b' m where "L_ResetBuf L b ms = (b', ms @ [m])" "cap b' = cap b" "L_GetBuf L b' = Some (length ms)"
    "fresh_block L (cap b) m"
  using assms unfolding bats_ok_def by (metis surj_pair)

section \<open>The abstract collector\<close>

text \<open>A block to be coded, or a packet to be sent as it is.\<close>

datatype block = Coded "u8 list" | Raw "u8 list"

fun block_bytes :: "block \<Rightarrow> u8 list" where
  "block_bytes (Coded xs) = xs"
| "block_bytes (Raw xs) = xs"

type_synonym pending = "string \<Rightarrow> u8 list"

definition spec_buffer :: "int \<Rightarrow> string \<Rightarrow> u8 list \<Rightarrow> pending \<Rightarrow> block list \<times> pending" where
  "spec_buffer threshold h bs st =
     (let acc = st h @ bs in
      if int (length acc) > threshold then ([Coded acc], st(h := [])) else ([], st(h := acc)))"

definition spec_timeout :: "string \<Rightarrow> pending \<Rightarrow> block list \<times> pending" where
  "spec_timeout h st = (if st h = [] then ([], st) else ([Coded (st h)], st(h := [])))"

definition spec_relay :: "string \<Rightarrow> u8 list \<Rightarrow> pending \<Rightarrow> block list \<times> pending" where
  "spec_relay h bs st = (case spec_timeout h st of (out, st') \<Rightarrow> (out @ [Raw bs], st'))"

section \<open>The abstraction\<close>

definition open_block :: "('e, 'b, 'r, 'f) bats_library \<Rightarrow> int \<Rightarrow> 'e msg \<Rightarrow> bool" where
  "open_block L z m \<longleftrightarrow> msg_wf m \<and> m_head m = 0 \<and> m_curr m = 0 \<and> int (length (m_data m)) = z \<and>
     m_tail m \<le> z \<and> NeedCoded L m"

definition filled :: "'e msg \<Rightarrow> u8 list" where
  "filled m = take (nat (m_tail m)) (m_data m)"

definition buf_of :: "('e, 'b, 'r, 'f) bats_library \<Rightarrow> ('e, 'b, 'r, 'f) Collector \<Rightarrow> nat \<Rightarrow> nat option" where
  "buf_of L c p = L_GetBuf L (co_buffers c ! p)"

definition collector_wf :: "('e, 'b, 'r, 'f) bats_library \<Rightarrow> ('b \<Rightarrow> int) \<Rightarrow> ('e, 'b, 'r, 'f) Collector \<Rightarrow> bool" where
  "collector_wf L cap c \<longleftrightarrow> size_ok32 (co_max_block_size c) \<and>
     distinct (map fst (co_bats_buffer_map c)) \<and>
     map snd (co_bats_buffer_map c) = [0..<length (co_buffers c)] \<and>
     (\<forall>p<length (co_buffers c). cap (co_buffers c ! p) = co_max_block_size c \<and>
        (\<forall>k. buf_of L c p = Some k \<longrightarrow>
           k < length (co_msgs c) \<and> open_block L (co_max_block_size c) (co_msgs c ! k))) \<and>
     (\<forall>p<length (co_buffers c). \<forall>p'<length (co_buffers c). \<forall>k.
        buf_of L c p = Some k \<longrightarrow> buf_of L c p' = Some k \<longrightarrow> p = p') \<and>
     (\<exists>tm. co_timeout_mgr c = Some tm \<and> tm_resolution tm = 5 \<and>
        (\<forall>a\<in>set (map fst (co_tbufs c)). a < length (tm_heap tm))) \<and>
     distinct (map fst (co_tbufs c)) \<and> map snd (co_tbufs c) = [0..<length (co_buffers c)]"

definition pending_at :: "('e, 'b, 'r, 'f) bats_library \<Rightarrow> ('e, 'b, 'r, 'f) Collector \<Rightarrow> nat \<Rightarrow> u8 list" where
  "pending_at L c p = (case buf_of L c p of None \<Rightarrow> [] | Some k \<Rightarrow> filled (co_msgs c ! k))"

definition pending_of :: "('e, 'b, 'r, 'f) bats_library \<Rightarrow> ('e, 'b, 'r, 'f) Collector \<Rightarrow> pending" where
  "pending_of L c h = (case map_of (co_bats_buffer_map c) h of None \<Rightarrow> [] | Some p \<Rightarrow> pending_at L c p)"

definition block_of :: "('e, 'b, 'r, 'f) bats_library \<Rightarrow> ('e, 'b, 'r, 'f) Collector \<Rightarrow> nat option \<Rightarrow> block" where
  "block_of L c q =
     (let m = co_msgs c ! the q in
      if NeedCoded L m then Coded (m_data m) else Raw (drop (nat (L_PROTOCOL_OVERHEAD L)) (m_data m)))"

text \<open>What no operation changes.\<close>

definition same_config :: "('e, 'b, 'r, 'f) Collector \<Rightarrow> ('e, 'b, 'r, 'f) Collector \<Rightarrow> bool" where
  "same_config c c' \<longleftrightarrow> co_max_block_size c' = co_max_block_size c \<and>
     co_coding_threshold c' = co_coding_threshold c \<and> co_src_addr c' = co_src_addr c \<and>
     co_udp_channel c' = co_udp_channel c \<and> co_encode_channles c' = co_encode_channles c \<and>
     co_dispath_chn_init c' = co_dispath_chn_init c"

lemma same_config_refl [simp]: "same_config c c"
  by (simp add: same_config_def)

lemma same_config_trans: "same_config a b \<Longrightarrow> same_config b c \<Longrightarrow> same_config a c"
  by (simp add: same_config_def)

lemma fresh_open: "fresh_block L z m \<Longrightarrow> 0 \<le> z \<Longrightarrow> open_block L z m \<and> filled m = []"
  by (simp add: fresh_block_def open_block_def filled_def)

lemma map_of_index:
  assumes "map snd xs = [0..<n]" and "distinct (map fst xs)" and "p < n"
  shows "\<exists>h. map_of xs h = Some p" and "map_of xs h' = Some p \<Longrightarrow> xs ! p = (h', p)"
proof -
  have len: "length xs = n" using arg_cong [OF assms(1), of length] by simp
  have snd: "snd (xs ! q) = q" if "q < n" for q using that assms(1) len by (metis add_0 diff_zero length_upt nth_map nth_upt)
  obtain h where h: "xs ! p = (h, p)" using snd [OF assms(3)] by (metis prod.collapse)
  then have "(h, p) \<in> set xs" using assms(3) len by (metis nth_mem)
  then show "\<exists>h. map_of xs h = Some p" using assms(2) by (metis map_of_is_SomeI)
  show "xs ! p = (h', p)" if eq: "map_of xs h' = Some p" for h'
  proof -
    obtain q where "q < n" "xs ! q = (h', p)" using map_of_SomeD [OF eq] len by (metis in_set_conv_nth)
    with snd [of q] show ?thesis by simp
  qed
qed

lemma map_of_bound: "map snd xs = [0..<n] \<Longrightarrow> map_of xs h = Some p \<Longrightarrow> p < n"
  by (metis atLeastLessThan_iff imageI in_set_conv_decomp list.set_map map_of_SomeD set_upt snd_conv)

section \<open>The steps of the operations\<close>

lemmas collector_defs = collector_wf_def buf_of_def

lemma wf_hop:
  assumes "collector_wf L cap c" and "map_of (co_bats_buffer_map c) h = Some p"
  shows "p < length (co_buffers c)"
  using assms map_of_bound [of "co_bats_buffer_map c"] by (auto simp: collector_wf_def)

lemma wf_hop_inj:
  assumes "collector_wf L cap c" and "map_of (co_bats_buffer_map c) h = Some p"
    and "map_of (co_bats_buffer_map c) h' = Some p"
  shows "h' = h"
  using assms map_of_index(2) [of "co_bats_buffer_map c" "length (co_buffers c)" p] wf_hop [OF assms(1,2)]
  by (metis collector_wf_def fst_conv)

text \<open>An operation for the next hop \<open>h\<close> that keeps the entries, blocks and messages of the others keeps what is
  pending for them.\<close>

lemma pending_upd:
  assumes "\<And>h'. h' \<noteq> h \<Longrightarrow> map_of (co_bats_buffer_map c') h' = map_of (co_bats_buffer_map c) h'"
    and "\<And>h' q. h' \<noteq> h \<Longrightarrow> map_of (co_bats_buffer_map c) h' = Some q \<Longrightarrow> buf_of L c' q = buf_of L c q"
    and "\<And>h' q k. h' \<noteq> h \<Longrightarrow> map_of (co_bats_buffer_map c) h' = Some q \<Longrightarrow> buf_of L c q = Some k \<Longrightarrow>
      co_msgs c' ! k = co_msgs c ! k"
    and "pending_of L c' h = bs"
  shows "pending_of L c' = (pending_of L c)(h := bs)"
proof
  fix h'
  show "pending_of L c' h' = ((pending_of L c)(h := bs)) h'"
    using assms by (cases "h' = h") (auto simp: pending_of_def pending_at_def split: option.splits)
qed

lemma wf_block:
  assumes "collector_wf L cap c" and "q < length (co_buffers c)" and "buf_of L c q = Some k"
  shows "k < length (co_msgs c)" and "open_block L (co_max_block_size c) (co_msgs c ! k)"
  using assms unfolding collector_wf_def by blast+

lemma wf_block_inj:
  assumes "collector_wf L cap c" and "buf_of L c p = Some k" and "buf_of L c q = Some k"
    and "p < length (co_buffers c)" and "q < length (co_buffers c)"
  shows "p = q"
  using assms unfolding collector_wf_def by blast

lemma wf_other:
  assumes "collector_wf L cap c" and "map_of (co_bats_buffer_map c) h = Some p"
    and "h' \<noteq> h" and "map_of (co_bats_buffer_map c) h' = Some q"
  shows "q \<noteq> p" and "q < length (co_buffers c)"
  using assms wf_hop_inj [OF assms(1,2), of h'] wf_hop [OF assms(1,4)] by auto

text \<open>A reset, also when the current block of \<open>p\<close> has just been changed.\<close>

lemma ResetBuf_at_ok:
  assumes ok: "bats_ok L cap" and wf: "collector_wf L cap c"
    and h: "map_of (co_bats_buffer_map c) h = Some p"
    and len: "length ms = length (co_msgs c)"
    and same: "\<And>j. buf_of L c p \<noteq> Some j \<Longrightarrow> ms ! j = co_msgs c ! j"
  obtains c' where "ResetBuf_at L p (c\<lparr>co_msgs := ms\<rparr>) = Inr c'" "collector_wf L cap c'"
    "buf_of L c' p = Some (length ms)" "fresh_block L (co_max_block_size c) (co_msgs c' ! length ms)"
    "\<And>j. j < length ms \<Longrightarrow> co_msgs c' ! j = ms ! j" "length (co_msgs c') = Suc (length ms)"
    "co_bats_buffer_map c' = co_bats_buffer_map c" "pending_of L c' = (pending_of L c)(h := [])"
    "same_config c c'" "co_tbufs c' = co_tbufs c"
proof -
  have p: "p < length (co_buffers c)" by (rule wf_hop [OF wf h])
  then have cap: "cap (co_buffers c ! p) = co_max_block_size c" "size_ok32 (co_max_block_size c)"
    using wf by (auto simp: collector_wf_def)
  obtain b' m where r: "L_ResetBuf L (co_buffers c ! p) ms = (b', ms @ [m])"
      "cap b' = co_max_block_size c" "L_GetBuf L b' = Some (length ms)"
      "fresh_block L (co_max_block_size c) m"
    using bats_ok_reset [OF ok, of "co_buffers c ! p"] cap by metis
  let ?c = "c\<lparr>co_buffers := (co_buffers c)[p := b'], co_msgs := ms @ [m]\<rparr>"
  have res: "ResetBuf_at L p (c\<lparr>co_msgs := ms\<rparr>) = Inr ?c"
    using p r(1) by (simp add: ResetBuf_at_def)
  have new: "buf_of L ?c p = Some (length ms)" using p r(3) by (simp add: buf_of_def)
  have old: "buf_of L ?c q = buf_of L c q" if "q \<noteq> p" for q using that by (simp add: buf_of_def)
  have lt: "k < length ms" "co_msgs ?c ! k = co_msgs c ! k" "open_block L (co_max_block_size c) (co_msgs c ! k)"
    if "buf_of L c q = Some k" "q \<noteq> p" "q < length (co_buffers c)" for q k
    using same [of k] len wf_block [OF wf that(3,1)] wf_block_inj [OF wf that(1) _ that(3) p] that(2)
    by (auto simp: nth_append)
  have "open_block L (co_max_block_size c) m" using fresh_open [OF r(4)] cap by blast
  then have blocks: "k < length (co_msgs ?c) \<and> open_block L (co_max_block_size c) (co_msgs ?c ! k)"
    if "buf_of L ?c q = Some k" "q < length (co_buffers c)" for q k
    using that new old lt [of q k] by (cases "q = p") (auto simp: less_Suc_eq)
  have inj: "q = q'" if "buf_of L ?c q = Some k" "buf_of L ?c q' = Some k"
    "q < length (co_buffers c)" "q' < length (co_buffers c)" for q q' k
    using that new old lt(1) [of q k] lt(1) [of q' k] wf_block_inj [OF wf, of q k q']
    by (cases "q = p"; cases "q' = p") auto
  have wf': "collector_wf L cap ?c"
    using wf blocks inj r(2) p unfolding collector_wf_def by (auto simp: nth_list_update)
  have pend: "pending_of L ?c = (pending_of L c)(h := [])"
    by (rule pending_upd)
       (use old lt(2) wf_other [OF wf h] h new fresh_open [OF r(4)] cap in \<open>auto simp: pending_of_def pending_at_def\<close>)
  show ?thesis
    by (rule that [OF res wf' new _ _ _ _ pend]) (use r(4) in \<open>simp_all add: nth_append same_config_def\<close>)
qed

lemma open_buffer_ok:
  assumes ok: "bats_ok L cap" and wf: "collector_wf L cap c"
    and h: "map_of (co_bats_buffer_map c) h = Some p"
  obtains k c' where "open_buffer L p c = Inr (Some k, c')" "collector_wf L cap c'" "buf_of L c' p = Some k"
    "co_bats_buffer_map c' = co_bats_buffer_map c" "pending_of L c' = pending_of L c" "same_config c c'"
proof (cases "buf_of L c p")
  case (Some k)
  then have "open_buffer L p c = Inr (Some k, c)"
    using wf_hop [OF wf h] by (simp add: open_buffer_def GetBuf_at_def buf_of_def)
  with Some wf show ?thesis by (intro that) auto
next
  case None
  have p: "p < length (co_buffers c)" by (rule wf_hop [OF wf h])
  obtain c' where c': "ResetBuf_at L p (c\<lparr>co_msgs := co_msgs c\<rparr>) = Inr c'" "collector_wf L cap c'"
      "buf_of L c' p = Some (length (co_msgs c))" "co_bats_buffer_map c' = co_bats_buffer_map c"
      "pending_of L c' = (pending_of L c)(h := [])" "same_config c c'"
    using ResetBuf_at_ok [OF ok wf h, of "co_msgs c"] by metis
  have "pending_of L c h = []" using None h by (simp add: pending_of_def pending_at_def)
  then have pend: "pending_of L c' = pending_of L c" using c'(5) by (simp add: fun_upd_idem)
  have p': "p < length (co_buffers c')" using wf_hop [OF c'(2)] c'(4) h by simp
  have "open_buffer L p c = Inr (Some (length (co_msgs c)), c')"
    using None p p' c'(1,3) by (simp add: open_buffer_def GetBuf_at_def buf_of_def)
  then show ?thesis using c' pend by (intro that) auto
qed

lemma AddTimer_fresh:
  assumes "tm_resolution tm = 5"
  shows "\<exists>t. AddTimer (length (tm_heap tm)) (tm\<lparr>tm_heap := tm_heap tm @ [Timer_new g 15]\<rparr>) =
    Inr (tm\<lparr>tm_heap := tm_heap tm @ [t], tm_timers := tm_timers tm @ [length (tm_heap tm)]\<rparr>) \<and>
    t = Timer_new (tm_tick tm) 15"
  using assms by (simp add: AddTimer_def deref_def Timer_new_def put_timer_def)

text \<open>The collector with a new \<open>BatsBuffer\<close> and its timer.\<close>

definition with_buffer :: "string \<Rightarrow> 'b \<Rightarrow> 'e msg list \<Rightarrow> TimerManager \<Rightarrow> ('e, 'b, 'r, 'f) Collector \<Rightarrow> ('e, 'b, 'r, 'f) Collector" where
  "with_buffer h b ms tm c = c\<lparr>co_buffers := co_buffers c @ [b], co_msgs := ms,
      co_bats_buffer_map := co_bats_buffer_map c @ [(h, length (co_buffers c))],
      co_tbufs := co_tbufs c @ [(length (tm_heap tm), length (co_buffers c))],
      co_timeout_mgr := Some (tm\<lparr>tm_heap := tm_heap tm @ [Timer_new (tm_tick tm) 15],
                                 tm_timers := tm_timers tm @ [length (tm_heap tm)]\<rparr>)\<rparr>"

lemma GetBatsBuffer_new:
  assumes "map_of (co_bats_buffer_map c) h = None" and "co_timeout_mgr c = Some tm" and "tm_resolution tm = 5"
    and "L_BatsBuffer L (co_src_addr c) h 8888 (co_max_block_size c) (co_msgs c) = (b, ms)"
  shows "GetBatsBuffer L g h c = Inr (length (co_buffers c), with_buffer h b ms tm c)"
  using assms AddTimer_fresh [OF assms(3), of g] by (simp add: GetBatsBuffer_def Let_def with_buffer_def)

lemma with_buffer_simps:
  "length (co_buffers (with_buffer h b ms tm c)) = Suc (length (co_buffers c))"
  "co_msgs (with_buffer h b ms tm c) = ms" "co_max_block_size (with_buffer h b ms tm c) = co_max_block_size c"
  "q < length (co_buffers c) \<Longrightarrow> buf_of L (with_buffer h b ms tm c) q = buf_of L c q"
  "buf_of L (with_buffer h b ms tm c) (length (co_buffers c)) = L_GetBuf L b"
  "q < length (co_buffers c) \<Longrightarrow> co_buffers (with_buffer h b ms tm c) ! q = co_buffers c ! q"
  "co_buffers (with_buffer h b ms tm c) ! length (co_buffers c) = b"
  "h' \<noteq> h \<Longrightarrow> map_of (co_bats_buffer_map (with_buffer h b ms tm c)) h' = map_of (co_bats_buffer_map c) h'"
  "map_of (co_bats_buffer_map c) h = None \<Longrightarrow>
     map_of (co_bats_buffer_map (with_buffer h b ms tm c)) h = Some (length (co_buffers c))"
  by (auto simp: with_buffer_def buf_of_def nth_append map_add_def split: option.splits)

text \<open>What the interface promises of the new object, over the messages before and after.\<close>

definition new_buffer :: "('e, 'b, 'r, 'f) bats_library \<Rightarrow> ('b \<Rightarrow> int) \<Rightarrow> int \<Rightarrow> 'e msg list \<Rightarrow> 'b \<Rightarrow> 'e msg list \<Rightarrow> bool" where
  "new_buffer L cap z old b ms \<longleftrightarrow> cap b = z \<and> (\<forall>k<length old. k < length ms \<and> ms ! k = old ! k) \<and>
     (\<forall>k. L_GetBuf L b = Some k \<longrightarrow> k = length old \<and> k < length ms \<and> fresh_block L z (ms ! k))"

lemma new_bufferI:
  assumes "bats_ok L cap" and "size_ok32 z" and "L_BatsBuffer L s n p z old = (b, ms)"
  shows "new_buffer L cap z old b ms"
  using bats_ok_new [OF assms] by (auto simp: new_buffer_def nth_append)

lemma with_buffer_blocks:
  assumes wf: "collector_wf L cap c" and b: "new_buffer L cap (co_max_block_size c) (co_msgs c) b ms"
    and q: "buf_of L (with_buffer h b ms tm c) q = Some k" "q < Suc (length (co_buffers c))"
  shows "k < length ms \<and> open_block L (co_max_block_size c) (ms ! k)"
proof (cases "q = length (co_buffers c)")
  case True
  have "0 \<le> co_max_block_size c" using wf by (simp add: collector_wf_def)
  with True q b fresh_open show ?thesis by (auto simp: with_buffer_simps new_buffer_def)
next
  case False
  then have "q < length (co_buffers c)" "buf_of L c q = Some k" using q by (auto simp: with_buffer_simps less_Suc_eq)
  with wf_block [OF wf this] b show ?thesis by (auto simp: new_buffer_def)
qed

lemma with_buffer_inj:
  assumes wf: "collector_wf L cap c" and b: "new_buffer L cap (co_max_block_size c) (co_msgs c) b ms"
    and q: "buf_of L (with_buffer h b ms tm c) q = Some k" "q < Suc (length (co_buffers c))"
    and q': "buf_of L (with_buffer h b ms tm c) q' = Some k" "q' < Suc (length (co_buffers c))"
  shows "q = q'"
proof -
  have old: "k < length (co_msgs c)" if "r < length (co_buffers c)" "buf_of L (with_buffer h b ms tm c) r = Some k" for r
    using wf_block(1) [OF wf that(1), of k] that by (simp add: with_buffer_simps)
  have new: "k = length (co_msgs c)" if "buf_of L (with_buffer h b ms tm c) (length (co_buffers c)) = Some k"
    using that b by (auto simp: with_buffer_simps new_buffer_def)
  show ?thesis
    using q q' old [of q] old [of q'] new wf_block_inj [OF wf, of q k q']
    by (auto simp: less_Suc_eq with_buffer_simps)
qed

lemma with_buffer_wf:
  assumes wf: "collector_wf L cap c" and b: "new_buffer L cap (co_max_block_size c) (co_msgs c) b ms"
    and h: "map_of (co_bats_buffer_map c) h = None" and tm: "co_timeout_mgr c = Some tm"
  shows "collector_wf L cap (with_buffer h b ms tm c)"
proof -
  let ?c = "with_buffer h b ms tm c" and ?n = "length (co_buffers c)"
  have "cap (co_buffers ?c ! q) = co_max_block_size c" if "q < Suc ?n" for q
    using that wf b by (cases "q = ?n") (auto simp: with_buffer_simps new_buffer_def collector_wf_def less_Suc_eq)
  moreover have "h \<notin> fst ` set (co_bats_buffer_map c)" using h by (simp add: map_of_eq_None_iff)
  moreover have "\<forall>a\<in>set (map fst (co_tbufs c)). a < length (tm_heap tm)" "tm_resolution tm = 5"
    using wf tm by (auto simp: collector_wf_def)
  moreover from this(1) have "length (tm_heap tm) \<notin> fst ` set (co_tbufs c)" by auto
  ultimately show ?thesis
    using wf with_buffer_blocks [OF wf b, of h tm] with_buffer_inj [OF wf b, of h tm]
    unfolding collector_wf_def [of L cap "with_buffer h b ms tm c"] with_buffer_simps
    by (intro conjI) (auto simp: with_buffer_def collector_wf_def [of L cap c] less_SucI)
qed

lemma with_buffer_pending:
  assumes wf: "collector_wf L cap c" and b: "new_buffer L cap (co_max_block_size c) (co_msgs c) b ms"
    and h: "map_of (co_bats_buffer_map c) h = None"
  shows "pending_of L (with_buffer h b ms tm c) = pending_of L c"
proof -
  have z: "0 \<le> co_max_block_size c" using wf by (simp add: collector_wf_def)
  have "pending_of L (with_buffer h b ms tm c) h = []"
    using h b fresh_open [OF _ z]
    by (auto simp: pending_of_def pending_at_def with_buffer_simps new_buffer_def split: option.splits)
  then have "pending_of L (with_buffer h b ms tm c) = (pending_of L c)(h := [])"
  proof (intro pending_upd)
    fix h' q k assume "map_of (co_bats_buffer_map c) h' = Some q" "buf_of L c q = Some k"
    then have "k < length (co_msgs c)" using wf_block(1) [OF wf wf_hop [OF wf]] by blast
    then show "co_msgs (with_buffer h b ms tm c) ! k = co_msgs c ! k" using b by (simp add: with_buffer_simps new_buffer_def)
  qed (simp_all add: with_buffer_simps wf_hop [OF wf])
  then show ?thesis using h by (simp add: pending_of_def fun_upd_idem)
qed

lemma GetBatsBuffer_ok:
  assumes ok: "bats_ok L cap" and wf: "collector_wf L cap c"
  obtains p c' where "GetBatsBuffer L g h c = Inr (p, c')" "collector_wf L cap c'"
    "map_of (co_bats_buffer_map c') h = Some p" "pending_of L c' = pending_of L c" "same_config c c'"
proof (cases "map_of (co_bats_buffer_map c) h")
  case (Some p)
  with wf show ?thesis by (intro that) (auto simp: GetBatsBuffer_def)
next
  case None
  obtain tm where tm: "co_timeout_mgr c = Some tm" "tm_resolution tm = 5"
    using wf by (auto simp: collector_wf_def)
  obtain b ms where lib: "L_BatsBuffer L (co_src_addr c) h 8888 (co_max_block_size c) (co_msgs c) = (b, ms)"
    by fastforce
  have "size_ok32 (co_max_block_size c)" using wf by (simp add: collector_wf_def)
  note b = new_bufferI [OF ok this lib]
  show ?thesis
    by (rule that [OF GetBatsBuffer_new [OF None tm lib] with_buffer_wf [OF wf b None tm(1)] _ with_buffer_pending [OF wf b None]])
       (simp_all add: with_buffer_simps None, simp add: with_buffer_def same_config_def)
qed

lemma set_open_block:
  assumes wf: "collector_wf L cap c" and h: "map_of (co_bats_buffer_map c) h = Some p"
    and k: "buf_of L c p = Some k" and m: "open_block L (co_max_block_size c) m"
  shows "collector_wf L cap (set_msg (Some k) m c)"
    and "pending_of L (set_msg (Some k) m c) = (pending_of L c)(h := filled m)"
proof -
  let ?c = "set_msg (Some k) m c"
  have p: "p < length (co_buffers c)" by (rule wf_hop [OF wf h])
  have buf: "buf_of L ?c q = buf_of L c q" for q by (simp add: buf_of_def set_msg_def)
  have kl: "k < length (co_msgs c)" using wf p k by (auto simp: collector_wf_def)
  have other: "co_msgs ?c ! j = co_msgs c ! j" if "buf_of L c q = Some j" "q \<noteq> p" "q < length (co_buffers c)" for q j
  proof -
    have "j \<noteq> k" using wf_block_inj [OF wf that(1) _ that(3) p] k that(2) by auto
    then show ?thesis by (simp add: set_msg_def)
  qed
  show "collector_wf L cap ?c"
    using wf m buf kl unfolding collector_wf_def by (auto simp: set_msg_def nth_list_update)
  show "pending_of L ?c = (pending_of L c)(h := filled m)"
    by (rule pending_upd)
       (use buf other wf_other [OF wf h] h k kl in \<open>auto simp: pending_of_def pending_at_def set_msg_def\<close>)
qed

lemma msg_at_wf:
  assumes "collector_wf L cap c" and "map_of (co_bats_buffer_map c) h = Some p" and "buf_of L c p = Some k"
  shows "msg_at (Some k) c = Inr (co_msgs c ! k)" and "k < length (co_msgs c)"
    and "open_block L (co_max_block_size c) (co_msgs c ! k)" and "pending_of L c h = filled (co_msgs c ! k)"
    and "size_ok32 (co_max_block_size c)"
  using assms wf_hop [OF assms(1,2)]
  by (auto simp: collector_wf_def msg_at_def pending_of_def pending_at_def)

section \<open>Refinement\<close>

lemma filled_length: "open_block L z m \<Longrightarrow> int (length (filled m)) = m_tail m"
  by (auto simp: open_block_def filled_def msg_wf_def)

lemma fill_open:
  assumes "open_block L z m" and "int32_ok z" and "m_tail m + int (length bs) \<le> z"
  obtains m' where "fill m bs (int (length bs)) = Inr m'" "open_block L z m'" "filled m' = filled m @ bs"
proof -
  let ?m = "m\<lparr>m_data := take (nat (m_tail m)) (m_data m) @ bs @ drop (nat (m_tail m) + length bs) (m_data m),
              m_tail := m_tail m + int (length bs)\<rparr>"
  have m: "msg_wf m" "0 \<le> m_tail m" "m_tail m + int (length bs) \<le> int (length (m_data m))"
    using assms by (auto simp: open_block_def msg_wf_def)
  then have "int32_ok (m_tail m + int (length bs))" using assms(2,3) by (auto simp: int32_ok_def)
  then have f: "fill m bs (int (length bs)) = Inr ?m" using m by (intro fill_within)
  have "msg_wf ?m" by (rule msg_wf_fill [OF m(1) f])
  then have "open_block L z ?m" using assms m by (auto simp: open_block_def NeedCoded_def)
  moreover have "filled ?m = filled m @ bs" using m by (simp add: filled_def nat_add_distrib)
  ultimately show ?thesis using f by (rule that [rotated])
qed

lemma cut_open:
  assumes "open_block L z m" and "int32_ok z"
  shows "msg_resize g m (m_tail m) = Inr (m\<lparr>m_data := filled m\<rparr>)"
proof -
  have "to_size_t (m_tail m) = nat (m_tail m)" "nat (m_tail m) \<le> length (m_data m)"
    using assms by (auto simp: open_block_def msg_wf_def cint)
  then show ?thesis by (simp add: msg_resize_def vec_resize_def filled_def)
qed

lemma set_msg_simps [simp]:
  "set_msg (Some k) m c = c\<lparr>co_msgs := (co_msgs c)[k := m]\<rparr>"
  "msg_at (Some k) (c\<lparr>co_msgs := ms\<rparr>) = deref ms k"
  by (simp_all add: set_msg_def msg_at_def)

text \<open>The current block of a next hop is replaced by \<open>m\<close> and handed out.\<close>

lemma hand_out:
  assumes ok: "bats_ok L cap" and wf: "collector_wf L cap c"
    and h: "map_of (co_bats_buffer_map c) h = Some p" and k: "buf_of L c p = Some k"
  obtains c' where "ResetBuf_at L p (c\<lparr>co_msgs := (co_msgs c)[k := m]\<rparr>) = Inr c'" "collector_wf L cap c'"
    "pending_of L c' = (pending_of L c)(h := [])" "co_msgs c' ! k = m" "k < length (co_msgs c')"
    "co_bats_buffer_map c' = co_bats_buffer_map c" "same_config c c'" "buf_of L c' p = Some (length (co_msgs c))"
    "fresh_block L (co_max_block_size c) (co_msgs c' ! length (co_msgs c))" "length (co_msgs c') = Suc (length (co_msgs c))"
    "\<forall>j<length (co_msgs c). j \<noteq> k \<longrightarrow> co_msgs c' ! j = co_msgs c ! j"
proof -
  have kl: "k < length (co_msgs c)" by (rule msg_at_wf(2) [OF wf h k])
  have same: "(co_msgs c)[k := m] ! j = co_msgs c ! j" if "buf_of L c p \<noteq> Some j" for j
    using that k by auto
  obtain c' where c': "ResetBuf_at L p (c\<lparr>co_msgs := (co_msgs c)[k := m]\<rparr>) = Inr c'" "collector_wf L cap c'"
      "buf_of L c' p = Some (length (co_msgs c))"
      "fresh_block L (co_max_block_size c) (co_msgs c' ! length (co_msgs c))"
      "\<And>j. j < length (co_msgs c) \<Longrightarrow> co_msgs c' ! j = (co_msgs c)[k := m] ! j"
      "length (co_msgs c') = Suc (length (co_msgs c))" "co_bats_buffer_map c' = co_bats_buffer_map c"
      "pending_of L c' = (pending_of L c)(h := [])" "same_config c c'"
    using ResetBuf_at_ok [OF ok wf h, of "(co_msgs c)[k := m]"] same by (metis length_list_update)
  then show ?thesis using kl by (intro that [of c']) auto
qed

lemma cut_and_hand_out:
  assumes ok: "bats_ok L cap" and wf: "collector_wf L cap c"
    and h: "map_of (co_bats_buffer_map c) h = Some p" and k: "buf_of L c p = Some k"
  obtains c' c1 where "cut_block L (Some k) c = Inr c1" "ResetBuf_at L p c1 = Inr c'" "collector_wf L cap c'"
    "pending_of L c' = (pending_of L c)(h := [])" "block_of L c' (Some k) = Coded (pending_of L c h)"
    "k < length (co_msgs c')" "co_bats_buffer_map c' = co_bats_buffer_map c" "same_config c c'"
    "buf_of L c' p = Some (length (co_msgs c))" "length (co_msgs c') = Suc (length (co_msgs c))"
    "fresh_block L (co_max_block_size c) (co_msgs c' ! length (co_msgs c))"
proof -
  note at = msg_at_wf [OF wf h k]
  let ?m = "(co_msgs c ! k)\<lparr>m_data := filled (co_msgs c ! k)\<rparr>"
  let ?c = "c\<lparr>co_msgs := (co_msgs c)[k := ?m]\<rparr>"
  have cut: "cut_block L (Some k) c = Inr ?c"
    using at cut_open [OF at(3)] by (simp add: cut_block_def bats_ok_simps [OF ok])
  obtain c' where c': "ResetBuf_at L p ?c = Inr c'" "collector_wf L cap c'"
      "pending_of L c' = (pending_of L c)(h := [])" "co_msgs c' ! k = ?m" "k < length (co_msgs c')"
      "co_bats_buffer_map c' = co_bats_buffer_map c" "same_config c c'" "buf_of L c' p = Some (length (co_msgs c))"
      "fresh_block L (co_max_block_size c) (co_msgs c' ! length (co_msgs c))" "length (co_msgs c') = Suc (length (co_msgs c))"
    by (rule hand_out [OF ok wf h k, of ?m])
  have "NeedCoded L ?m" using at(3) by (simp add: open_block_def NeedCoded_def)
  then have "block_of L c' (Some k) = Coded (pending_of L c h)"
    using c'(4) at(4) by (simp add: block_of_def Let_def)
  with cut c' show ?thesis by (intro that)
qed

definition fits32 :: "'e msg \<Rightarrow> bool" where
  "fits32 msg \<longleftrightarrow> length (m_data msg) < 2 ^ 31"

lemma msg_size_fits: "fits32 msg \<Longrightarrow> msg_size msg = int (length (m_data msg))"
  by (simp add: fits32_def msg_size_def cint int32_ok_def)

definition handed_ok :: "('e, 'b, 'r, 'f) Collector \<Rightarrow> nat option list \<Rightarrow> bool" where
  "handed_ok c qs \<longleftrightarrow> (\<forall>q\<in>set qs. \<exists>k. q = Some k \<and> k < length (co_msgs c))"

text \<open>Both ways to handle a packet begin by finding the block of the next hop.\<close>

lemma open_hop:
  assumes ok: "bats_ok L cap" and wf: "collector_wf L cap c"
  obtains p k c1 c' where "GetBatsBuffer L g h c = Inr (p, c1)" "open_buffer L p c1 = Inr (Some k, c')"
    "collector_wf L cap c'" "map_of (co_bats_buffer_map c') h = Some p" "buf_of L c' p = Some k"
    "pending_of L c' = pending_of L c" "same_config c c'"
proof -
  obtain p c1 where g: "GetBatsBuffer L g h c = Inr (p, c1)" "collector_wf L cap c1"
      "map_of (co_bats_buffer_map c1) h = Some p" "pending_of L c1 = pending_of L c" "same_config c c1"
    by (rule GetBatsBuffer_ok [OF ok wf])
  obtain k c' where o: "open_buffer L p c1 = Inr (Some k, c')" "collector_wf L cap c'" "buf_of L c' p = Some k"
      "co_bats_buffer_map c' = co_bats_buffer_map c1" "pending_of L c' = pending_of L c1" "same_config c1 c'"
    by (rule open_buffer_ok [OF ok g(2,3)])
  show ?thesis
    by (rule that [OF g(1) o(1,2) _ o(3) _ same_config_trans [OF g(5) o(6)]]) (simp_all add: o(4,5) g(3,4))
qed

lemma BufferingData_refines:
  assumes ok: "bats_ok L cap" and wf: "collector_wf L cap c"
    and fits: "int (length (pending_of L c h) + length (m_data msg)) \<le> co_max_block_size c"
  shows "\<exists>qs c'. BufferingData_locked L g msg h c = Inr (qs, c') \<and> collector_wf L cap c' \<and> same_config c c' \<and>
     handed_ok c' qs \<and> (map (block_of L c') qs, pending_of L c') =
       spec_buffer (co_coding_threshold c) h (m_data msg) (pending_of L c)"
proof -
  obtain p k c1 c2 where o: "GetBatsBuffer L g h c = Inr (p, c1)" "open_buffer L p c1 = Inr (Some k, c2)"
      "collector_wf L cap c2" "map_of (co_bats_buffer_map c2) h = Some p" "buf_of L c2 p = Some k"
      "pending_of L c2 = pending_of L c" "same_config c c2"
    by (rule open_hop [OF ok wf])
  have z: "co_max_block_size c2 = co_max_block_size c" "co_coding_threshold c2 = co_coding_threshold c"
    using o(7) by (simp_all add: same_config_def)
  note at = msg_at_wf [OF o(3,4,5)]
  let ?m = "co_msgs c2 ! k" and ?acc = "pending_of L c h @ m_data msg"
  have tail: "m_tail ?m = int (length (pending_of L c h))"
    using filled_length [OF at(3)] at(4) o(6) by simp
  have sz: "msg_size msg = int (length (m_data msg))" "msg_size ?m = co_max_block_size c"
      "add32 (m_tail ?m) (int (length (m_data msg))) = Inr (m_tail ?m + int (length (m_data msg)))"
    using fits at(3,5) tail z
    by (auto simp: msg_size_fits fits32_def int32_ok_def msg_size_def open_block_def cint)
  obtain m' where m': "fill ?m (m_data msg) (int (length (m_data msg))) = Inr m'"
      "open_block L (co_max_block_size c2) m'" "filled m' = filled ?m @ m_data msg"
    by (rule fill_open [OF at(3), of "m_data msg"]) (use at(5) fits tail z in auto)
  define c3 where "c3 = c2\<lparr>co_msgs := (co_msgs c2)[k := m']\<rparr>"
  have acc: "filled m' = ?acc" using m'(3) at(4) o(6) by simp
  have c: "collector_wf L cap c3" "pending_of L c3 = (pending_of L c)(h := ?acc)"
    using set_open_block [OF o(3,4,5) m'(2)] acc o(6) by (simp_all add: c3_def)
  have cfg: "same_config c c3" using o(7) by (simp add: c3_def same_config_def)
  have tail': "m_tail m' = int (length ?acc)" using filled_length [OF m'(2)] acc by simp
  have pre: "BufferingData_locked L g msg h c =
      (if int (length ?acc) > co_coding_threshold c
       then bindE (cut_block L (Some k) c3) (\<lambda>c7. bindE (ResetBuf_at L p c7) (\<lambda>c8. Inr ([Some k], c8)))
       else Inr ([], c3))"
    using at fits tail z sz m'(1) tail'
    by (simp add: BufferingData_locked_def o(1,2) bats_ok_simps [OF ok] fill_block_def c3_def)
  show ?thesis
  proof (cases "int (length ?acc) > co_coding_threshold c")
    case True
    have h: "map_of (co_bats_buffer_map c3) h = Some p" "buf_of L c3 p = Some k"
      using o(4,5) by (simp_all add: c3_def buf_of_def)
    show ?thesis
    proof (rule cut_and_hand_out [OF ok c(1) h])
      fix c8 c7
      assume "cut_block L (Some k) c3 = Inr c7" "ResetBuf_at L p c7 = Inr c8" "collector_wf L cap c8"
        "pending_of L c8 = (pending_of L c3)(h := [])" "block_of L c8 (Some k) = Coded (pending_of L c3 h)"
        "k < length (co_msgs c8)" "same_config c3 c8"
      then show ?thesis
        using pre True c(2) same_config_trans [OF cfg, of c8]
        by (intro exI [of _ "[Some k]"] exI [of _ c8]) (simp add: spec_buffer_def Let_def handed_ok_def)
    qed
  next
    case False
    then show ?thesis
      using pre c cfg by (intro exI [of _ "[]"] exI [of _ c3]) (simp add: spec_buffer_def Let_def handed_ok_def)
  qed
qed

lemma HandleTimeoutBuffer_refines:
  assumes ok: "bats_ok L cap" and wf: "collector_wf L cap c"
    and a: "map_of (co_tbufs c) a = Some p" and h: "map_of (co_bats_buffer_map c) h = Some p"
  shows "\<exists>qs c'. HandleTimeoutBuffer_locked L a c = Inr (qs, c') \<and> collector_wf L cap c' \<and> same_config c c' \<and>
     handed_ok c' qs \<and> (map (block_of L c') qs, pending_of L c') = spec_timeout h (pending_of L c)"
proof (cases "buf_of L c p")
  case None
  then have "HandleTimeoutBuffer_locked L a c = Inr ([], c)" "pending_of L c h = []"
    using a h wf_hop [OF wf h]
    by (simp_all add: HandleTimeoutBuffer_locked_def GetBuf_at_def buf_of_def pending_of_def pending_at_def)
  then show ?thesis using wf by (simp add: spec_timeout_def handed_ok_def)
next
  case (Some k)
  note at = msg_at_wf [OF wf h Some]
  have tail: "m_tail (co_msgs c ! k) = int (length (pending_of L c h))"
    using filled_length [OF at(3)] at(4) by simp
  have pre: "HandleTimeoutBuffer_locked L a c =
      (if pending_of L c h = [] then Inr ([], c)
       else bindE (cut_block L (Some k) c) (\<lambda>c1. bindE (ResetBuf_at L p c1) (\<lambda>c2. Inr ([Some k], c2))))"
    using a Some wf_hop [OF wf h] at(1) tail
    by (simp add: HandleTimeoutBuffer_locked_def GetBuf_at_def buf_of_def bats_ok_simps [OF ok])
  show ?thesis
  proof (cases "pending_of L c h = []")
    case True
    then show ?thesis using pre wf by (simp add: spec_timeout_def handed_ok_def)
  next
    case False
    show ?thesis
    proof (rule cut_and_hand_out [OF ok wf h Some])
      fix c2 c1
      assume "cut_block L (Some k) c = Inr c1" "ResetBuf_at L p c1 = Inr c2" "collector_wf L cap c2"
        "pending_of L c2 = (pending_of L c)(h := [])" "block_of L c2 (Some k) = Coded (pending_of L c h)"
        "k < length (co_msgs c2)" "same_config c c2"
      then show ?thesis using pre False
        by (intro exI [of _ "[Some k]"] exI [of _ c2]) (simp add: spec_timeout_def handed_ok_def)
    qed
  qed
qed

text \<open>A raw packet in a fresh block: behind the room for the header, and not to be coded.\<close>

lemma raw_packet:
  assumes ok: "bats_ok L cap" and m: "fresh_block L z m" and "size_ok32 z"
    and fits: "L_PROTOCOL_OVERHEAD L + int (length (m_data msg)) \<le> z"
  obtains m2 m3 m4 where "reserveHeader m (L_PROTOCOL_OVERHEAD L) = Inr (True, m2)"
    "fill m2 (m_data msg) (msg_size msg) = Inr m3" "msg_resize g m3 (L_FilledBytes L m3) = Inr m4"
    "m_data m4 = take (nat (L_PROTOCOL_OVERHEAD L)) (m_data m) @ m_data msg"
proof -
  let ?o = "L_PROTOCOL_OVERHEAD L" and ?n = "length (m_data msg)"
  let ?m2 = "m\<lparr>m_curr := ?o, m_tail := ?o\<rparr>"
  let ?d = "take (nat ?o) (m_data m) @ m_data msg"
  let ?m3 = "?m2\<lparr>m_data := ?d @ drop (nat ?o + ?n) (m_data m), m_tail := ?o + int ?n\<rparr>"
  have o: "0 \<le> ?o" by (rule bats_ok_simps(1) [OF ok])
  have wf: "msg_wf m" "int (length (m_data m)) = z" "m_curr m = 0" "m_tail m = 0" "length (m_data m) \<le> m_cap m"
    using m by (auto simp: fresh_block_def msg_wf_def)
  have i: "int32_ok ?o" "int32_ok (?o + int ?n)" using o fits assms(3) by (auto simp: int32_ok_def)
  have r: "reserveHeader m ?o = Inr (True, ?m2)"
    using reserveHeader_accept [OF wf(1) o] wf i fits by simp
  have wf2: "msg_wf ?m2" by (rule msg_wf_reserveHeader [OF wf(1) i(1) r])
  have "msg_size msg = int ?n" using i(2) o by (simp add: msg_size_fits fits32_def int32_ok_def)
  then have f: "fill ?m2 (m_data msg) (msg_size msg) = Inr ?m3"
    using fill_within [OF wf2, of "m_data msg"] wf fits i by simp
  have "to_size_t (?o + int ?n) = nat ?o + ?n" using i o by (simp add: cint nat_add_distrib)
  moreover have "nat ?o + ?n \<le> length (m_data m)" using fits wf(2) o by simp
  ultimately have "msg_resize g ?m3 (L_FilledBytes L ?m3) = Inr (?m3\<lparr>m_data := ?d\<rparr>)"
    using o by (simp add: bats_ok_simps [OF ok] msg_resize_def vec_resize_def)
  then show ?thesis by (rule that [OF r f]) simp
qed

text \<open>The first part of \<open>ForceRelayData\<close>: what is pending goes out first.\<close>

lemma flush_block:
  assumes ok: "bats_ok L cap" and wf: "collector_wf L cap c"
    and h: "map_of (co_bats_buffer_map c) h = Some p" and k: "buf_of L c p = Some k"
  shows "\<exists>qs j c'. (if L_FilledBytes L (co_msgs c ! k) > 0
            then bindE (cut_block L (Some k) c) (\<lambda>c3.
                 bindE (ResetBuf_at L p c3) (\<lambda>c4.
                 bindE (GetBuf_at L p c4) (\<lambda>buffer'. Inr ([Some k], buffer', c4))))
            else Inr ([], Some k, c)) = Inr (qs, Some j, c') \<and> collector_wf L cap c' \<and> same_config c c' \<and>
     map_of (co_bats_buffer_map c') h = Some p \<and> buf_of L c' p = Some j \<and>
     fresh_block L (co_max_block_size c) (co_msgs c' ! j) \<and> handed_ok c' qs \<and> Some j \<notin> set qs \<and>
     (map (block_of L c') qs, pending_of L c') = spec_timeout h (pending_of L c)"
proof -
  note at = msg_at_wf [OF wf h k]
  have tail: "L_FilledBytes L (co_msgs c ! k) = int (length (pending_of L c h))"
    using filled_length [OF at(3)] at(4) by (simp add: bats_ok_simps [OF ok])
  show ?thesis
  proof (cases "pending_of L c h = []")
    case True
    then have "fresh_block L (co_max_block_size c) (co_msgs c ! k)"
      using at(3) tail by (simp add: bats_ok_simps [OF ok] open_block_def fresh_block_def)
    then show ?thesis
      using True tail wf h k by (simp add: spec_timeout_def handed_ok_def)
  next
    case False
    show ?thesis
    proof (rule cut_and_hand_out [OF ok wf h k])
      fix c4 c3
      assume a: "cut_block L (Some k) c = Inr c3" "ResetBuf_at L p c3 = Inr c4" "collector_wf L cap c4"
        "pending_of L c4 = (pending_of L c)(h := [])" "block_of L c4 (Some k) = Coded (pending_of L c h)"
        "k < length (co_msgs c4)" "co_bats_buffer_map c4 = co_bats_buffer_map c" "same_config c c4"
        "buf_of L c4 p = Some (length (co_msgs c))" "length (co_msgs c4) = Suc (length (co_msgs c))"
        "fresh_block L (co_max_block_size c) (co_msgs c4 ! length (co_msgs c))"
      have "GetBuf_at L p c4 = Inr (Some (length (co_msgs c)))"
        using wf_hop [OF a(3), of h p] a(7,9) h by (simp add: GetBuf_at_def buf_of_def)
      then show ?thesis
        using a False tail at(2) h
        by (intro exI [of _ "[Some k]"] exI [of _ "length (co_msgs c)"] exI [of _ c4])
           (simp add: spec_timeout_def handed_ok_def)
    qed
  qed
qed

lemma ForceRelayData_refines:
  assumes ok: "bats_ok L cap" and wf: "collector_wf L cap c"
    and fits: "L_PROTOCOL_OVERHEAD L + int (length (m_data msg)) \<le> co_max_block_size c"
  shows "\<exists>qs c'. ForceRelayData_locked L g msg h c = Inr (qs, c') \<and> collector_wf L cap c' \<and> same_config c c' \<and>
     handed_ok c' qs \<and> (map (block_of L c') qs, pending_of L c') = spec_relay h (m_data msg) (pending_of L c)"
proof -
  obtain p k c1 c2 where o: "GetBatsBuffer L g h c = Inr (p, c1)" "open_buffer L p c1 = Inr (Some k, c2)"
      "collector_wf L cap c2" "map_of (co_bats_buffer_map c2) h = Some p" "buf_of L c2 p = Some k"
      "pending_of L c2 = pending_of L c" "same_config c c2"
    by (rule open_hop [OF ok wf])
  note at = msg_at_wf [OF o(3,4,5)]
  from flush_block [OF ok o(3,4,5)] obtain qs j c5 where f:
      "(if L_FilledBytes L (co_msgs c2 ! k) > 0
        then bindE (cut_block L (Some k) c2) (\<lambda>c3. bindE (ResetBuf_at L p c3) (\<lambda>c4.
             bindE (GetBuf_at L p c4) (\<lambda>buffer'. Inr ([Some k], buffer', c4))))
        else Inr ([], Some k, c2)) = Inr (qs, Some j, c5)"
      "collector_wf L cap c5" "same_config c2 c5" "map_of (co_bats_buffer_map c5) h = Some p"
      "buf_of L c5 p = Some j" "fresh_block L (co_max_block_size c2) (co_msgs c5 ! j)" "handed_ok c5 qs"
      "Some j \<notin> set qs" "(map (block_of L c5) qs, pending_of L c5) = spec_timeout h (pending_of L c)"
    unfolding o(6) by blast
  have z: "co_max_block_size c2 = co_max_block_size c" "size_ok32 (co_max_block_size c)"
    using o(7) at(5) by (simp_all add: same_config_def)
  note at5 = msg_at_wf [OF f(2,4,5)]
  obtain m2 m3 m4 where r: "reserveHeader (co_msgs c5 ! j) (L_PROTOCOL_OVERHEAD L) = Inr (True, m2)"
      "fill m2 (m_data msg) (msg_size msg) = Inr m3" "msg_resize (L_growth L) m3 (L_FilledBytes L m3) = Inr m4"
      "m_data m4 = take (nat (L_PROTOCOL_OVERHEAD L)) (m_data (co_msgs c5 ! j)) @ m_data msg"
    by (rule raw_packet [OF ok f(6), where msg = msg and g = "L_growth L"]) (use z fits in auto)
  let ?m = "BaseMsg.more_update (L_set_NeedCoded L False) m4"
  obtain c' where c': "ResetBuf_at L p (c5\<lparr>co_msgs := (co_msgs c5)[j := ?m]\<rparr>) = Inr c'" "collector_wf L cap c'"
      "pending_of L c' = (pending_of L c5)(h := [])" "co_msgs c' ! j = ?m" "j < length (co_msgs c')"
      "co_bats_buffer_map c' = co_bats_buffer_map c5" "same_config c5 c'" "buf_of L c' p = Some (length (co_msgs c5))"
      "fresh_block L (co_max_block_size c5) (co_msgs c' ! length (co_msgs c5))"
      "length (co_msgs c') = Suc (length (co_msgs c5))"
      "\<forall>i<length (co_msgs c5). i \<noteq> j \<longrightarrow> co_msgs c' ! i = co_msgs c5 ! i"
    by (rule hand_out [OF ok f(2,4,5), of ?m])
  have "ForceRelayData_locked L g msg h c = Inr (qs @ [Some j], c')"
    using c'(1) r at5(1,2) at(1)
    by (simp add: ForceRelayData_locked_def o(1,2) f(1) fill_block_def cut_block_def)
  moreover have "nat (L_PROTOCOL_OVERHEAD L) \<le> length (m_data (co_msgs c5 ! j))"
    using f(6) z fits by (simp add: fresh_block_def nat_le_iff)
  then have "block_of L c' (Some j) = Raw (m_data msg)"
    using c'(4) r(4) by (simp add: block_of_def NeedCoded_def bats_ok_simps [OF ok] Let_def)
  moreover have "co_msgs c' ! the q = co_msgs c5 ! the q" if q: "q \<in> set qs" for q
  proof -
    obtain i where "q = Some i" "i < length (co_msgs c5)" using q f(7) by (auto simp: handed_ok_def)
    then show ?thesis using q f(8) c'(11) by auto
  qed
  then have "map (block_of L c') qs = map (block_of L c5) qs" by (simp add: block_of_def)
  moreover have "handed_ok c' (qs @ [Some j])" using f(7) c'(5,10) by (auto simp: handed_ok_def)
  moreover have "(pending_of L c5)(h := []) = pending_of L c5"
    using at5(4) fresh_open [OF f(6)] z by (simp add: fun_upd_idem)
  moreover have "same_config c c'"
    using o(7) f(3) c'(7) by (blast intro: same_config_trans)
  ultimately show ?thesis
    using c'(2,3) f(9) by (intro exI [of _ "qs @ [Some j]"] exI [of _ c']) (auto simp: spec_relay_def split: prod.splits)
qed

end
