(* ===== verification/Collector_System.thy ===== *)
theory Collector_System
  imports Collector_Stream
begin

text \<open>
  The collector among its threads: several workers handle packets, the worker of the timer service
  handles expired blocks, and the timer service ticks. The locked parts of the operations are atomic
  steps of \<open>collector_step\<close>, which also records what came in and what was handed out for each
  next hop. The packets are at most \<open>mtu\<close> bytes long.
\<close>

section \<open>Model\<close>

record ('e, 'b, 'r, 'f) collector_sys =
  cs_c :: "('e, 'b, 'r, 'f) Collector"
  cs_in :: "(string \<times> u8 list) list"
  cs_out :: "(string \<times> block) list"

definition handed :: "('e, 'b, 'r, 'f) bats_library \<Rightarrow> string \<Rightarrow> ('e, 'b, 'r, 'f) Collector \<Rightarrow> nat option list \<Rightarrow>
    (string \<times> block) list" where
  "handed L h c qs = map (\<lambda>q. (h, block_of L c q)) qs"

inductive collector_step ::
    "('e, 'b, 'r, 'f) bats_library \<Rightarrow> int \<Rightarrow> ('e, 'b, 'r, 'f) collector_sys \<Rightarrow> ('e, 'b, 'r, 'f) collector_sys \<Rightarrow> bool"
  for L :: "('e, 'b, 'r, 'f) bats_library" and mtu :: int where
  buffering: "int (length (m_data msg)) \<le> mtu \<Longrightarrow> BufferingData_locked L g msg h (cs_c s) = Inr (qs, c') \<Longrightarrow>
     collector_step L mtu s (s\<lparr>cs_c := c', cs_in := cs_in s @ [(h, m_data msg)],
                               cs_out := cs_out s @ handed L h c' qs\<rparr>)"
| relaying: "int (length (m_data msg)) \<le> mtu \<Longrightarrow> ForceRelayData_locked L g msg h (cs_c s) = Inr (qs, c') \<Longrightarrow>
     collector_step L mtu s (s\<lparr>cs_c := c', cs_in := cs_in s @ [(h, m_data msg)],
                               cs_out := cs_out s @ handed L h c' qs\<rparr>)"
| timeout: "map_of (co_tbufs (cs_c s)) a = Some p \<Longrightarrow> map_of (co_bats_buffer_map (cs_c s)) h = Some p \<Longrightarrow>
     HandleTimeoutBuffer_locked L a (cs_c s) = Inr (qs, c') \<Longrightarrow>
     collector_step L mtu s (s\<lparr>cs_c := c', cs_out := cs_out s @ handed L h c' qs\<rparr>)"
| ticking: "timer_step l t t' \<Longrightarrow> co_timeout_mgr (cs_c s) = Some (ts_m t) \<Longrightarrow>
     collector_step L mtu s (s\<lparr>cs_c := (cs_c s)\<lparr>co_timeout_mgr := Some (ts_m t')\<rparr>\<rparr>)"
| dispatching: "collector_step L mtu s (s\<lparr>cs_c := (cs_c s)\<lparr>co_udp_channel := u, co_encode_channles := e,
     co_dispath_chn_init := i, co_flow_r := fl\<rparr>\<rparr>)"

definition collector_start :: "('e, 'b, 'r, 'f) Collector \<Rightarrow> ('e, 'b, 'r, 'f) collector_sys" where
  "collector_start c = \<lparr>cs_c = c, cs_in = [], cs_out = []\<rparr>"

section \<open>The invariant\<close>

definition packets_for :: "('e, 'b, 'r, 'f) collector_sys \<Rightarrow> string \<Rightarrow> u8 list list" where
  "packets_for s h = map snd (filter (\<lambda>x. fst x = h) (cs_in s))"

definition blocks_for :: "('e, 'b, 'r, 'f) collector_sys \<Rightarrow> string \<Rightarrow> block list" where
  "blocks_for s h = map snd (filter (\<lambda>x. fst x = h) (cs_out s))"

definition room_ok :: "('e, 'b, 'r, 'f) bats_library \<Rightarrow> int \<Rightarrow> ('e, 'b, 'r, 'f) Collector \<Rightarrow> bool" where
  "room_ok L mtu c \<longleftrightarrow> size_ok32 (co_max_block_size c) \<and>
     max 0 (co_coding_threshold c) + mtu \<le> co_max_block_size c \<and>
     L_PROTOCOL_OVERHEAD L + mtu \<le> co_max_block_size c"

text \<open>The blocks are made of whole consecutive packets, and so are the pending bytes.\<close>

definition grouped :: "u8 list list \<Rightarrow> u8 list \<Rightarrow> u8 list list \<Rightarrow> bool" where
  "grouped blocks rest packets \<longleftrightarrow> (\<exists>gs r. blocks = map concat gs \<and> rest = concat r \<and> packets = concat gs @ r \<and> [] \<notin> set gs)"

lemma grouped_add: "grouped B p P \<Longrightarrow> grouped B (p @ x) (P @ [x])"
  unfolding grouped_def by (metis append.assoc concat.simps concat_append append_Nil2)

lemma grouped_cut: "grouped B p P \<Longrightarrow> p \<noteq> [] \<Longrightarrow> grouped (B @ [p]) [] P"
  unfolding grouped_def
  by (elim exE conjE, rule_tac x = "gs @ [r]" in exI, rule_tac x = "[]" in exI) auto

lemma grouped_add_cut: "grouped B p P \<Longrightarrow> grouped (B @ [p @ x]) [] (P @ [x])"
  unfolding grouped_def
  by (elim exE conjE, rule_tac x = "gs @ [r @ [x]]" in exI, rule_tac x = "[]" in exI) auto

lemma grouped_Nil: "grouped [] [] []"
  unfolding grouped_def by (rule exI [of _ "[]"]) simp

fun block_within :: "int \<Rightarrow> int \<Rightarrow> block \<Rightarrow> bool" where
  "block_within threshold mtu (Coded xs) \<longleftrightarrow> int (length xs) \<le> max 0 threshold + mtu"
| "block_within threshold mtu (Raw xs) \<longleftrightarrow> int (length xs) \<le> mtu"

definition stream_ok :: "('e, 'b, 'r, 'f) bats_library \<Rightarrow> int \<Rightarrow> ('e, 'b, 'r, 'f) collector_sys \<Rightarrow> bool" where
  "stream_ok L mtu s \<longleftrightarrow> (\<forall>h.
     grouped (map block_bytes (blocks_for s h)) (pending_of L (cs_c s) h) (packets_for s h) \<and>
     int (length (pending_of L (cs_c s) h)) \<le> max 0 (co_coding_threshold (cs_c s)) \<and>
     (\<forall>b\<in>set (blocks_for s h). block_within (co_coding_threshold (cs_c s)) mtu b))"

definition collector_inv ::
    "('e, 'b, 'r, 'f) bats_library \<Rightarrow> ('b \<Rightarrow> int) \<Rightarrow> int \<Rightarrow> ('e, 'b, 'r, 'f) collector_sys \<Rightarrow> bool" where
  "collector_inv L cap mtu s \<longleftrightarrow>
     bats_ok L cap \<longrightarrow> room_ok L mtu (cs_c s) \<and> collector_wf L cap (cs_c s) \<and> stream_ok L mtu s"

lemma room_ok_same: "same_config c c' \<Longrightarrow> room_ok L mtu c \<Longrightarrow> room_ok L mtu c'"
  by (simp add: room_ok_def same_config_def)

lemma logs [simp]: "packets_for (s\<lparr>cs_c := c\<rparr>) = packets_for s" "blocks_for (s\<lparr>cs_c := c\<rparr>) = blocks_for s"
  by (simp_all add: packets_for_def blocks_for_def fun_eq_iff)

text \<open>One step of the abstract collector keeps the streams.\<close>

lemma stream_extend:
  assumes "stream_ok L mtu s" and "same_config (cs_c s) (cs_c t)"
    and "packets_for t = (packets_for s)(h := packets_for s h @ ps)" and "blocks_for t = (blocks_for s)(h := blocks_for s h @ bl)"
    and "pending_of L (cs_c t) = (pending_of L (cs_c s))(h := r)"
    and "grouped (map block_bytes (blocks_for s h @ bl)) r (packets_for s h @ ps)"
    and "int (length r) \<le> max 0 (co_coding_threshold (cs_c s))"
    and "\<forall>b\<in>set bl. block_within (co_coding_threshold (cs_c s)) mtu b"
  shows "stream_ok L mtu t"
  using assms by (auto simp: stream_ok_def same_config_def)

lemma stream_hop:
  assumes "stream_ok L mtu s"
  shows "grouped (map block_bytes (blocks_for s h)) (pending_of L (cs_c s) h) (packets_for s h)"
    and "int (length (pending_of L (cs_c s) h)) \<le> max 0 (co_coding_threshold (cs_c s))"
  using assms by (simp_all add: stream_ok_def)

lemma logs_step:
  "packets_for (s\<lparr>cs_c := c', cs_in := cs_in s @ [(h, bs)], cs_out := x\<rparr>) = (packets_for s)(h := packets_for s h @ [bs])"
  "blocks_for (s\<lparr>cs_c := c', cs_in := i, cs_out := cs_out s @ handed L h c' qs\<rparr>) =
     (blocks_for s)(h := blocks_for s h @ map (block_of L c') qs)"
  "blocks_for (s\<lparr>cs_c := c', cs_out := cs_out s @ handed L h c' qs\<rparr>) =
     (blocks_for s)(h := blocks_for s h @ map (block_of L c') qs)"
  "packets_for (s\<lparr>cs_c := c', cs_out := x\<rparr>) = packets_for s"
  by (auto simp: packets_for_def blocks_for_def handed_def fun_eq_iff filter_map o_def filter_empty_conv)

lemma timer_step_frame:
  "timer_step l s t \<Longrightarrow> tm_resolution (ts_m t) = tm_resolution (ts_m s) \<and>
     length (tm_heap (ts_m t)) = length (tm_heap (ts_m s))"
  by (erule timer_stepE)
     (auto simp: tick_once_def visit_timer_def advance_def AddTimer_def AddOneshotTimer_def CancelTimer_def
        TimerManager_Stop_def put_timer_def Let_def split: if_splits option.splits sum.splits prod.splits)

lemma collector_wf_frame:
  assumes "collector_wf L cap c" and "co_timeout_mgr c = Some tm" and "tm_resolution tm' = tm_resolution tm"
    and "length (tm_heap tm') = length (tm_heap tm)"
  shows "collector_wf L cap (c\<lparr>co_timeout_mgr := Some tm'\<rparr>)"
    and "collector_wf L cap (c\<lparr>co_udp_channel := u, co_encode_channles := e, co_dispath_chn_init := i, co_flow_r := fl\<rparr>)"
  using assms by (auto simp: collector_wf_def buf_of_def)

lemma pending_frame:
  "pending_of L (c\<lparr>co_timeout_mgr := x\<rparr>) = pending_of L c"
  "pending_of L (c\<lparr>co_udp_channel := u, co_encode_channles := e, co_dispath_chn_init := i, co_flow_r := fl\<rparr>) = pending_of L c"
  by (auto simp: fun_eq_iff pending_of_def pending_at_def buf_of_def split: option.splits)

lemma buffering_inv:
  assumes ok: "bats_ok L cap" and inv: "room_ok L mtu (cs_c s)" "collector_wf L cap (cs_c s)" "stream_ok L mtu s"
    and small: "int (length (m_data msg)) \<le> mtu"
  shows "\<exists>qs c'. BufferingData_locked L g msg h (cs_c s) = Inr (qs, c') \<and> room_ok L mtu c' \<and> collector_wf L cap c' \<and>
    stream_ok L mtu (s\<lparr>cs_c := c', cs_in := cs_in s @ [(h, m_data msg)], cs_out := cs_out s @ handed L h c' qs\<rparr>)"
proof -
  let ?st = "pending_of L (cs_c s)" and ?thr = "co_coding_threshold (cs_c s)"
  note hop = stream_hop [OF inv(3), of h]
  have fits: "int (length (?st h) + length (m_data msg)) \<le> co_max_block_size (cs_c s)"
    using inv(1) small hop(2) by (simp add: room_ok_def)
  obtain qs c' where b: "BufferingData_locked L g msg h (cs_c s) = Inr (qs, c')" "collector_wf L cap c'"
      "same_config (cs_c s) c'" "(map (block_of L c') qs, pending_of L c') = spec_buffer ?thr h (m_data msg) ?st"
    using BufferingData_refines [OF ok inv(2) fits] by blast
  let ?t = "s\<lparr>cs_c := c', cs_in := cs_in s @ [(h, m_data msg)], cs_out := cs_out s @ handed L h c' qs\<rparr>"
  have "stream_ok L mtu ?t"
  proof (cases "int (length (?st h @ m_data msg)) > ?thr")
    case True
    then have "map (block_of L c') qs = [Coded (?st h @ m_data msg)]" "pending_of L c' = ?st(h := [])"
      using b(4) by (simp_all add: spec_buffer_def Let_def)
    then show ?thesis
      using b(3) hop(2) small grouped_add_cut [OF hop(1), of "m_data msg"]
      by (intro stream_extend [OF inv(3), where h = h and ps = "[m_data msg]" and bl = "map (block_of L c') qs" and r = "[]"])
         (simp_all add: logs_step)
  next
    case False
    then have "map (block_of L c') qs = []" "pending_of L c' = ?st(h := ?st h @ m_data msg)"
      using b(4) by (simp_all add: spec_buffer_def Let_def)
    then show ?thesis
      using b(3) False grouped_add [OF hop(1), of "m_data msg"]
      by (intro stream_extend [OF inv(3), where h = h and ps = "[m_data msg]" and bl = "[]" and r = "?st h @ m_data msg"])
         (simp_all add: logs_step)
  qed
  with b room_ok_same [OF b(3) inv(1)] show ?thesis by blast
qed

lemma relaying_inv:
  assumes ok: "bats_ok L cap" and inv: "room_ok L mtu (cs_c s)" "collector_wf L cap (cs_c s)" "stream_ok L mtu s"
    and small: "int (length (m_data msg)) \<le> mtu"
  shows "\<exists>qs c'. ForceRelayData_locked L g msg h (cs_c s) = Inr (qs, c') \<and> room_ok L mtu c' \<and> collector_wf L cap c' \<and>
    stream_ok L mtu (s\<lparr>cs_c := c', cs_in := cs_in s @ [(h, m_data msg)], cs_out := cs_out s @ handed L h c' qs\<rparr>)"
proof -
  let ?st = "pending_of L (cs_c s)"
  let ?bl = "(if ?st h = [] then [] else [Coded (?st h)]) @ [Raw (m_data msg)]"
  have fits: "L_PROTOCOL_OVERHEAD L + int (length (m_data msg)) \<le> co_max_block_size (cs_c s)"
    using inv(1) small by (simp add: room_ok_def)
  obtain qs c' where b: "ForceRelayData_locked L g msg h (cs_c s) = Inr (qs, c')" "collector_wf L cap c'"
      "same_config (cs_c s) c'" "(map (block_of L c') qs, pending_of L c') = spec_relay h (m_data msg) ?st"
    using ForceRelayData_refines [OF ok inv(2) fits] by blast
  have out: "map (block_of L c') qs = ?bl" "pending_of L c' = ?st(h := [])"
    using b(4) by (auto simp: spec_relay_def spec_timeout_def split: if_splits)
  note hop = stream_hop [OF inv(3), of h]
  have "grouped (map block_bytes (blocks_for s h @ ?bl)) [] (packets_for s h @ [m_data msg])"
    using hop(1) grouped_add_cut [OF hop(1), of "m_data msg"]
      grouped_add_cut [OF grouped_cut [OF hop(1)], of "m_data msg"] by (cases "?st h = []") simp_all
  then have "stream_ok L mtu (s\<lparr>cs_c := c', cs_in := cs_in s @ [(h, m_data msg)], cs_out := cs_out s @ handed L h c' qs\<rparr>)"
    using b(3) out hop(2) small
    by (intro stream_extend [OF inv(3), where h = h and ps = "[m_data msg]" and bl = ?bl and r = "[]"])
       (auto simp: logs_step)
  with b room_ok_same [OF b(3) inv(1)] show ?thesis by blast
qed

lemma timeout_inv:
  assumes ok: "bats_ok L cap" and inv: "room_ok L mtu (cs_c s)" "collector_wf L cap (cs_c s)" "stream_ok L mtu s"
    and a: "map_of (co_tbufs (cs_c s)) a = Some p" "map_of (co_bats_buffer_map (cs_c s)) h = Some p" and mtu: "0 \<le> mtu"
  shows "\<exists>qs c'. HandleTimeoutBuffer_locked L a (cs_c s) = Inr (qs, c') \<and> room_ok L mtu c' \<and> collector_wf L cap c' \<and>
    stream_ok L mtu (s\<lparr>cs_c := c', cs_out := cs_out s @ handed L h c' qs\<rparr>)"
proof -
  let ?st = "pending_of L (cs_c s)"
  let ?bl = "if ?st h = [] then [] else [Coded (?st h)]"
  obtain qs c' where b: "HandleTimeoutBuffer_locked L a (cs_c s) = Inr (qs, c')" "collector_wf L cap c'"
      "same_config (cs_c s) c'" "(map (block_of L c') qs, pending_of L c') = spec_timeout h ?st"
    using HandleTimeoutBuffer_refines [OF ok inv(2) a] by blast
  have out: "map (block_of L c') qs = ?bl" "pending_of L c' = ?st(h := [])"
    using b(4) by (auto simp: spec_timeout_def fun_upd_idem split: if_splits)
  note hop = stream_hop [OF inv(3), of h]
  have "grouped (map block_bytes (blocks_for s h @ ?bl)) [] (packets_for s h @ [])"
    using hop(1) grouped_cut [OF hop(1)] by (cases "?st h = []") simp_all
  then have "stream_ok L mtu (s\<lparr>cs_c := c', cs_out := cs_out s @ handed L h c' qs\<rparr>)"
    using b(3) out hop(2) mtu
    by (intro stream_extend [OF inv(3), where h = h and ps = "[]" and bl = ?bl and r = "[]"])
       (auto simp: logs_step)
  with b room_ok_same [OF b(3) inv(1)] show ?thesis by blast
qed

lemma collector_inv_step:
  assumes "0 \<le> mtu" and "collector_inv L cap mtu s" and "collector_step L mtu s t"
  shows "collector_inv L cap mtu t"
  unfolding collector_inv_def
proof
  assume ok: "bats_ok L cap"
  then have inv: "room_ok L mtu (cs_c s)" "collector_wf L cap (cs_c s)" "stream_ok L mtu s"
    using assms(2) by (simp_all add: collector_inv_def)
  from assms(3) show "room_ok L mtu (cs_c t) \<and> collector_wf L cap (cs_c t) \<and> stream_ok L mtu t"
  proof cases
    case (buffering msg g h qs c')
    then show ?thesis using buffering_inv [OF ok inv, of msg g h] by auto
  next
    case (relaying msg g h qs c')
    then show ?thesis using relaying_inv [OF ok inv, of msg g h] by auto
  next
    case (timeout a p h qs c')
    then show ?thesis using timeout_inv [OF ok inv, of a p h] assms(1) by auto
  next
    case (ticking l u u')
    then show ?thesis
      using inv timer_step_frame [of l u u'] collector_wf_frame(1) [OF inv(2), of "ts_m u" "ts_m u'"]
      by (simp add: room_ok_def stream_ok_def pending_frame)
  next
    case (dispatching u e i fl)
    obtain tm where "co_timeout_mgr (cs_c s) = Some tm" using inv(2) by (auto simp: collector_wf_def)
    then show ?thesis
      using dispatching inv collector_wf_frame(2) [OF inv(2), of tm tm u e i fl]
      by (simp add: room_ok_def stream_ok_def pending_frame)
  qed
qed

interpretation collector: invariant_system "collector_step L mtu" "\<lambda>s. 0 \<le> mtu \<and> collector_inv L cap mtu s" for L cap mtu
  by unfold_locales (auto intro: collector_inv_step)

lemma collector_start_inv:
  assumes "Collector_Init L uuid f = Inr c" and "room_ok L mtu c"
  shows "collector_inv L cap mtu (collector_start c)"
  using assms
  by (auto simp: collector_inv_def Collector_Init_def collector_start_def collector_wf_def stream_ok_def
      packets_for_def blocks_for_def pending_of_def room_ok_def grouped_Nil StartAsThread_def InitThreadPool_def TimerManager_new_def)

lemma collector_reachable:
  assumes "bats_ok L cap" and "Collector_Init L uuid f = Inr c" and "0 \<le> mtu" and "room_ok L mtu c"
    and "(collector_step L mtu)\<^sup>*\<^sup>* (collector_start c) s"
  shows "room_ok L mtu (cs_c s)" and "collector_wf L cap (cs_c s)" and "stream_ok L mtu s"
proof -
  have "collector_inv L cap mtu s"
    using collector.reachable_inv [OF assms(5), of cap] collector_start_inv [OF assms(2,4), of cap] assms(3) by blast
  then show "room_ok L mtu (cs_c s)" "collector_wf L cap (cs_c s)" "stream_ok L mtu s"
    using assms(1) by (simp_all add: collector_inv_def)
qed

section \<open>Properties\<close>

text \<open>(C2) The collector loses, repeats, splits and reorders nothing: in every state that its threads can reach, for
  every next hop, the blocks handed out so far and the bytes that are pending are whole packets one
  after the other, and together they are the packets that came in, in the order in which the threads took
  the lock. A coded block exceeds the threshold by one packet at most, every packet is accepted, and so is
  every expiry. This holds if the packets (at most \<open>mtu\<close> bytes) fit the block beside the bytes that
  may be pending below the threshold and beside the header.\<close>

theorem collector_preserves_streams:
  assumes "bats_ok L cap" and "Collector_Init L uuid f = Inr c" and "0 \<le> mtu" and "room_ok L mtu c"
    and "(collector_step L mtu)\<^sup>*\<^sup>* (collector_start c) s"
  shows "(\<forall>h. (\<exists>groups rest. map block_bytes (blocks_for s h) = map concat groups \<and>
          pending_of L (cs_c s) h = concat rest \<and> packets_for s h = concat groups @ rest) \<and>
        (\<forall>b\<in>set (blocks_for s h). block_within (co_coding_threshold (cs_c s)) mtu b)) \<and>
     (\<forall>g msg h. int (length (m_data msg)) \<le> mtu \<longrightarrow>
        (\<exists>r. BufferingData_locked L g msg h (cs_c s) = Inr r) \<and> (\<exists>r. ForceRelayData_locked L g msg h (cs_c s) = Inr r)) \<and>
     (\<forall>a p h. map_of (co_tbufs (cs_c s)) a = Some p \<longrightarrow> map_of (co_bats_buffer_map (cs_c s)) h = Some p \<longrightarrow>
        (\<exists>r. HandleTimeoutBuffer_locked L a (cs_c s) = Inr r))"
proof -
  note inv = collector_reachable [OF assms]
  have "\<exists>groups rest. map block_bytes (blocks_for s h) = map concat groups \<and>
      pending_of L (cs_c s) h = concat rest \<and> packets_for s h = concat groups @ rest" for h
    using stream_hop(1) [OF inv(3), of h] unfolding grouped_def by blast
  then show ?thesis
    using inv(3) buffering_inv [OF assms(1) inv] relaying_inv [OF assms(1) inv] timeout_inv [OF assms(1) inv _ _ assms(3)]
    unfolding stream_ok_def by (intro conjI allI impI) blast+
qed


text \<open>(C40) A full block is not handled: when a packet does not fit into the current block any more, the
  collector hands the block out and starts a new one, but then writes the packet to the old block,
  which has just been cut to its filled length. The write is out of bounds, or the assertion in
  \<open>fill\<close> fails; the packet never gets into the new block.\<close>

theorem full_block_fails:
  assumes "bats_ok L cap" and "collector_wf L cap c" and "map_of (co_bats_buffer_map c) h = Some p"
    and "buf_of L c p = Some k" and "m_data msg \<noteq> []" and "length (m_data msg) < 2 ^ 30"
    and "co_max_block_size c < 2 ^ 30"
    and "co_max_block_size c < int (length (pending_of L c h) + length (m_data msg))"
  shows "BufferingData_locked L g msg h c = Inl OutOfBounds \<or> BufferingData_locked L g msg h c = Inl AssertionFailed"
proof -
  note at = msg_at_wf [OF assms(2-4)]
  let ?m = "co_msgs c ! k"
  have tail: "m_tail ?m = int (length (pending_of L c h))" using filled_length [OF at(3)] at(4) by simp
  have "fits32 msg" using assms(6) by (simp add: fits32_def)
  then have sz: "msg_size msg = int (length (m_data msg))" by (rule msg_size_fits)
  have bsz: "msg_size ?m = co_max_block_size c" using at(3,5) by (simp add: msg_size_def open_block_def cint)
  have le: "m_tail ?m \<le> co_max_block_size c" "0 \<le> m_tail ?m" using at(3) by (auto simp: open_block_def msg_wf_def)
  let ?m' = "?m\<lparr>m_data := filled ?m\<rparr>"
  have get: "GetBatsBuffer L g h c = Inr (p, c)" "open_buffer L p c = Inr (Some k, c)"
    using assms(3,4) wf_hop [OF assms(2,3)]
    by (simp_all add: GetBatsBuffer_def open_buffer_def GetBuf_at_def buf_of_def)
  have cut: "cut_block L (Some k) c = Inr (c\<lparr>co_msgs := (co_msgs c)[k := ?m']\<rparr>)"
    using at cut_open [OF at(3)] by (simp add: cut_block_def bats_ok_simps [OF assms(1)])
  obtain c' where c': "ResetBuf_at L p (c\<lparr>co_msgs := (co_msgs c)[k := ?m']\<rparr>) = Inr c'" "co_msgs c' ! k = ?m'"
      "k < length (co_msgs c')"
    using hand_out [OF assms(1-4), of ?m'] by metis
  have "int32_ok (m_tail ?m + int (length (m_data msg)))" using le assms(6,7) by (auto simp: int32_ok_def)
  moreover have "msg_wf ?m'"
    using at(3) by (auto simp: open_block_def msg_wf_def filled_def)
  moreover have "int (length (m_data ?m')) < m_tail ?m + int (length (m_data msg))"
    using filled_length [OF at(3)] assms(5) by simp
  ultimately have "fill ?m' (m_data msg) (int (length (m_data msg))) = Inl OutOfBounds \<or>
      fill ?m' (m_data msg) (int (length (m_data msg))) = Inl AssertionFailed"
    using fill_past_size [of ?m' "m_data msg"] fill_past_capacity [of ?m' "m_data msg"]
    by (cases "m_tail ?m + int (length (m_data msg)) \<le> int (m_cap ?m)") simp_all
  moreover have "add32 (m_tail ?m) (msg_size msg) = Inr (m_tail ?m + int (length (m_data msg)))"
    using calculation le assms(6,7) sz by (simp add: cint int32_ok_def)
  ultimately show ?thesis
    using c' sz bsz tail assms(8) at(1)
    by (auto simp: BufferingData_locked_def get cut fill_block_def msg_at_def bats_ok_simps [OF assms(1)])
qed

subsection \<open>Witnesses\<close>

text \<open>An instance of the interface: a message has one further member, the flag; a \<open>BatsBuffer\<close> is its block
  size and its current message.\<close>

definition demo_block :: "int \<Rightarrow> bool msg" where
  "demo_block z = BaseMsg.extend (blank_msg\<lparr>m_data := replicate (nat z) 0, m_cap := nat z\<rparr>) True"

definition demo_lib :: "(bool, int \<times> nat option, unit, unit) bats_library" where
  "demo_lib = \<lparr>L_growth = exact_growth, L_PROTOCOL_OVERHEAD = 2, L_RouteTable = (\<lambda>_. ()), L_LoadConfig = id,
     L_RouteMatch = (\<lambda>_ d. if d = 0 then [] else ''hop''), L_FlowRecoder = (), L_FlowUpdate = (\<lambda>f m. (f, m)),
     L_DstAddr = (\<lambda>m. Some (m_seq m)), L_NeedCoded = id, L_set_NeedCoded = (\<lambda>v _. v), L_FilledBytes = m_tail,
     L_BatsBuffer = (\<lambda>s n p z ms. ((z, None), ms)), L_GetBuf = snd,
     L_ResetBuf = (\<lambda>b ms. ((fst b, Some (length ms)), ms @ [demo_block (fst b)])),
     L_Name = (\<lambda>ch. q_name (c_queue ch))\<rparr>"

lemma demo_block_fresh: "size_ok32 z \<Longrightarrow> fresh_block demo_lib z (demo_block z)"
  by (simp add: fresh_block_def demo_block_def BaseMsg.defs blank_msg_def msg_wf_def NeedCoded_def demo_lib_def
      int32_ok_def vec_max_size_def nat_le_iff)

lemma demo_lib_ok: "bats_ok demo_lib fst"
  using demo_block_fresh unfolding bats_ok_def by (auto simp: demo_lib_def)

definition no_settings :: ini_file where
  "no_settings = \<lparr>f_content = [], f_readable = True, f_writable = True\<rparr>"

definition demo_packet :: "u8 list \<Rightarrow> bool msg" where
  "demo_packet bs = BaseMsg.extend (blank_msg\<lparr>m_data := bs, m_cap := length bs, m_seq := 1\<rparr>) True"

lemma demo_read: "read_ini [] [] = []"
  by (simp add: read_ini_def read_line_def trim_def)

lemma demo_init: "\<exists>c. Collector_Init demo_lib ''id'' no_settings = Inr c \<and> room_ok demo_lib 2048 c"
  by (simp add: Collector_Init_def int_setting_def string_setting_def getValue_def no_settings_def demo_read
      lookup_def StartAsThread_def InitThreadPool_def Queue_new_eq room_ok_def demo_lib_def int32_ok_def)

theorem collector_preserves_streams_witness:
  "\<exists>c s. Collector_Init demo_lib ''id'' no_settings = Inr c \<and>
     (collector_step demo_lib 2048)\<^sup>*\<^sup>* (collector_start c) s \<and> packets_for s ''hop'' = [[1, 2, 3]] \<and>
     (\<exists>groups rest. map block_bytes (blocks_for s ''hop'') = map concat groups \<and>
        pending_of demo_lib (cs_c s) ''hop'' = concat rest \<and> [[1, 2, 3]] = concat groups @ rest)"
proof -
  obtain c where c: "Collector_Init demo_lib ''id'' no_settings = Inr c" "room_ok demo_lib 2048 c"
    using demo_init by blast
  have "\<exists>r. BufferingData_locked demo_lib 0 (demo_packet [1, 2, 3]) ''hop'' (cs_c (collector_start c)) = Inr r"
    using collector_preserves_streams [OF demo_lib_ok c(1) _ c(2), of "collector_start c"]
    by (simp add: demo_packet_def BaseMsg.defs)
  then obtain qs c' where b: "BufferingData_locked demo_lib 0 (demo_packet [1, 2, 3]) ''hop'' (cs_c (collector_start c)) = Inr (qs, c')"
    by fastforce
  let ?s = "(collector_start c)\<lparr>cs_c := c', cs_in := cs_in (collector_start c) @ [(''hop'', m_data (demo_packet [1, 2, 3]))],
      cs_out := cs_out (collector_start c) @ handed demo_lib ''hop'' c' qs\<rparr>"
  have "collector_step demo_lib 2048 (collector_start c) ?s"
    by (rule collector_step.buffering [OF _ b]) (simp add: demo_packet_def BaseMsg.defs)
  then have step: "(collector_step demo_lib 2048)\<^sup>*\<^sup>* (collector_start c) ?s" by (rule r_into_rtranclp)
  have "packets_for ?s ''hop'' = [[1, 2, 3]]" by (simp add: packets_for_def collector_start_def demo_packet_def BaseMsg.defs)
  moreover have "\<exists>groups rest. map block_bytes (blocks_for ?s ''hop'') = map concat groups \<and>
      pending_of demo_lib (cs_c ?s) ''hop'' = concat rest \<and> packets_for ?s ''hop'' = concat groups @ rest"
    using collector_preserves_streams [OF demo_lib_ok c(1) _ c(2) step] by simp
  ultimately show ?thesis using c(1) step by (intro exI [of _ c] exI [of _ ?s]) simp
qed

text \<open>A collector with blocks of eight bytes, after a packet for each of two next hops.\<close>

definition small_settings :: ini_file where
  "small_settings = \<lparr>f_content = ''[coding]'' @ [newline] @ ''max_block_size=8'' @ [newline] @ ''encode_threshold=4'',
     f_readable = True, f_writable = True\<rparr>"

lemma small_read:
  "read_ini (f_content small_settings) [] = [(''coding.encode_threshold'', ''4''), (''coding.max_block_size'', ''8'')]"
  by code_simp

definition small_tm :: TimerManager where
  "small_tm = \<lparr>tm_heap = [], tm_timers = [], tm_tick = 0, tm_resolution = 5, tm_timeout = Some (timerq []),
     tm_workers = 2, tm_stop = False\<rparr>"

definition small_collector :: "(bool, int \<times> nat option, unit, unit) Collector" where
  "small_collector = \<lparr>co_max_block_size = 8, co_coding_threshold = 4, co_src_addr = ''10.0.0.1'',
     co_bats_buffer_map = [], co_timeout_mgr = Some small_tm, co_route_t = Some (), co_flow_r = Some (),
     co_udp_channel = None, co_encode_channles = [], co_dispath_chn_init = False,
     co_buffers = [], co_msgs = [], co_tbufs = []\<rparr>"

lemma small_init: "Collector_Init demo_lib ''id'' small_settings = Inr small_collector"
  by (simp add: Collector_Init_def int_setting_def string_setting_def getValue_def small_read lookup_def
      StartAsThread_def InitThreadPool_def Queue_new_eq int32_ok_def stoi_def isspace_def digit_value_def
      demo_lib_def small_collector_def small_tm_def)
     (simp add: small_settings_def TimerManager_new_def timerq_def worker_num_def)

lemma small_room: "room_ok demo_lib 4 small_collector"
  by (simp add: room_ok_def small_collector_def int32_ok_def demo_lib_def)

definition small_block :: "u8 \<Rightarrow> bool msg" where
  "small_block b = (demo_block 8)\<lparr>m_data := b # replicate 7 0, m_tail := 1\<rparr>"

definition one_hop :: "(bool, int \<times> nat option, unit, unit) Collector" where
  "one_hop = small_collector\<lparr>co_bats_buffer_map := [(''a'', 0)], co_buffers := [(8, Some 0)], co_msgs := [small_block 1],
     co_tbufs := [(0, 0)], co_timeout_mgr := Some (small_tm\<lparr>tm_heap := [Timer_new 0 15], tm_timers := [0]\<rparr>)\<rparr>"

definition two_hops :: "(bool, int \<times> nat option, unit, unit) Collector" where
  "two_hops = small_collector\<lparr>co_bats_buffer_map := [(''a'', 0), (''b'', 1)], co_buffers := [(8, Some 0), (8, Some 1)],
     co_msgs := [small_block 1, small_block 2], co_tbufs := [(0, 0), (1, 1)],
     co_timeout_mgr := Some (small_tm\<lparr>tm_heap := [Timer_new 0 15, Timer_new 0 15], tm_timers := [0, 1]\<rparr>)\<rparr>"

lemmas demo_eval = BufferingData_locked_def GetBatsBuffer_def open_buffer_def GetBuf_at_def ResetBuf_at_def msg_at_def
  set_msg_def fill_block_def demo_lib_def demo_block_def demo_packet_def BaseMsg.defs blank_msg_def msg_size_def
  to_int32_def AddTimer_def Timer_new_def put_timer_def fill_def add32_def int32_ok_def to_size_t_def deref_def
  small_collector_def small_tm_def small_block_def Let_def

lemma one_hop_step: "BufferingData_locked demo_lib 0 (demo_packet [1]) ''a'' small_collector = Inr ([], one_hop)"
  by (simp add: demo_eval one_hop_def)

lemma two_hops_step: "BufferingData_locked demo_lib 0 (demo_packet [2]) ''b'' one_hop = Inr ([], two_hops)"
  by (simp add: demo_eval one_hop_def two_hops_def)

definition two_hops_sys :: "(bool, int \<times> nat option, unit, unit) collector_sys" where
  "two_hops_sys = \<lparr>cs_c = two_hops, cs_in = [(''a'', [1]), (''b'', [2])], cs_out = []\<rparr>"

lemma two_hops_reachable:
  "(collector_step demo_lib 4)\<^sup>*\<^sup>* (collector_start small_collector) two_hops_sys"
proof -
  let ?s = "\<lparr>cs_c = one_hop, cs_in = [(''a'', [1])], cs_out = []\<rparr>"
  have p: "m_data (demo_packet bs) = bs" for bs by (simp add: demo_packet_def BaseMsg.defs)
  have s1: "collector_step demo_lib 4 (collector_start small_collector) ?s"
    using collector_step.buffering [of "demo_packet [1]" 4 demo_lib 0 "''a''" "collector_start small_collector" "[]" one_hop]
      one_hop_step by (simp add: collector_start_def handed_def p)
  have s2: "collector_step demo_lib 4 ?s two_hops_sys"
    using collector_step.buffering [of "demo_packet [2]" 4 demo_lib 0 "''b''" ?s "[]" two_hops] two_hops_step
    by (simp add: two_hops_sys_def handed_def p)
  show ?thesis
    by (rule rtranclp.rtrancl_into_rtrancl [OF r_into_rtranclp [where r = "collector_step demo_lib 4", OF s1] s2])
qed


theorem full_block_fails_witness:
  "let r = BufferingData_locked demo_lib 0 (demo_packet (replicate 8 7)) ''a'' one_hop
   in r = Inl OutOfBounds \<or> r = Inl AssertionFailed"
proof -
  have "collector_wf demo_lib fst one_hop"
    using BufferingData_refines [OF demo_lib_ok, of small_collector "''a''" "demo_packet [1]" 0]
      collector_start_inv [OF small_init small_room, of fst] one_hop_step
    by (simp add: collector_inv_def demo_lib_ok collector_start_def pending_of_def small_collector_def demo_packet_def BaseMsg.defs)
  moreover have "pending_of demo_lib one_hop ''a'' = [1]" "buf_of demo_lib one_hop 0 = Some 0"
    by (simp_all add: pending_of_def pending_at_def buf_of_def one_hop_def demo_lib_def small_block_def filled_def
        small_collector_def)
  ultimately show ?thesis
    using full_block_fails [OF demo_lib_ok, of one_hop "''a''" 0 0 "demo_packet (replicate 8 7)" 0]
    by (simp add: one_hop_def small_collector_def demo_packet_def BaseMsg.defs Let_def)
qed

end
