(* ===== verification/Collector_Channels.thy ===== *)
theory Collector_Channels
  imports Collector_System
begin

text \<open>
  Where the blocks of the collector go: \<open>Collector::Dispatch\<close> sorts its output channels by name at its
  first call, and from then on sends coded blocks to the encoders in turn of their id and raw packets
  to the channel of the UDP node. The handler of a packet is followed from the packet to the channel.
\<close>

section \<open>Sorting the channels\<close>

definition to_udp :: "('e, 'b, 'r, 'f) bats_library \<Rightarrow> 'e msg_ptr QueueBasedChannel list \<Rightarrow> nat \<Rightarrow> bool" where
  "to_udp L chans chn \<longleftrightarrow> find_str '':UDP'' (L_Name L (chans ! chn)) \<noteq> None"

abbreviation encoders :: "('e, 'b, 'r, 'f) bats_library \<Rightarrow> 'e msg_ptr QueueBasedChannel list \<Rightarrow> nat list \<Rightarrow> nat list" where
  "encoders L chans outs \<equiv> filter (\<lambda>chn. \<not> to_udp L chans chn) outs"

abbreviation udps :: "('e, 'b, 'r, 'f) bats_library \<Rightarrow> 'e msg_ptr QueueBasedChannel list \<Rightarrow> nat list \<Rightarrow> nat list" where
  "udps L chans outs \<equiv> filter (to_udp L chans) outs"

lemma sort_channels_eq:
  assumes "\<forall>chn\<in>set outs. chn < length chans"
  shows "sort_channels L chans outs c = Inr (c\<lparr>co_encode_channles := co_encode_channles c @ encoders L chans outs,
      co_udp_channel := (if udps L chans outs = [] then co_udp_channel c else Some (last (udps L chans outs))),
      co_dispath_chn_init := co_dispath_chn_init c \<or> udps L chans outs \<noteq> []\<rparr>)"
  using assms by (induction outs arbitrary: c) (auto simp: to_udp_def)

text \<open>The collector has not dispatched yet, or it has sorted the channels.\<close>

definition routed :: "('e, 'b, 'r, 'f) bats_library \<Rightarrow> 'e msg_ptr QueueBasedChannel list \<Rightarrow> nat list \<Rightarrow>
    ('e, 'b, 'r, 'f) Collector \<Rightarrow> bool" where
  "routed L chans outs c \<longleftrightarrow>
     (if co_dispath_chn_init c
      then co_encode_channles c = encoders L chans outs \<and> co_udp_channel c = Some (last (udps L chans outs))
      else co_encode_channles c = [] \<and> co_udp_channel c = None)"

definition sorted_for :: "('e, 'b, 'r, 'f) bats_library \<Rightarrow> 'e msg_ptr QueueBasedChannel list \<Rightarrow> nat list \<Rightarrow>
    ('e, 'b, 'r, 'f) Collector \<Rightarrow> ('e, 'b, 'r, 'f) Collector" where
  "sorted_for L chans outs c = c\<lparr>co_encode_channles := encoders L chans outs,
     co_udp_channel := Some (last (udps L chans outs)), co_dispath_chn_init := True\<rparr>"

lemma sorted_for_routed: "routed L chans outs (sorted_for L chans outs c)"
  by (simp add: routed_def sorted_for_def)

lemma Dispatch_sorts:
  assumes "i < length (w_nodes w)" and "n_down (w_nodes w ! i) = outs" and "outs \<noteq> []"
    and "\<forall>chn\<in>set outs. chn < length (w_chans w)" and "udps L (w_chans w) outs \<noteq> []"
    and "routed L (w_chans w) outs (w_ext w)"
  defines "w1 \<equiv> w\<lparr>w_ext := sorted_for L (w_chans w) outs (w_ext w)\<rparr>"
  shows "Collector_Dispatch L i msg w =
    (if NeedCoded L msg
     then let es = encoders L (w_chans w) outs in
          if es = [] then fail_act DivisionByZero else write_to (es ! (unat (m_id msg) mod length es)) msg w1
     else write_to (last (udps L (w_chans w) outs)) msg w1)"
proof -
  let ?c = "sorted_for L (w_chans w) outs (w_ext w)"
  have "(if \<not> co_dispath_chn_init (w_ext w) then sort_channels L (w_chans w) (n_down (w_nodes w ! i)) (w_ext w)
      else Inr (w_ext w)) = Inr ?c"
    using assms(2,4-6) by (auto simp: sort_channels_eq routed_def sorted_for_def)
  then show ?thesis
    using assms(1-3) by (simp add: Collector_Dispatch_def Let_def w1_def sorted_for_def)
qed

text \<open>The encoders repeated: what the list of channels becomes while no channel leads to a UDP node.\<close>

lemma concat_replicate_nth: "j < k * length xs \<Longrightarrow> concat (replicate k xs) ! j = xs ! (j mod length xs)"
proof (induction k arbitrary: j)
  case (Suc k)
  show ?case
  proof (cases "j < length xs")
    case False
    then have "j - length xs < k * length xs" using Suc.prems by simp
    with Suc.IH [of "j - length xs"] False show ?thesis by (simp add: nth_append le_mod_geq)
  qed (simp add: nth_append)
qed simp

lemma concat_replicate_Suc: "concat (replicate k xs) @ xs = concat (replicate (Suc k) xs)"
  by (induction k) auto

section \<open>From a packet to a channel\<close>

lemma flow_frame:
  "collector_wf L cap (c\<lparr>co_flow_r := f\<rparr>) \<longleftrightarrow> collector_wf L cap c"
  "pending_of L (c\<lparr>co_flow_r := f\<rparr>) = pending_of L c"
  "pending_of L (sorted_for L chans outs c) = pending_of L c"
  by (auto simp: fun_eq_iff collector_wf_def buf_of_def pending_of_def pending_at_def sorted_for_def split: option.splits)

lemma routed_same: "same_config c c' \<Longrightarrow> routed L chans outs c' = routed L chans outs c"
  by (simp add: routed_def same_config_def)

lemma write_to_room:
  assumes "chn < length (w_chans w)" and "chan_wf (w_chans w ! chn)" and "\<not> broken (w_chans w ! chn)"
    and "length (pending (w_chans w ! chn)) < 100"
  shows "write_to chn m w = done_act (set_chan chn ((w_chans w ! chn)
    \<lparr>c_queue := (c_queue (w_chans w ! chn))\<lparr>q_pool := pending (w_chans w ! chn) @ [Some m]\<rparr>\<rparr>) w)"
  using assms by (simp add: write_to_def WriteMessage_room)

section \<open>Properties\<close>

text \<open>(C31) With at least one output channel that leads to the UDP node (its name contains \<open>:UDP\<close>), every block
  that is to be coded goes to the encoder channel chosen by its id, and every raw packet to the
  last UDP channel; this holds at the first call, which sorts the channels, and at every later one.
  A collector with UDP channels only divides by zero when a coded block is dispatched.\<close>

theorem Collector_Dispatch_routes:
  assumes "i < length (w_nodes w)" and "n_down (w_nodes w ! i) = outs" and "outs \<noteq> []"
    and "\<forall>chn\<in>set outs. chn < length (w_chans w)" and "udps L (w_chans w) outs \<noteq> []"
    and "routed L (w_chans w) outs (w_ext w)"
    and "es = encoders L (w_chans w) outs" and "c' = sorted_for L (w_chans w) outs (w_ext w)"
  shows "Collector_Dispatch L i msg w =
      (if NeedCoded L msg \<and> es = [] then fail_act DivisionByZero
       else write_to (if NeedCoded L msg then es ! (unat (m_id msg) mod length es)
                      else last (udps L (w_chans w) outs)) msg (w\<lparr>w_ext := c'\<rparr>)) \<and>
    routed L (w_chans w) outs c'"
  using Dispatch_sorts [OF assms(1-6), of msg] assms(7,8) sorted_for_routed by (auto simp: Let_def)

text \<open>Without a UDP channel the sorting is never finished: every call appends all output channels to
  the list of encoder channels again, so that it grows without bound while the choice stays the same;
  and a raw packet dereferences a null pointer.\<close>

theorem no_udp_channel_grows:
  assumes "i < length (w_nodes w)" and "n_down (w_nodes w ! i) = outs" and "outs \<noteq> []"
    and "\<forall>chn\<in>set outs. chn < length (w_chans w)" and "udps L (w_chans w) outs = []"
    and "\<not> co_dispath_chn_init (w_ext w)" and "co_udp_channel (w_ext w) = None"
    and "co_encode_channles (w_ext w) = concat (replicate k outs)"
  shows "Collector_Dispatch L i msg w =
      (if NeedCoded L msg
       then write_to (outs ! (unat (m_id msg) mod length outs)) msg
              (w\<lparr>w_ext := (w_ext w)\<lparr>co_encode_channles := concat (replicate (Suc k) outs)\<rparr>\<rparr>)
       else fail_act NullDereference)"
proof -
  have all: "encoders L (w_chans w) outs = outs" using assms(5) by (simp add: filter_empty_conv)
  have sort: "sort_channels L (w_chans w) outs (w_ext w) =
      Inr ((w_ext w)\<lparr>co_encode_channles := concat (replicate (Suc k) outs)\<rparr>)"
    using assms(5-8) all by (simp add: sort_channels_eq [OF assms(4)] concat_replicate_Suc)
  let ?es = "concat (replicate (Suc k) outs)"
  have len: "length ?es = Suc k * length outs" by (induction k) auto
  have ne: "?es \<noteq> []" using assms(3) by simp
  have "?es ! (unat (m_id msg) mod length ?es) = outs ! (unat (m_id msg) mod length ?es mod length outs)"
    using assms(3) by (intro concat_replicate_nth) (simp only: len, simp)
  then have "?es ! (unat (m_id msg) mod length ?es) = outs ! (unat (m_id msg) mod length outs)"
    by (simp only: len mod_mult_self2_is_0 mod_mod_cancel dvd_triv_right)
  with sort ne show ?thesis
    using assms(1-3,6,7) unfolding Collector_Dispatch_def by (simp add: Let_def del: replicate_Suc concat.simps)
qed

text \<open>(C15) A packet on its way through the collector: one that is to be coded, for which there is a route and room
  in the block, is appended to the bytes pending for its next hop. Unless they now exceed the
  threshold, nothing else happens; otherwise they leave as one message through the encoder channel chosen
  by the id of the message, and nothing is pending any more. Other next hops and channels are left alone.\<close>

theorem HandleMsg_coded:
  assumes "bats_ok L cap" and "collector_wf L cap (w_ext w)"
    and "i < length (w_nodes w)" and "n_down (w_nodes w ! i) = outs" and "outs \<noteq> []"
    and "\<forall>chn\<in>set outs. chn < length (w_chans w)" and "udps L (w_chans w) outs \<noteq> []"
    and "routed L (w_chans w) outs (w_ext w)"
    and "es = encoders L (w_chans w) outs" and "es \<noteq> []"
    and "\<forall>chn\<in>set es. chan_wf (w_chans w ! chn) \<and> \<not> broken (w_chans w ! chn) \<and> length (pending (w_chans w ! chn)) < 100"
    and "L_DstAddr L msg = Some d" and "co_route_t (w_ext w) = Some r" and "L_RouteMatch L r d = h" and "h \<noteq> []"
    and "co_flow_r (w_ext w) = Some f" and "L_FlowUpdate L f msg = (f', msg')" and "NeedCoded L msg'"
    and "acc = pending_of L (w_ext w) h @ m_data msg'" and "int (length acc) \<le> co_max_block_size (w_ext w)"
  shows "\<exists>w'. Collector_HandleMsg L g i msg w = done_act w' \<and>
    (if int (length acc) \<le> co_coding_threshold (w_ext w)
     then w_chans w' = w_chans w \<and> pending_of L (w_ext w') = (pending_of L (w_ext w))(h := acc)
     else pending_of L (w_ext w') = (pending_of L (w_ext w))(h := []) \<and>
       (\<exists>blk chn. m_data blk = acc \<and> NeedCoded L blk \<and> chn = es ! (unat (m_id blk) mod length es) \<and>
          w_chans w' = (w_chans w)[chn := (w_chans w ! chn)
            \<lparr>c_queue := (c_queue (w_chans w ! chn))\<lparr>q_pool := pending (w_chans w ! chn) @ [Some blk]\<rparr>\<rparr>]))"
proof -
  let ?c = "(w_ext w)\<lparr>co_flow_r := Some f'\<rparr>"
  let ?thr = "co_coding_threshold (w_ext w)"
  have fits: "int (length (pending_of L ?c h) + length (m_data msg')) \<le> co_max_block_size ?c"
    using assms(19,20) by (simp add: flow_frame)
  obtain qs c' where b: "BufferingData_locked L g msg' h ?c = Inr (qs, c')" "same_config ?c c'" "handed_ok c' qs"
      "(map (block_of L c') qs, pending_of L c') = spec_buffer ?thr h (m_data msg') (pending_of L (w_ext w))"
    using BufferingData_refines [OF assms(1) _ fits, where g = g] assms(2) by (auto simp: flow_frame)
  have pre: "Collector_HandleMsg L g i msg w = dispatch_blocks L i qs (w\<lparr>w_ext := c'\<rparr>)"
    using assms(12-18) b(1) by (simp add: Collector_HandleMsg_def Let_def BufferingData_def)
  show ?thesis
  proof (cases "int (length acc) \<le> ?thr")
    case True
    then have "qs = []" "pending_of L c' = (pending_of L (w_ext w))(h := acc)"
      using b(4) assms(19) by (simp_all add: spec_buffer_def Let_def)
    with True pre show ?thesis by simp
  next
    case False
    then have one: "map (block_of L c') qs = [Coded acc]" "pending_of L c' = (pending_of L (w_ext w))(h := [])"
      using b(4) assms(19) by (simp_all add: spec_buffer_def Let_def)
    then obtain k where k: "qs = [Some k]" "k < length (co_msgs c')" using b(3) by (auto simp: handed_ok_def)
    define blk where "blk = co_msgs c' ! k"
    have blk: "NeedCoded L blk" "m_data blk = acc"
      using one(1) k(1) by (auto simp: block_of_def Let_def blk_def split: if_splits)
    define chn where "chn = es ! (unat (m_id blk) mod length es)"
    have "chn \<in> set es" using assms(10) by (simp add: chn_def)
    then have chn: "chn < length (w_chans w)" "chan_wf (w_chans w ! chn)" "\<not> broken (w_chans w ! chn)"
        "length (pending (w_chans w ! chn)) < 100" using assms(6,9,11) by auto
    have r: "routed L (w_chans (w\<lparr>w_ext := c'\<rparr>)) outs (w_ext (w\<lparr>w_ext := c'\<rparr>))"
      using assms(8) routed_same [OF b(2)] by (simp add: routed_def)
    let ?w = "w\<lparr>w_ext := sorted_for L (w_chans w) outs c'\<rparr>"
    have "Collector_Dispatch L i blk (w\<lparr>w_ext := c'\<rparr>) = write_to chn blk ?w"
      using Dispatch_sorts [OF _ _ assms(5) _ _ r, of i blk] assms(3,4,6,7,9,10) blk(1) by (simp add: Let_def chn_def)
    moreover have "write_to chn blk ?w = done_act (set_chan chn ((w_chans w ! chn)
        \<lparr>c_queue := (c_queue (w_chans w ! chn))\<lparr>q_pool := pending (w_chans w ! chn) @ [Some blk]\<rparr>\<rparr>) ?w)"
      using write_to_room [of chn ?w blk] chn by simp
    ultimately show ?thesis
      using False pre k one(2) blk by (auto simp: msg_at_def blk_def [symmetric] chn_def flow_frame)
  qed
qed

subsection \<open>Witnesses\<close>

text \<open>A collector with eight-byte blocks before its first packet, with a channel to an encoder and one
  to the UDP node.\<close>

definition demo_chan :: "string \<Rightarrow> bool msg_ptr QueueBasedChannel" where
  "demo_chan name = \<lparr>c_queue = \<lparr>q_pool = [], q_pool_size = 100, q_name = name, q_uuid = ''id'',
     q_wait = Some BlockWaitStrategy, q_break = False\<rparr>\<rparr>"

definition relay_world :: "nat list \<Rightarrow> (bool, (bool, int \<times> nat option, unit, unit) Collector) world" where
  "relay_world outs = \<lparr>w_chans = [demo_chan ''collector:encoder'', demo_chan ''collector:UDP''],
     w_nodes = [(Node_new NODE_RELAY ''collector'')\<lparr>n_down := outs\<rparr>], w_processor_id = (\<lambda>_. 0), w_ext = small_collector\<rparr>"

lemma relay_world_simps [simp]:
  "w_nodes (relay_world outs) ! 0 = (Node_new NODE_RELAY ''collector'')\<lparr>n_down := outs\<rparr>"
  "length (w_nodes (relay_world outs)) = 1" "length (w_chans (relay_world outs)) = 2"
  "w_ext (relay_world outs) = small_collector"
  by (simp_all add: relay_world_def)

lemma demo_to_udp [simp]:
  "to_udp demo_lib (w_chans (relay_world outs)) 0 = False" "to_udp demo_lib (w_chans (relay_world outs)) (Suc 0) = True"
  unfolding to_udp_def relay_world_def demo_lib_def demo_chan_def by code_simp+

lemma demo_routed: "routed demo_lib chans outs small_collector"
  by (simp add: routed_def small_collector_def)

lemma small_wf: "collector_wf demo_lib fst small_collector"
  using collector_start_inv [OF small_init small_room, of fst]
  by (simp add: collector_inv_def demo_lib_ok collector_start_def)

theorem Collector_Dispatch_routes_witness:
  "Collector_Dispatch demo_lib 0 (demo_packet [7]) (relay_world [0, 1]) =
     write_to 0 (demo_packet [7])
       ((relay_world [0, 1])\<lparr>w_ext := sorted_for demo_lib (w_chans (relay_world [0, 1])) [0, 1] small_collector\<rparr>)"
proof -
  have n: "NeedCoded demo_lib (demo_packet [7])" "m_id (demo_packet [7]) = 0"
    by (simp_all add: NeedCoded_def demo_lib_def demo_packet_def BaseMsg.defs blank_msg_def)
  show ?thesis
    using Collector_Dispatch_routes [of 0 "relay_world [0, 1]" "[0, 1]" demo_lib "[0]" _ "demo_packet [7]", OF _ _ _ _ _ _ _ refl] n
    by (simp add: demo_routed)
qed

theorem no_udp_channel_grows_witness:
  "Collector_Dispatch demo_lib 0 (demo_packet [7]) (relay_world [0]) =
     write_to 0 (demo_packet [7]) ((relay_world [0])\<lparr>w_ext := small_collector\<lparr>co_encode_channles := [0]\<rparr>\<rparr>)"
proof -
  have n: "NeedCoded demo_lib (demo_packet [7])" "m_id (demo_packet [7]) = 0"
    by (simp_all add: NeedCoded_def demo_lib_def demo_packet_def BaseMsg.defs blank_msg_def)
  show ?thesis
    using no_udp_channel_grows [of 0 "relay_world [0]" "[0]" demo_lib 0 "demo_packet [7]"] n
    by (simp add: small_collector_def)
qed

theorem HandleMsg_coded_witness:
  "\<exists>w'. Collector_HandleMsg demo_lib 0 0 (demo_packet [1, 2, 3, 4, 5]) (relay_world [0, 1]) = done_act w' \<and>
     pending_of demo_lib (w_ext w') ''hop'' = [] \<and>
     (\<exists>blk. m_data blk = [1, 2, 3, 4, 5] \<and> pending (w_chans w' ! 0) = [Some blk])"
proof -
  let ?p = "demo_packet [1, 2, 3, 4, 5]"
  have p: "L_DstAddr demo_lib ?p = Some 1" "L_RouteMatch demo_lib () 1 = ''hop''" "L_FlowUpdate demo_lib () ?p = ((), ?p)"
    "NeedCoded demo_lib ?p" "m_data ?p = [1, 2, 3, 4, 5]"
    by (simp_all add: NeedCoded_def demo_lib_def demo_packet_def BaseMsg.defs blank_msg_def)
  have c: "co_route_t small_collector = Some ()" "co_flow_r small_collector = Some ()" "co_max_block_size small_collector = 8"
    "co_coding_threshold small_collector = 4" "pending_of demo_lib small_collector ''hop'' = []"
    by (simp_all add: small_collector_def pending_of_def)
  have ch: "chan_wf (w_chans (relay_world outs) ! 0)" "pending (w_chans (relay_world outs) ! 0) = []"
    "\<not> broken (w_chans (relay_world outs) ! 0)" for outs
    by (simp_all add: relay_world_def demo_chan_def chan_wf_def queue_wf_def)
  show ?thesis
    using HandleMsg_coded [OF demo_lib_ok, of "relay_world [0, 1]" 0 "[0, 1]" "[0]" ?p 1 "()" "''hop''" "()" "()" ?p "[1, 2, 3, 4, 5]" 0]
    by (auto simp: p c ch small_wf demo_routed)
qed

end
