(* ===== verification/Relay_Path.thy ===== *)
theory Relay_Path
  imports Collector_Channels Duplex_Path
begin

text \<open>
  The collector with the nodes around it: its blocks are small enough for the encoder
  (\<open>util/node_encoder.h\<close>), and the tun node at the other end (\<open>util/node_tun.cc\<close>) takes the blocks
  apart into the packets that the collector put in.
\<close>

lemma coded_block_size:
  assumes "stream_ok L mtu s" and "Coded xs \<in> set (blocks_for s h)" and "m_data m = xs"
    and "max 0 (co_coding_threshold (cs_c s)) + mtu < 65540"
  shows "msg_size m < 65540"
proof -
  have "block_within (co_coding_threshold (cs_c s)) mtu (Coded xs)" using assms(1,2) unfolding stream_ok_def by blast
  then have "int (length xs) < 65540" using assms(4) by simp
  then show ?thesis using assms(3) by (simp add: msg_size_def to_int32_def)
qed

lemma config_reachable:
  assumes "(collector_step L mtu)\<^sup>*\<^sup>* s t" and "bats_ok L cap" and "0 \<le> mtu" and "collector_inv L cap mtu s"
  shows "co_coding_threshold (cs_c t) = co_coding_threshold (cs_c s) \<and> co_max_block_size (cs_c t) = co_max_block_size (cs_c s)"
  using assms(1,4)
proof (induction rule: converse_rtranclp_induct)
  case (step s u)
  have inv: "room_ok L mtu (cs_c s)" "collector_wf L cap (cs_c s)" "stream_ok L mtu s"
    using step.prems assms(2) by (simp_all add: collector_inv_def)
  from step.hyps(1) have "co_coding_threshold (cs_c u) = co_coding_threshold (cs_c s) \<and>
      co_max_block_size (cs_c u) = co_max_block_size (cs_c s)"
  proof cases
    case (buffering msg g h qs c')
    have "int (length (pending_of L (cs_c s) h) + length (m_data msg)) \<le> co_max_block_size (cs_c s)"
      using stream_hop(2) [OF inv(3), of h] inv(1) buffering(2) by (simp add: room_ok_def)
    from BufferingData_refines [OF assms(2) inv(2) this, of g] buffering show ?thesis by (auto simp: same_config_def)
  next
    case (relaying msg g h qs c')
    have "L_PROTOCOL_OVERHEAD L + int (length (m_data msg)) \<le> co_max_block_size (cs_c s)"
      using inv(1) relaying(2) by (simp add: room_ok_def)
    from ForceRelayData_refines [OF assms(2) inv(2) this, of g h] relaying show ?thesis by (auto simp: same_config_def)
  next
    case (timeout a p h qs c')
    from HandleTimeoutBuffer_refines [OF assms(2) inv(2) timeout(2,3)] timeout show ?thesis by (auto simp: same_config_def)
  qed simp_all
  then show ?case
    using step.IH collector_inv_step [OF assms(3) step.prems step.hyps(1)] by simp
qed simp

text \<open>Each block is a group of packets, and the groups in order are the packets but for the pending ones.\<close>

lemma blocks_are_groups:
  assumes "bats_ok L cap" and "Collector_Init L uuid f = Inr c" and "0 \<le> mtu" and "room_ok L mtu c"
    and "(collector_step L mtu)\<^sup>*\<^sup>* (collector_start c) s"
    and "\<forall>p\<in>set (packets_for s h). frame_ok p"
    and "list_all2 (\<lambda>b m. m_data m = block_bytes b) (blocks_for s h) ms"
  shows "\<exists>gs r. list_all2 (\<lambda>m fs. m_data m = concat fs \<and> fs \<noteq> [] \<and> (\<forall>f\<in>set fs. frame_ok f)) ms gs \<and>
    packets_for s h = concat gs @ r \<and> pending_of L (cs_c s) h = concat r"
proof -
  obtain gs r where g: "map block_bytes (blocks_for s h) = map concat gs" "pending_of L (cs_c s) h = concat r"
      "packets_for s h = concat gs @ r" "[] \<notin> set gs"
    using stream_hop(1) [OF collector_reachable(3) [OF assms(1-5)], of h] unfolding grouped_def by blast
  have "length ms = length gs" using g(1) list_all2_lengthD [OF assms(7)] by (metis length_map)
  moreover have "m_data (ms ! j) = concat (gs ! j) \<and> gs ! j \<noteq> [] \<and> (\<forall>f\<in>set (gs ! j). frame_ok f)" if "j < length gs" for j
  proof (intro conjI)
    have "block_bytes (blocks_for s h ! j) = concat (gs ! j)" using that g(1) by (metis length_map nth_map)
    moreover have "j < length (blocks_for s h)" using that g(1) by (metis length_map)
    ultimately show "m_data (ms ! j) = concat (gs ! j)" using list_all2_nthD [OF assms(7)] by simp
    show "gs ! j \<noteq> []" using g(4) that by (metis nth_mem)
    show "\<forall>f\<in>set (gs ! j). frame_ok f" using assms(6) g(3) nth_mem [OF that] by auto
  qed
  ultimately show ?thesis using g(2,3) by (auto simp: list_all2_conv_all_nth)
qed

lemma group_written:
  assumes "m_data m = concat fs" and "fs \<noteq> []" and "\<forall>f\<in>set fs. frame_ok f" and "length fs < fuel"
  shows "Tun_FDWrite fuel (Some m) = done_act (msg_size m, fs)"
proof -
  obtain k where "fuel = Suc (length fs) + k" using assms(4) less_iff_Suc_add by (metis add_Suc)
  moreover have "frame_loop (Suc (length fs)) (m_data m) 0 = done_act fs"
    using frame_loop_frames [OF assms(3,2), of "[]" "[]"] assms(1) by (simp add: tail_ok_def)
  ultimately have "frame_loop fuel (m_data m) 0 = done_act fs" using frame_loop_mono by (simp only:)
  then show ?thesis by (simp add: Tun_FDWrite_def)
qed

section \<open>Properties\<close>

text \<open>(C19) The collector and the encoder fit together: if the threshold and the largest packet add up to less than 65540
  bytes, as with the default settings and the 2048 bytes of a tun message, then every coded block the collector
  ever hands out passes the assertion of the encoder, which encodes it and dispatches the result.\<close>

theorem encoder_accepts_blocks:
  assumes "bats_ok L cap" and "Collector_Init L uuid f = Inr c" and "0 \<le> mtu" and "room_ok L mtu c"
    and "max 0 (co_coding_threshold c) + mtu < 65540"
    and "(collector_step L mtu)\<^sup>*\<^sup>* (collector_start c) s"
    and "Coded xs \<in> set (blocks_for s h)" and "m_data m = xs" and "\<not> stop_msg m"
    and "i < length (w_nodes w)" and "E_encode E (w_ext w) m = (coded, encode)"
  shows "Encoder_HandleMsg E i (Some m) w = dispatch_all i coded (w\<lparr>w_ext := encode\<rparr>)"
proof -
  have "co_coding_threshold (cs_c s) = co_coding_threshold c"
    using config_reachable [OF assms(6,1,3) collector_start_inv [OF assms(2,4)]] by (simp add: collector_start_def)
  then have "msg_size m < 65540"
    using coded_block_size [OF collector_reachable(3) [OF assms(1-4,6)] assms(7,8)] assms(5) by simp
  then show ?thesis using assms(9-11) by (auto simp: Encoder_HandleMsg_def StopSignal_def)
qed

text \<open>Nothing is lost between the collector and the tun node at the other end: if every packet for a next hop is an IP
  packet with its length in its header and more than twenty bytes, and the blocks are delivered unchanged,
  then \<open>Tun::FDWrite\<close> writes for each block a group of packets, one \<open>write\<close> each, and over all blocks in order these
  are the packets that came in, but for those that are still pending.\<close>

theorem tun_recovers_packets:
  assumes "bats_ok L cap" and "Collector_Init L uuid f = Inr c" and "0 \<le> mtu" and "room_ok L mtu c"
    and "(collector_step L mtu)\<^sup>*\<^sup>* (collector_start c) s"
    and "\<forall>p\<in>set (packets_for s h). frame_ok p"
    and "list_all2 (\<lambda>b m. m_data m = block_bytes b) (blocks_for s h) ms"
  shows "\<exists>frames rest. list_all2 (\<lambda>m fs. Tun_FDWrite (Suc (length fs)) (Some m) = done_act (msg_size m, fs)) ms frames \<and>
     packets_for s h = concat frames @ rest \<and> pending_of L (cs_c s) h = concat rest"
proof -
  obtain gs r where g: "list_all2 (\<lambda>m fs. m_data m = concat fs \<and> fs \<noteq> [] \<and> (\<forall>f\<in>set fs. frame_ok f)) ms gs"
      "packets_for s h = concat gs @ r" "pending_of L (cs_c s) h = concat r"
    using blocks_are_groups [OF assms] by blast
  have "list_all2 (\<lambda>m fs. Tun_FDWrite (Suc (length fs)) (Some m) = done_act (msg_size m, fs)) ms gs"
    using g(1) by (rule list_all2_mono) (simp add: group_written)
  with g(2,3) show ?thesis by blast
qed


subsection \<open>Witnesses\<close>

text \<open>A collector with the default settings buffers one packet, and then must send another one uncoded.\<close>

lemma demo_relay:
  obtains c s where "Collector_Init demo_lib ''id'' no_settings = Inr c" "room_ok demo_lib 2048 c"
    "max 0 (co_coding_threshold c) + 2048 < 65540" "(collector_step demo_lib 2048)\<^sup>*\<^sup>* (collector_start c) s"
    "packets_for s ''hop'' = [small_frame, small_frame]" "blocks_for s ''hop'' = [Coded small_frame, Raw small_frame]"
proof -
  obtain c where c: "Collector_Init demo_lib ''id'' no_settings = Inr c" "room_ok demo_lib 2048 c"
    using demo_init by blast
  have cfg: "co_coding_threshold c = 30000" "co_max_block_size c = 65540" "pending_of demo_lib c = (\<lambda>_. [])"
    using c(1) by (auto simp: Collector_Init_def int_setting_def getValue_def no_settings_def demo_read lookup_def
        pending_of_def fun_eq_iff)
  let ?p = "demo_packet small_frame" and ?s0 = "collector_start c"
  have p: "m_data ?p = small_frame" "length small_frame = 21" "small_frame \<noteq> []"
    by (simp_all add: demo_packet_def small_frame_def BaseMsg.defs)
  note inv0 = collector_reachable [OF demo_lib_ok c(1) _ c(2) rtranclp.rtrancl_refl]
  obtain qs c' where b: "BufferingData_locked demo_lib 0 ?p ''hop'' c = Inr (qs, c')" "same_config c c'"
      "(map (block_of demo_lib c') qs, pending_of demo_lib c') = spec_buffer 30000 ''hop'' small_frame (\<lambda>_. [])"
    using BufferingData_refines [OF demo_lib_ok inv0(2), of "''hop''" ?p 0] by (auto simp: collector_start_def p cfg)
  let ?s1 = "?s0\<lparr>cs_c := c', cs_in := cs_in ?s0 @ [(''hop'', m_data ?p)], cs_out := cs_out ?s0 @ handed demo_lib ''hop'' c' qs\<rparr>"
  have s1: "collector_step demo_lib 2048 ?s0 ?s1"
    by (rule collector_step.buffering) (use b(1) p in \<open>simp_all add: collector_start_def\<close>)
  have out1: "qs = []" "pending_of demo_lib c' ''hop'' = small_frame"
    using b(3) by (simp_all add: spec_buffer_def p)
  note inv1 = collector_reachable [OF demo_lib_ok c(1) _ c(2) r_into_rtranclp [where r = "collector_step demo_lib 2048", OF s1]]
  obtain qs' c2 where r: "ForceRelayData_locked demo_lib 0 ?p ''hop'' c' = Inr (qs', c2)"
      "(map (block_of demo_lib c2) qs', pending_of demo_lib c2) = spec_relay ''hop'' small_frame (pending_of demo_lib c')"
    using ForceRelayData_refines [OF demo_lib_ok inv1(2), of ?p 0 "''hop''"] b(2)
    by (auto simp: collector_start_def p cfg same_config_def demo_lib_def)
  let ?s2 = "?s1\<lparr>cs_c := c2, cs_in := cs_in ?s1 @ [(''hop'', m_data ?p)], cs_out := cs_out ?s1 @ handed demo_lib ''hop'' c2 qs'\<rparr>"
  have s2: "collector_step demo_lib 2048 ?s1 ?s2"
    by (rule collector_step.relaying) (use r(1) p in simp_all)
  have "map (block_of demo_lib c2) qs' = [Coded small_frame, Raw small_frame]"
    using r(2) by (simp add: spec_relay_def spec_timeout_def out1(2) p(3))
  then have "packets_for ?s2 ''hop'' = [small_frame, small_frame]" "blocks_for ?s2 ''hop'' = [Coded small_frame, Raw small_frame]"
    by (simp_all add: logs_step out1(1) p(1)) (simp_all add: packets_for_def blocks_for_def handed_def collector_start_def o_def)
  then show thesis
    by (intro that [OF c]) (use s1 s2 cfg in \<open>auto intro: rtranclp.rtrancl_into_rtrancl\<close>)
qed

definition plain_lib :: "(bool, unit, unit, unit) encoder_library" where
  "plain_lib = \<lparr>E_PROTOCOL_OVERHEAD = 2, E_BatsEncoder = (), E_set_mtu = (\<lambda>_. id), E_set_proto_header = (\<lambda>_. id),
     E_DefaultPrecodeSchema = (), E_EncodingSchema = (), E_setEncodeSchema = (\<lambda>_. id), E_setPrecodeSchema = (\<lambda>_. id),
     E_encode = (\<lambda>k m. ([m], k))\<rparr>"

theorem encoder_accepts_blocks_witness:
  "\<exists>s. Coded small_frame \<in> set (blocks_for s ''hop'') \<and> (\<exists>c. (collector_step demo_lib 2048)\<^sup>*\<^sup>* (collector_start c) s) \<and>
     Encoder_HandleMsg plain_lib 0 (Some (demo_packet small_frame))
       \<lparr>w_chans = [], w_nodes = [Node_new NODE_RELAY ''encoder''], w_processor_id = (\<lambda>_. 0), w_ext = ()\<rparr> =
     dispatch_all 0 [demo_packet small_frame]
       \<lparr>w_chans = [], w_nodes = [Node_new NODE_RELAY ''encoder''], w_processor_id = (\<lambda>_. 0), w_ext = ()\<rparr>"
  (is "\<exists>s. _ \<and> _ \<and> Encoder_HandleMsg _ _ _ ?w = _")
proof -
  obtain c s where s: "Collector_Init demo_lib ''id'' no_settings = Inr c" "room_ok demo_lib 2048 c"
    "max 0 (co_coding_threshold c) + 2048 < 65540" "(collector_step demo_lib 2048)\<^sup>*\<^sup>* (collector_start c) s"
    "blocks_for s ''hop'' = [Coded small_frame, Raw small_frame]"
    by (rule demo_relay)
  have "Encoder_HandleMsg plain_lib 0 (Some (demo_packet small_frame)) ?w =
      dispatch_all 0 [demo_packet small_frame] (?w\<lparr>w_ext := ()\<rparr>)"
    by (rule encoder_accepts_blocks [OF demo_lib_ok s(1) _ s(2,3,4), of small_frame "''hop''"])
       (use s(5) in \<open>simp_all add: demo_packet_def BaseMsg.defs blank_msg_def plain_lib_def\<close>)
  with s(4,5) show ?thesis by (intro exI [of _ s]) auto
qed

theorem tun_recovers_packets_witness:
  "\<exists>s frames. (\<exists>c. (collector_step demo_lib 2048)\<^sup>*\<^sup>* (collector_start c) s) \<and> packets_for s ''hop'' = [small_frame, small_frame] \<and>
     list_all2 (\<lambda>m fs. Tun_FDWrite (Suc (length fs)) (Some m) = done_act (msg_size m, fs))
       [demo_packet small_frame, demo_packet small_frame] frames"
proof -
  obtain c s where s: "Collector_Init demo_lib ''id'' no_settings = Inr c" "room_ok demo_lib 2048 c"
    "(collector_step demo_lib 2048)\<^sup>*\<^sup>* (collector_start c) s"
    "packets_for s ''hop'' = [small_frame, small_frame]" "blocks_for s ''hop'' = [Coded small_frame, Raw small_frame]"
    by (rule demo_relay)
  have "list_all2 (\<lambda>b m. m_data m = block_bytes b) (blocks_for s ''hop'') [demo_packet small_frame, demo_packet small_frame]"
    by (simp add: s(5) demo_packet_def BaseMsg.defs)
  with tun_recovers_packets [OF demo_lib_ok s(1) _ s(2,3), of "''hop''"] s(3,4) small_frame_ok show ?thesis
    by fastforce
qed

text \<open>A tun node whose channel holds the two blocks.\<close>

definition far_end :: "(bool, u8 list list) world" where
  "far_end = \<lparr>w_chans = [with_pending sample_channel (map Some [demo_packet small_frame, demo_packet small_frame])],
     w_nodes = [(Node_new NODE_FULL_DUPLEX ''tun'')\<lparr>n_is_stop := False, n_down := [0]\<rparr>], w_processor_id = (\<lambda>_. 0), w_ext = []\<rparr>"


end
