(* ===== verification/Poller_System.thy ===== *)
theory Poller_System
  imports Poller
begin

text \<open>
  The poller among threads: the thread of the poller and the threads that call \<open>Register\<close>, \<open>Unregister\<close> and
  \<open>Shutdown\<close>, with \<open>poll_mutex_\<close> and \<open>pipe_mutex_\<close>, as the step relation \<open>poll_step\<close>.

  A step is what a thread does between two places where another can get in between: a part that holds
  \<open>poll_mutex_\<close>, an access to \<open>is_shutdown_\<close>, a system call. Only a callback holds \<open>poll_mutex_\<close> across
  steps, since the code of the client runs in it. The kernel is the parameter \<open>ctl\<close>; \<open>epoll_wait\<close> may return
  any events and the clock any readings.
\<close>

section \<open>Model\<close>

text \<open>The parts of \<open>Register\<close> and \<open>Unregister\<close> under \<open>poll_mutex_\<close>.\<close>

definition Register_locked :: "PollRequest \<Rightarrow> Poller \<Rightarrow> Poller" where
  "Register_locked req p =
     (let operation = (if map_of (po_requests p) (rq_fd req) = None then EPOLL_CTL_ADD else EPOLL_CTL_MOD)
      in p\<lparr>po_requests := map_put (rq_fd req) req (po_requests p),
           po_ctrl_params := map_put (rq_fd req)
             \<lparr>cp_operation = operation, cp_fd = rq_fd req, cp_events = rq_events req\<rparr> (po_ctrl_params p)\<rparr>)"

definition Unregister_locked :: "u32 \<Rightarrow> PollRequest \<Rightarrow> Poller \<Rightarrow> Poller option" where
  "Unregister_locked garbage req p =
     (if map_of (po_requests p) (rq_fd req) = None then None
      else Some (p\<lparr>po_requests := map_del (rq_fd req) (po_requests p),
                   po_ctrl_params := map_put (rq_fd req)
                     \<lparr>cp_operation = EPOLL_CTL_DEL, cp_fd = rq_fd req, cp_events = garbage\<rparr> (po_ctrl_params p)\<rparr>))"

text \<open>The parts of \<open>Clear\<close> after the thread has been joined.\<close>

definition close_all :: "Poller \<Rightarrow> Poller" where
  "close_all p = p\<lparr>po_running := False, po_epoll_fd := (if po_epoll_fd p \<ge> 0 then -1 else po_epoll_fd p),
     po_pipe_fd0 := (if po_pipe_fd0 p \<ge> 0 then -1 else po_pipe_fd0 p),
     po_pipe_fd1 := (if po_pipe_fd1 p \<ge> 0 then -1 else po_pipe_fd1 p)\<rparr>"

definition clear_maps :: "Poller \<Rightarrow> Poller" where
  "clear_maps p = p\<lparr>po_requests := [], po_ctrl_params := []\<rparr>"

fun call_request :: "poll_call \<Rightarrow> PollRequest" where
  "call_request (CRegister req) = req"
| "call_request (CUnregister req) = req"

definition call_refused :: "Poller \<Rightarrow> poll_call \<Rightarrow> bool" where
  "call_refused p c \<longleftrightarrow> po_is_shutdown p \<or> rq_fd (call_request c) < 0 \<or> rq_callback (call_request c) = None"

text \<open>Where the thread of the poller is: in \<open>ThreadFunc\<close>, \<open>HandleChanges\<close>, \<open>GetTimeoutMs\<close> or \<open>Poll\<close>, in a callback with
  the responses that are left, waiting for \<open>poll_mutex_\<close> in a callback, which holds it, or ended.\<close>

datatype poll_pc =
    AtTest
  | AtSwap
  | AtCtl "(int \<times> PollCtrlParam) list"
  | AtTimeout
  | AtWait int
  | AtCount "(int \<times> u32) list" u64 u64
  | AtRespond "(int \<times> PollResponse) list"
  | InCallback "nat option" "(int \<times> PollResponse) list"
  | Relocking
  | Failed err
  | AtEnd

text \<open>Where a caller is.\<close>

datatype caller_pc =
    Idle
  | Entering poll_call
  | Locking poll_call
  | Notifying
  | Writing
  | Written
  | Stopping
  | Joining
  | Clearing
  | Returned bool

text \<open>
  The last two fields record the past. \<open>ps_overtaken\<close>: the descriptors that were registered while an addition or
  a deletion of theirs was pending. \<open>ps_dropped\<close>: since the last swap of \<open>HandleChanges\<close>, \<open>Notify\<close> returned
  without writing because the holder of \<open>pipe_mutex_\<close> had written already.
\<close>

record 'k poll_sys =
  ps_poller :: Poller
  ps_kernel :: 'k
  ps_thread :: poll_pc
  ps_callers :: "caller_pc list"
  ps_pipe_owner :: "nat option"
  ps_overtaken :: "int set"
  ps_dropped :: bool

definition lock_free :: "'k poll_sys \<Rightarrow> bool" where
  "lock_free s \<longleftrightarrow> (case ps_thread s of InCallback f rs \<Rightarrow> False | Relocking \<Rightarrow> False | _ \<Rightarrow> True)"

definition caller_goto :: "nat \<Rightarrow> caller_pc \<Rightarrow> 'k poll_sys \<Rightarrow> 'k poll_sys" where
  "caller_goto i pc s = s\<lparr>ps_callers := (ps_callers s)[i := pc]\<rparr>"

definition at :: "nat \<Rightarrow> caller_pc \<Rightarrow> 'k poll_sys \<Rightarrow> bool" where
  "at i pc s \<longleftrightarrow> i < length (ps_callers s) \<and> ps_callers s ! i = pc"

definition pending_op :: "Poller \<Rightarrow> int \<Rightarrow> epoll_op option" where
  "pending_op p fd = map_option cp_operation (map_of (po_ctrl_params p) fd)"

definition overtakes :: "PollRequest \<Rightarrow> Poller \<Rightarrow> int set" where
  "overtakes req p =
     (if pending_op p (rq_fd req) \<in> {Some EPOLL_CTL_ADD, Some EPOLL_CTL_DEL} then {rq_fd req} else {})"

datatype poll_label =
    Own
  | CallsBack int "nat option" u32
  | Registers int
  | Unregisters int
  | Outside

inductive poll_step :: "'k epoll_ctl \<Rightarrow> nat \<Rightarrow> poll_label \<Rightarrow> 'k poll_sys \<Rightarrow> 'k poll_sys \<Rightarrow> bool"
  for ctl :: "'k epoll_ctl" and pipe_size :: nat where
  test_on: "ps_thread s = AtTest \<Longrightarrow> \<not> po_is_shutdown (ps_poller s) \<Longrightarrow> poll_step ctl pipe_size Own s (s\<lparr>ps_thread := AtSwap\<rparr>)"
| test_off: "ps_thread s = AtTest \<Longrightarrow> po_is_shutdown (ps_poller s) \<Longrightarrow> poll_step ctl pipe_size Own s (s\<lparr>ps_thread := AtEnd\<rparr>)"
| swap_empty: "ps_thread s = AtSwap \<Longrightarrow> po_ctrl_params (ps_poller s) = [] \<Longrightarrow>
     poll_step ctl pipe_size Own s (s\<lparr>ps_thread := AtTimeout, ps_dropped := False\<rparr>)"
| swap: "ps_thread s = AtSwap \<Longrightarrow> po_ctrl_params (ps_poller s) = cps \<Longrightarrow> cps \<noteq> [] \<Longrightarrow>
     poll_step ctl pipe_size Own s (s\<lparr>ps_thread := AtCtl cps, ps_poller := (ps_poller s)\<lparr>po_ctrl_params := []\<rparr>, ps_dropped := False\<rparr>)"
| epoll_ctl: "ps_thread s = AtCtl ((fd, item) # cps) \<Longrightarrow>
     poll_step ctl pipe_size Own s (s\<lparr>ps_thread := AtCtl cps,
       ps_kernel := snd (ctl (cp_operation item) (cp_fd item) (cp_events item) (ps_kernel s))\<rparr>)"
| ctl_done: "ps_thread s = AtCtl [] \<Longrightarrow> poll_step ctl pipe_size Own s (s\<lparr>ps_thread := AtTimeout\<rparr>)"
| timeout: "ps_thread s = AtTimeout \<Longrightarrow> poll_step ctl pipe_size Own s (s\<lparr>ps_thread := AtWait (GetTimeoutMs (ps_poller s))\<rparr>)"
| epoll_wait: "ps_thread s = AtWait t \<Longrightarrow> length ready \<le> kPollSize \<Longrightarrow>
     poll_step ctl pipe_size Own s (s\<lparr>ps_thread := AtCount ready before_time_ns after_time_ns\<rparr>)"
| count: "ps_thread s = AtCount ready before_time_ns after_time_ns \<Longrightarrow>
     count_down (interval_ms before_time_ns after_time_ns) (po_ctrl_params (ps_poller s)) (po_requests (ps_poller s)) =
       Inr (requests', timeouts) \<Longrightarrow>
     poll_step ctl pipe_size Own s (s\<lparr>ps_thread := AtRespond (fold (\<lambda>(fd, events) rs. map_put fd \<lparr>rs_events = events\<rparr> rs) ready timeouts),
       ps_poller := (ps_poller s)\<lparr>po_requests := requests'\<rparr>\<rparr>)"
| count_fails: "ps_thread s = AtCount ready before_time_ns after_time_ns \<Longrightarrow>
     count_down (interval_ms before_time_ns after_time_ns) (po_ctrl_params (ps_poller s)) (po_requests (ps_poller s)) = Inl e \<Longrightarrow>
     poll_step ctl pipe_size Own s (s\<lparr>ps_thread := Failed e\<rparr>)"
| respond_gone: "ps_thread s = AtRespond ((fd, rsp) # rs) \<Longrightarrow> map_of (po_requests (ps_poller s)) fd = None \<Longrightarrow>
     poll_step ctl pipe_size Own s (s\<lparr>ps_thread := AtRespond rs\<rparr>)"
| respond_call: "ps_thread s = AtRespond ((fd, rsp) # rs) \<Longrightarrow> map_of (po_requests (ps_poller s)) fd = Some req \<Longrightarrow>
     poll_step ctl pipe_size (CallsBack fd (rq_callback req) (rs_events rsp)) s (s\<lparr>ps_thread := InCallback (rq_callback req) rs,
       ps_poller := (ps_poller s)\<lparr>po_requests := map_put fd (req\<lparr>rq_timeout_ms := -1\<rparr>) (po_requests (ps_poller s))\<rparr>\<rparr>)"
| respond_done: "ps_thread s = AtRespond [] \<Longrightarrow> poll_step ctl pipe_size Own s (s\<lparr>ps_thread := AtTest\<rparr>)"
| callback_null: "ps_thread s = InCallback None rs \<Longrightarrow> poll_step ctl pipe_size Own s (s\<lparr>ps_thread := Failed NullDereference\<rparr>)"
| callback_pipe: "ps_thread s = InCallback (Some 0) rs \<Longrightarrow>
     poll_step ctl pipe_size Own s (s\<lparr>ps_thread := AtRespond rs, ps_poller := (ps_poller s)\<lparr>po_pipe_bytes := 0\<rparr>\<rparr>)"
| callback_returns: "ps_thread s = InCallback (Some (Suc k)) rs \<Longrightarrow> poll_step ctl pipe_size Own s (s\<lparr>ps_thread := AtRespond rs\<rparr>)"
| callback_relocks: "ps_thread s = InCallback (Some (Suc k)) rs \<Longrightarrow> \<not> call_refused (ps_poller s) c \<Longrightarrow>
     poll_step ctl pipe_size Own s (s\<lparr>ps_thread := Relocking\<rparr>)"
| callback_shutdown: "ps_thread s = InCallback (Some (Suc k)) rs \<Longrightarrow> \<not> po_is_shutdown (ps_poller s) \<Longrightarrow>
     poll_step ctl pipe_size Own s (s\<lparr>ps_thread := Failed (runtime_error ''resource_deadlock_would_occur''),
       ps_poller := (ps_poller s)\<lparr>po_is_shutdown := True\<rparr>\<rparr>)"
| call: "at i Idle s \<Longrightarrow> poll_step ctl pipe_size Outside s (caller_goto i (Entering c) s)"
| refuse: "at i (Entering c) s \<Longrightarrow> call_refused (ps_poller s) c \<Longrightarrow> poll_step ctl pipe_size Outside s (caller_goto i (Returned False) s)"
| enter: "at i (Entering c) s \<Longrightarrow> \<not> call_refused (ps_poller s) c \<Longrightarrow> poll_step ctl pipe_size Outside s (caller_goto i (Locking c) s)"
| register: "at i (Locking (CRegister req)) s \<Longrightarrow> lock_free s \<Longrightarrow>
     poll_step ctl pipe_size (Registers (rq_fd req)) s ((caller_goto i Notifying s)\<lparr>ps_poller := Register_locked req (ps_poller s),
       ps_overtaken := ps_overtaken s \<union> overtakes req (ps_poller s)\<rparr>)"
| unregister_unknown: "at i (Locking (CUnregister req)) s \<Longrightarrow> lock_free s \<Longrightarrow>
     Unregister_locked garbage req (ps_poller s) = None \<Longrightarrow> poll_step ctl pipe_size Outside s (caller_goto i (Returned False) s)"
| unregister: "at i (Locking (CUnregister req)) s \<Longrightarrow> lock_free s \<Longrightarrow> Unregister_locked garbage req (ps_poller s) = Some p \<Longrightarrow>
     poll_step ctl pipe_size (Unregisters (rq_fd req)) s ((caller_goto i Notifying s)\<lparr>ps_poller := p\<rparr>)"
| notify_busy: "at i Notifying s \<Longrightarrow> ps_pipe_owner s = Some j \<Longrightarrow>
     poll_step ctl pipe_size Outside s ((caller_goto i (Returned True) s)\<lparr>ps_dropped := ps_dropped s \<or> at j Written s\<rparr>)"
| notify: "at i Notifying s \<Longrightarrow> ps_pipe_owner s = None \<Longrightarrow>
     poll_step ctl pipe_size Outside s ((caller_goto i Writing s)\<lparr>ps_pipe_owner := Some i\<rparr>)"
| write_pipe: "at i Writing s \<Longrightarrow> poll_step ctl pipe_size Outside s ((caller_goto i Written s)\<lparr>ps_poller :=
     (if po_pipe_fd1 (ps_poller s) \<ge> 0 then Notify True pipe_size (ps_poller s) else ps_poller s)\<rparr>)"
| unlock: "at i Written s \<Longrightarrow> poll_step ctl pipe_size Outside s ((caller_goto i (Returned True) s)\<lparr>ps_pipe_owner := None\<rparr>)"
| stop: "at i Idle s \<Longrightarrow> poll_step ctl pipe_size Outside s (caller_goto i Stopping s)"
| stop_again: "at i Stopping s \<Longrightarrow> po_is_shutdown (ps_poller s) \<Longrightarrow> poll_step ctl pipe_size Outside s (caller_goto i (Returned True) s)"
| stop_first: "at i Stopping s \<Longrightarrow> \<not> po_is_shutdown (ps_poller s) \<Longrightarrow>
     poll_step ctl pipe_size Outside s ((caller_goto i Joining s)\<lparr>ps_poller := (ps_poller s)\<lparr>po_is_shutdown := True\<rparr>\<rparr>)"
| join: "at i Joining s \<Longrightarrow> ps_thread s = AtEnd \<Longrightarrow>
     poll_step ctl pipe_size Outside s ((caller_goto i Clearing s)\<lparr>ps_poller := close_all (ps_poller s)\<rparr>)"
| clear: "at i Clearing s \<Longrightarrow> lock_free s \<Longrightarrow>
     poll_step ctl pipe_size Outside s ((caller_goto i (Returned True) s)\<lparr>ps_poller := clear_maps (ps_poller s)\<rparr>)"
| return: "at i (Returned r) s \<Longrightarrow> poll_step ctl pipe_size Outside s (caller_goto i Idle s)"

text \<open>A started poller and \<open>n\<close> threads that may call it, and the runs of the system.\<close>

definition poll_start :: "Poller \<Rightarrow> 'k \<Rightarrow> nat \<Rightarrow> 'k poll_sys" where
  "poll_start p k n = \<lparr>ps_poller = p, ps_kernel = k, ps_thread = AtTest, ps_callers = replicate n Idle,
     ps_pipe_owner = None, ps_overtaken = {}, ps_dropped = False\<rparr>"

inductive poll_run :: "'k epoll_ctl \<Rightarrow> nat \<Rightarrow> 'k poll_sys \<Rightarrow> poll_label list \<Rightarrow> 'k poll_sys \<Rightarrow> bool"
  for ctl :: "'k epoll_ctl" and pipe_size :: nat and s :: "'k poll_sys" where
  run_start: "poll_run ctl pipe_size s [] s"
| run_step: "poll_run ctl pipe_size s ls t \<Longrightarrow> poll_step ctl pipe_size l t u \<Longrightarrow> poll_run ctl pipe_size s (ls @ [l]) u"

inductive_cases poll_stepE: "poll_step ctl pipe_size l s t"

section \<open>Lemmas\<close>

subsection \<open>The sequential operations are made of these parts\<close>

lemma Register_parts:
  "Register owns n req p =
     (if call_refused p (CRegister req) then (False, p) else (True, Notify owns n (Register_locked req p)))"
  by (auto simp: Register_def call_refused_def Register_locked_def Let_def)

lemma Unregister_parts:
  "Unregister garbage owns n req p =
     (if call_refused p (CUnregister req) then (False, p)
      else case Unregister_locked garbage req p of None \<Rightarrow> (False, p) | Some p' \<Rightarrow> (True, Notify owns n p'))"
  by (auto simp: Unregister_def call_refused_def Unregister_locked_def Let_def)

lemma Clear_parts: "Clear p = (if po_running p \<and> \<not> po_is_shutdown p then None else Some (clear_maps (close_all p)))"
  by (simp add: Clear_def clear_maps_def close_all_def)

subsection \<open>Selectors\<close>

lemma caller_goto_sel [simp]:
  "ps_poller (caller_goto i pc s) = ps_poller s" "ps_kernel (caller_goto i pc s) = ps_kernel s" "ps_thread (caller_goto i pc s) = ps_thread s"
  "ps_pipe_owner (caller_goto i pc s) = ps_pipe_owner s" "ps_overtaken (caller_goto i pc s) = ps_overtaken s"
  "ps_dropped (caller_goto i pc s) = ps_dropped s" "ps_callers (caller_goto i pc s) = (ps_callers s)[i := pc]"
  by (simp_all add: caller_goto_def)

lemma locked_sel [simp]:
  "po_running (Register_locked req p) = po_running p" "po_is_shutdown (Register_locked req p) = po_is_shutdown p"
  "po_pipe_bytes (Register_locked req p) = po_pipe_bytes p" "po_pipe_fd1 (Register_locked req p) = po_pipe_fd1 p"
  "po_ctrl_params (close_all p) = po_ctrl_params p" "po_requests (close_all p) = po_requests p"
  "\<not> po_running (close_all p)" "po_is_shutdown (close_all p) = po_is_shutdown p"
  "po_running (clear_maps p) = po_running p" "po_requests (clear_maps p) = []" "po_ctrl_params (clear_maps p) = []"
  "po_is_shutdown (clear_maps p) = po_is_shutdown p" "po_pipe_fd1 (clear_maps p) = po_pipe_fd1 p"
  by (simp_all add: Register_locked_def Let_def close_all_def clear_maps_def)

lemma Notify_sel' [simp]: "po_running (Notify owns n p) = po_running p" "po_pipe_fd1 (Notify owns n p) = po_pipe_fd1 p"
  by (simp_all add: Notify_def)

lemma wanted_sel [simp]:
  "wanted (p\<lparr>po_ctrl_params := c\<rparr>) = wanted p" "wanted (p\<lparr>po_pipe_bytes := b\<rparr>) = wanted p"
  "wanted (p\<lparr>po_is_shutdown := d\<rparr>) = wanted p" "wanted (Notify owns n p) = wanted p"
  by (simp_all add: wanted_def fun_eq_iff)

lemma wanted_touch:
  "map_of (po_requests p) fd = Some req \<Longrightarrow>
   wanted (p\<lparr>po_requests := map_put fd (req\<lparr>rq_timeout_ms := t\<rparr>) (po_requests p)\<rparr>) = wanted p"
  by (auto simp: wanted_def fun_eq_iff)

lemma Unregister_lockedD:
  assumes "Unregister_locked garbage req p = Some p'"
  shows "po_running p' = po_running p" "po_is_shutdown p' = po_is_shutdown p" "po_pipe_bytes p' = po_pipe_bytes p"
    "po_pipe_fd1 p' = po_pipe_fd1 p" "po_requests p' = map_del (rq_fd req) (po_requests p)"
    "po_ctrl_params p' = map_put (rq_fd req) \<lparr>cp_operation = EPOLL_CTL_DEL, cp_fd = rq_fd req, cp_events = garbage\<rparr> (po_ctrl_params p)"
  using assms by (auto simp: Unregister_locked_def split: if_splits)

subsection \<open>The interest list\<close>

lemma count_down_map_of:
  "count_down d ctrl rs = Inr (rs', ts) \<Longrightarrow>
   map_option rq_events (map_of rs' fd) = map_option rq_events (map_of rs fd) \<and>
   map_option rq_callback (map_of rs' fd) = map_option rq_callback (map_of rs fd)"
proof (induction d ctrl rs arbitrary: rs' ts rule: count_down.induct)
  case (2 interval ctrl f request items)
  then show ?case
    by (auto simp: bindE_def split: sum.splits if_splits prod.splits)
qed simp

text \<open>What a list of changes makes of the events of a descriptor.\<close>

definition after_changes :: "(int \<times> PollCtrlParam) list \<Rightarrow> int \<Rightarrow> u32 option \<Rightarrow> u32 option" where
  "after_changes cps fd old =
     (case map_of cps fd of None \<Rightarrow> old | Some cp \<Rightarrow> changed (cp_operation cp) (cp_events cp) old)"

definition params_wf :: "(int \<times> PollCtrlParam) list \<Rightarrow> bool" where
  "params_wf cps \<longleftrightarrow> distinct (map fst cps) \<and> (\<forall>(fd, cp)\<in>set cps. cp_fd cp = fd)"

fun local_changes :: "poll_pc \<Rightarrow> (int \<times> PollCtrlParam) list" where
  "local_changes (AtCtl cps) = cps"
| "local_changes pc = []"

definition tracked :: "('k \<Rightarrow> int \<rightharpoonup> u32) \<Rightarrow> 'k poll_sys \<Rightarrow> bool" where
  "tracked interest s \<longleftrightarrow> params_wf (po_ctrl_params (ps_poller s)) \<and> params_wf (local_changes (ps_thread s)) \<and>
     (Clearing \<in> set (ps_callers s) \<longrightarrow> \<not> po_running (ps_poller s)) \<and>
     (po_running (ps_poller s) \<longrightarrow> (\<forall>fd. fd \<notin> ps_overtaken s \<longrightarrow> wanted (ps_poller s) fd =
        after_changes (po_ctrl_params (ps_poller s)) fd
          (after_changes (local_changes (ps_thread s)) fd (interest (ps_kernel s) fd))))"

lemma in_set_update: "x \<in> set (xs[i := y]) \<Longrightarrow> x = y \<or> x \<in> set xs"
  using set_update_subset_insert [of xs i y] by blast

lemma atD: "at i pc s \<Longrightarrow> i < length (ps_callers s) \<and> ps_callers s ! i = pc \<and> pc \<in> set (ps_callers s)"
  by (auto simp: at_def)

lemma params_wf_Nil [simp]: "params_wf []"
  by (simp add: params_wf_def)

lemma params_wf_put: "params_wf cps \<Longrightarrow> cp_fd cp = fd \<Longrightarrow> params_wf (map_put fd cp cps)"
  using set_map_put [of fd cp cps] unfolding params_wf_def by (auto simp: distinct_map_put)

lemma after_changes_Nil [simp]: "after_changes [] fd old = old"
  by (simp add: after_changes_def)

lemma after_changes_put [simp]: "after_changes (map_put fd cp cps) fd' old =
    (if fd' = fd then changed (cp_operation cp) (cp_events cp) old else after_changes cps fd' old)"
  by (simp add: after_changes_def)

lemma after_changes_step:
  assumes "epoll_ok ctl interest" and "params_wf ((fd, item) # cps)"
  shows "after_changes cps fd' (interest (snd (ctl (cp_operation item) (cp_fd item) (cp_events item) k)) fd') =
    after_changes ((fd, item) # cps) fd' (interest k fd')"
proof -
  have "map_of cps fd = None" "cp_fd item = fd" using assms(2) by (auto simp: params_wf_def map_of_eq_None_iff)
  then show ?thesis by (simp add: after_changes_def ctl_interest [OF assms(1)])
qed

lemma wanted_Register [simp]:
  "wanted (Register_locked req p) fd = (if fd = rq_fd req then Some (rq_events req) else wanted p fd)"
  by (simp add: wanted_def Register_locked_def Let_def)

text \<open>A registration that overtakes no addition and no deletion comes into effect.\<close>

lemma Register_after_changes:
  assumes "wanted p fd = after_changes (po_ctrl_params p) fd old" and "fd \<notin> overtakes req p"
  shows "wanted (Register_locked req p) fd = after_changes (po_ctrl_params (Register_locked req p)) fd old"
proof (cases "fd = rq_fd req")
  case True
  then have "pending_op p fd \<noteq> Some EPOLL_CTL_ADD" "pending_op p fd \<noteq> Some EPOLL_CTL_DEL"
    using assms(2) by (auto simp: overtakes_def split: if_splits)
  then have op: "map_of (po_ctrl_params p) fd = None \<or>
      (\<exists>cp. map_of (po_ctrl_params p) fd = Some cp \<and> cp_operation cp = EPOLL_CTL_MOD)"
    by (cases "map_of (po_ctrl_params p) fd") (auto simp: pending_op_def intro: epoll_op.exhaust)
  have "map_of (po_requests p) fd = None \<longleftrightarrow> wanted p fd = None" by (simp add: wanted_def)
  also have "wanted p fd = None \<longleftrightarrow> old = None"
    using assms(1) op by (auto simp: after_changes_def split: if_splits)
  finally show ?thesis using True by (simp add: Register_locked_def Let_def wanted_def)
next
  case False
  with assms(1) show ?thesis by (simp add: Register_locked_def Let_def wanted_def)
qed

lemma tracked_step:
  assumes "epoll_ok ctl interest" and "poll_step ctl n l s t" and "tracked interest s"
  shows "tracked interest t"
  using assms(2)
proof (cases rule: poll_step.cases)
  case (epoll_ctl fd item cps)
  then have "params_wf ((fd, item) # cps)" using assms(3) by (simp add: tracked_def)
  with after_changes_step [OF assms(1) this] epoll_ctl assms(3) show ?thesis
    by (simp add: tracked_def params_wf_def)
next
  case (count ready b a requests' timeouts)
  then show ?thesis
    using assms(3) count_down_map_of [OF count(4)] by (simp add: tracked_def wanted_def)
next
  case (respond_call fd rsp rs req)
  then show ?thesis using assms(3) wanted_touch [OF respond_call(4)] by (simp add: tracked_def)
next
  case (register i req)
  have "params_wf (po_ctrl_params (Register_locked req (ps_poller s)))"
    using assms(3) by (simp add: tracked_def Register_locked_def Let_def params_wf_put)
  then show ?thesis
    using register assms(3) Register_after_changes by (fastforce simp: tracked_def dest: in_set_update)
next
  case (unregister i req garbage p)
  note p = Unregister_lockedD [OF unregister(5)]
  have "wanted p fd = (if fd = rq_fd req then None else wanted (ps_poller s) fd)" for fd
    by (simp add: wanted_def p)
  then show ?thesis
    using unregister assms(3) by (auto simp: tracked_def p params_wf_put dest: in_set_update)
qed (use assms(3) in \<open>auto simp: tracked_def dest: in_set_update atD\<close>)

abbreviation any_poll_step :: "'k epoll_ctl \<Rightarrow> nat \<Rightarrow> 'k poll_sys \<Rightarrow> 'k poll_sys \<Rightarrow> bool" where
  "any_poll_step ctl n s t \<equiv> \<exists>l. poll_step ctl n l s t"

interpretation tracking: invariant_system "any_poll_step ctl n" "\<lambda>s. epoll_ok ctl interest \<and> tracked interest s" for ctl n interest
  by unfold_locales (auto intro: tracked_step)

lemma run_reaches: "poll_run ctl n s ls t \<Longrightarrow> (any_poll_step ctl n)\<^sup>*\<^sup>* s t"
  by (induction rule: poll_run.induct) (auto intro: rtranclp.rtrancl_into_rtrancl)

lemma run_Cons:
  assumes "poll_step ctl n l s t" and "poll_run ctl n t ls u"
  shows "poll_run ctl n s (l # ls) u"
  using assms(2)
proof (induction rule: poll_run.induct)
  case run_start
  show ?case using poll_run.run_step [OF poll_run.run_start assms(1)] by simp
next
  case (run_step ls t l' u)
  then show ?case using poll_run.run_step by fastforce
qed

lemma run_append: "poll_run ctl n t ks u \<Longrightarrow> poll_run ctl n s ls t \<Longrightarrow> poll_run ctl n s (ls @ ks) u"
proof (induction rule: poll_run.induct)
  case (run_step ks t l u)
  then show ?case using poll_run.run_step [of ctl n s "ls @ ks"] by simp
qed simp

subsection \<open>Undisturbed operations\<close>

text \<open>What the sequential operations do is one of the interleavings: the one in which no other thread gets in between.
  The callbacks are taken to return.\<close>

fun calls_of :: "poll_label list \<Rightarrow> (nat option \<times> u32) list" where
  "calls_of [] = []"
| "calls_of (CallsBack fd f ev # ls) = (f, ev) # calls_of ls"
| "calls_of (l # ls) = calls_of ls"

lemma calls_of_append [simp]: "calls_of (ls @ ks) = calls_of ls @ calls_of ks"
  by (induction ls rule: calls_of.induct) simp_all

lemma respond_bytes:
  "respond [] rs (p\<lparr>po_pipe_bytes := b\<rparr>) = (fst (respond [] rs p), (snd (respond [] rs p))\<lparr>po_pipe_bytes := b\<rparr>)"
proof (induction rs arbitrary: p)
  case (Cons r rs)
  obtain fd rsp where r: "r = (fd, rsp)" by (cases r)
  show ?case
  proof (cases "map_of (po_requests p) fd")
    case (Some req)
    let ?q = "p\<lparr>po_requests := map_put fd (req\<lparr>rq_timeout_ms := -1\<rparr>) (po_requests p)\<rparr>"
    have step: "respond [] (r # rs) p = ((rq_callback req, rs_events rsp) # fst (respond [] rs ?q), snd (respond [] rs ?q))"
      using Some by (simp add: r Let_def split: prod.split)
    have comm: "p\<lparr>po_pipe_bytes := b, po_requests := x\<rparr> = p\<lparr>po_requests := x, po_pipe_bytes := b\<rparr>" for x by simp
    have "respond [] (r # rs) (p\<lparr>po_pipe_bytes := b\<rparr>) =
        ((rq_callback req, rs_events rsp) # fst (respond [] rs (?q\<lparr>po_pipe_bytes := b\<rparr>)), snd (respond [] rs (?q\<lparr>po_pipe_bytes := b\<rparr>)))"
      using Some by (simp add: r Let_def comm split: prod.split)
    then show ?thesis unfolding step Cons.IH [of ?q] by simp
  qed (simp add: r Cons.IH)
qed simp

lemma callback_comes_back:
  assumes "ps_thread s = InCallback (Some k) rs"
  shows "\<exists>c. poll_step ctl n Own s (s\<lparr>ps_thread := AtRespond rs, ps_poller := (ps_poller s)\<lparr>po_pipe_bytes := c\<rparr>\<rparr>)"
proof (cases k)
  case 0
  then show ?thesis using callback_pipe [of s rs ctl n] assms by blast
next
  case (Suc k')
  have "s\<lparr>ps_thread := AtRespond rs, ps_poller := (ps_poller s)\<lparr>po_pipe_bytes := po_pipe_bytes (ps_poller s)\<rparr>\<rparr> =
      s\<lparr>ps_thread := AtRespond rs\<rparr>" by simp
  then show ?thesis using callback_returns [of s k' rs ctl n] assms Suc by metis
qed

lemma respond_run:
  assumes "ps_thread s = AtRespond rs" and "\<forall>fd req. map_of (po_requests (ps_poller s)) fd = Some req \<longrightarrow> rq_callback req \<noteq> None"
  shows "\<exists>ls b. poll_run ctl n s ls (s\<lparr>ps_thread := AtTest, ps_poller := (snd (respond [] rs (ps_poller s)))\<lparr>po_pipe_bytes := b\<rparr>\<rparr>) \<and>
    calls_of ls = fst (respond [] rs (ps_poller s))"
  using assms
proof (induction rs arbitrary: s)
  case Nil
  have "poll_run ctl n s [Own] (s\<lparr>ps_thread := AtTest\<rparr>)"
    using run_Cons [OF respond_done [OF Nil(1)] poll_run.run_start] .
  moreover have "s\<lparr>ps_thread := AtTest, ps_poller := (ps_poller s)\<lparr>po_pipe_bytes := po_pipe_bytes (ps_poller s)\<rparr>\<rparr> = s\<lparr>ps_thread := AtTest\<rparr>"
    by simp
  ultimately show ?case by (intro exI [of _ "[Own]"] exI [of _ "po_pipe_bytes (ps_poller s)"]) simp
next
  case (Cons r rs)
  obtain fd rsp where r: "r = (fd, rsp)" by (cases r)
  show ?case
  proof (cases "map_of (po_requests (ps_poller s)) fd")
    case None
    let ?s = "s\<lparr>ps_thread := AtRespond rs\<rparr>"
    have step: "poll_step ctl n Own s ?s" using respond_gone [of s fd rsp rs] Cons.prems(1) None by (simp add: r)
    obtain ls b where "poll_run ctl n ?s ls (?s\<lparr>ps_thread := AtTest, ps_poller := (snd (respond [] rs (ps_poller ?s)))\<lparr>po_pipe_bytes := b\<rparr>\<rparr>)"
        "calls_of ls = fst (respond [] rs (ps_poller ?s))"
      using Cons.IH [of ?s] Cons.prems(2) by auto
    with run_Cons [OF step] None show ?thesis by (intro exI [of _ "Own # ls"] exI [of _ b]) (simp add: r)
  next
    case (Some req)
    let ?p = "(ps_poller s)\<lparr>po_requests := map_put fd (req\<lparr>rq_timeout_ms := -1\<rparr>) (po_requests (ps_poller s))\<rparr>"
    let ?s = "s\<lparr>ps_thread := InCallback (rq_callback req) rs, ps_poller := ?p\<rparr>"
    have step: "poll_step ctl n (CallsBack fd (rq_callback req) (rs_events rsp)) s ?s"
      using respond_call [of s fd rsp rs req] Cons.prems(1) Some by (simp add: r)
    obtain k where k: "rq_callback req = Some k" using Cons.prems(2) Some by blast
    obtain c where returns: "poll_step ctl n Own ?s (?s\<lparr>ps_thread := AtRespond rs, ps_poller := ?p\<lparr>po_pipe_bytes := c\<rparr>\<rparr>)"
      using callback_comes_back [of ?s k rs ctl n] k by auto
    let ?t = "?s\<lparr>ps_thread := AtRespond rs, ps_poller := ?p\<lparr>po_pipe_bytes := c\<rparr>\<rparr>"
    have cbs: "\<forall>fd req. map_of (po_requests (ps_poller ?t)) fd = Some req \<longrightarrow> rq_callback req \<noteq> None"
      using Cons.prems(2) k by simp
    obtain ls b where ls: "poll_run ctl n ?t ls (?t\<lparr>ps_thread := AtTest, ps_poller := (snd (respond [] rs (ps_poller ?t)))\<lparr>po_pipe_bytes := b\<rparr>\<rparr>)"
        "calls_of ls = fst (respond [] rs (ps_poller ?t))"
      using Cons.IH [of ?t] cbs by auto
    have "respond [] (r # rs) (ps_poller s) =
        ((rq_callback req, rs_events rsp) # fst (respond [] rs ?p), snd (respond [] rs ?p))"
      using Some by (simp add: r Let_def split: prod.split)
    with run_Cons [OF step run_Cons [OF returns ls(1)]] ls(2) show ?thesis
      by (intro exI [of _ "CallsBack fd (rq_callback req) (rs_events rsp) # Own # ls"] exI [of _ b]) (simp add: respond_bytes)
  qed
qed

lemma changes_run:
  "ps_thread s = AtCtl cps \<Longrightarrow>
   \<exists>ls. poll_run ctl n s ls (s\<lparr>ps_thread := AtTimeout, ps_kernel := apply_changes ctl cps (ps_kernel s)\<rparr>) \<and> calls_of ls = []"
proof (induction cps arbitrary: s)
  case Nil
  have "s\<lparr>ps_thread := AtTimeout, ps_kernel := ps_kernel s\<rparr> = s\<lparr>ps_thread := AtTimeout\<rparr>" by simp
  with run_Cons [OF ctl_done [OF Nil] poll_run.run_start, of ctl n] show ?case
    by (intro exI [of _ "[Own]"]) simp
next
  case (Cons c cps)
  obtain fd item where c: "c = (fd, item)" by (cases c)
  let ?s = "s\<lparr>ps_thread := AtCtl cps, ps_kernel := snd (ctl (cp_operation item) (cp_fd item) (cp_events item) (ps_kernel s))\<rparr>"
  obtain ls where "poll_run ctl n ?s ls (?s\<lparr>ps_thread := AtTimeout, ps_kernel := apply_changes ctl cps (ps_kernel ?s)\<rparr>)"
      "calls_of ls = []"
    using Cons.IH [of ?s] by auto
  with run_Cons [OF epoll_ctl [of s fd item cps]] Cons.prems show ?case
    by (intro exI [of _ "Own # ls"]) (simp add: c)
qed

lemma HandleChanges_run:
  assumes "ps_thread s = AtSwap" and "HandleChanges ctl (ps_poller s) (ps_kernel s) = (p', k')"
  shows "\<exists>ls. poll_run ctl n s ls (s\<lparr>ps_thread := AtTimeout, ps_poller := p', ps_kernel := k', ps_dropped := False\<rparr>) \<and> calls_of ls = []"
proof (cases "po_ctrl_params (ps_poller s) = []")
  case True
  then have e: "p' = ps_poller s" "k' = ps_kernel s" using assms(2) by (simp_all add: HandleChanges_def)
  have "s\<lparr>ps_thread := AtTimeout, ps_poller := ps_poller s, ps_kernel := ps_kernel s, ps_dropped := False\<rparr> =
      s\<lparr>ps_thread := AtTimeout, ps_dropped := False\<rparr>" by simp
  with run_Cons [OF swap_empty [OF assms(1) True] poll_run.run_start, of ctl n] show ?thesis
    unfolding e by (intro exI [of _ "[Own]"]) simp
next
  case False
  let ?s = "s\<lparr>ps_thread := AtCtl (po_ctrl_params (ps_poller s)), ps_poller := (ps_poller s)\<lparr>po_ctrl_params := []\<rparr>, ps_dropped := False\<rparr>"
  obtain ls where ls: "poll_run ctl n ?s ls (?s\<lparr>ps_thread := AtTimeout, ps_kernel := k'\<rparr>)" "calls_of ls = []"
    using changes_run [of ?s "po_ctrl_params (ps_poller s)" ctl n] assms(2) False by (auto simp: HandleChanges_def)
  have "?s\<lparr>ps_thread := AtTimeout, ps_kernel := k'\<rparr> =
      s\<lparr>ps_thread := AtTimeout, ps_poller := p', ps_kernel := k', ps_dropped := False\<rparr>"
    using assms(2) False by (auto simp: HandleChanges_def)
  with run_Cons [OF swap [OF assms(1) refl False] ls(1)] ls(2) show ?thesis by (intro exI [of _ "Own # ls"]) simp
qed

lemma round_is_run:
  assumes "ps_thread s = AtTest" and "\<not> po_is_shutdown (ps_poller s)"
    and "\<forall>fd req. map_of (po_requests (ps_poller s)) fd = Some req \<longrightarrow> rq_callback req \<noteq> None"
    and "poll_round ctl wait id b a [] (ps_poller s) (ps_kernel s) = Inr (calls, p', k')"
  shows "\<exists>ls c. poll_run ctl n s ls (s\<lparr>ps_poller := p'\<lparr>po_pipe_bytes := c\<rparr>, ps_kernel := k', ps_dropped := False\<rparr>) \<and> calls_of ls = calls"
proof -
  obtain p1 where h: "HandleChanges ctl (ps_poller s) (ps_kernel s) = (p1, k')" and
    "bindE (Poll b a (take kPollSize (wait (GetTimeoutMs p1) k')) [] p1) (\<lambda>(calls, p2). Inr (calls, p2, k')) = Inr (calls, p', k')"
    using assms(4) by (auto simp: poll_round_def bindE_def split: prod.splits sum.splits)
  moreover define ready where "ready = take kPollSize (wait (GetTimeoutMs p1) k')"
  ultimately have "Poll b a ready [] p1 = Inr (calls, p')"
    by (auto simp: bindE_def split: sum.splits prod.splits)
  then obtain rs ts where count: "count_down (interval_ms b a) (po_ctrl_params p1) (po_requests p1) = Inr (rs, ts)"
    and resp: "respond [] (fold (\<lambda>(fd, events) rs. map_put fd \<lparr>rs_events = events\<rparr> rs) ready ts) (p1\<lparr>po_requests := rs\<rparr>) = (calls, p')"
    by (auto simp: Poll_def bindE_def Let_def split: sum.splits prod.splits)
  let ?rsps = "fold (\<lambda>(fd, events) rs. map_put fd \<lparr>rs_events = events\<rparr> rs) ready ts"
  let ?s1 = "s\<lparr>ps_thread := AtSwap\<rparr>"
  obtain ls1 where r1: "poll_run ctl n ?s1 ls1 (?s1\<lparr>ps_thread := AtTimeout, ps_poller := p1, ps_kernel := k', ps_dropped := False\<rparr>)"
      "calls_of ls1 = []"
    using HandleChanges_run [of ?s1 ctl p1 k' n] h by auto
  let ?s2 = "?s1\<lparr>ps_thread := AtTimeout, ps_poller := p1, ps_kernel := k', ps_dropped := False\<rparr>"
  let ?s3 = "?s2\<lparr>ps_thread := AtWait (GetTimeoutMs p1)\<rparr>"
  let ?s4 = "?s3\<lparr>ps_thread := AtCount ready b a\<rparr>"
  let ?s5 = "?s4\<lparr>ps_thread := AtRespond ?rsps, ps_poller := p1\<lparr>po_requests := rs\<rparr>\<rparr>"
  have "po_requests p1 = po_requests (ps_poller s)" using h by (auto simp: HandleChanges_def split: if_splits)
  then have "\<forall>fd req. map_of rs fd = Some req \<longrightarrow> rq_callback req \<noteq> None"
    using assms(3) count_down_map_of [OF count] by (metis (no_types, lifting) map_option_eq_Some)
  then obtain ls c where r5: "poll_run ctl n ?s5 ls (?s5\<lparr>ps_thread := AtTest, ps_poller := p'\<lparr>po_pipe_bytes := c\<rparr>\<rparr>)" "calls_of ls = calls"
    using respond_run [of ?s5 ?rsps ctl n] resp by auto
  have r2: "poll_step ctl n Own ?s2 ?s3" using timeout [of ?s2 ctl n] by simp
  have r3: "poll_step ctl n Own ?s3 ?s4" using epoll_wait [of ?s3 "GetTimeoutMs p1" ready ctl n b a] by (simp add: ready_def)
  have r4: "poll_step ctl n Own ?s4 ?s5" using poll_step.count [of ?s4 ready b a rs ts ctl n] count by simp
  have "poll_run ctl n s (Own # ls1 @ Own # Own # Own # ls) (?s5\<lparr>ps_thread := AtTest, ps_poller := p'\<lparr>po_pipe_bytes := c\<rparr>\<rparr>)"
    using run_Cons [OF test_on [OF assms(1,2)] run_append [OF run_Cons [OF r2 run_Cons [OF r3 run_Cons [OF r4 r5(1)]]] r1(1)]] .
  moreover have "?s5\<lparr>ps_thread := AtTest, ps_poller := p'\<lparr>po_pipe_bytes := c\<rparr>\<rparr> =
      s\<lparr>ps_poller := p'\<lparr>po_pipe_bytes := c\<rparr>, ps_kernel := k', ps_dropped := False\<rparr>"
    using assms(1) by simp
  ultimately show ?thesis using r1(2) r5(2)
    by (intro exI [of _ "Own # ls1 @ Own # Own # Own # ls"] exI [of _ c]) simp
qed

lemma Register_is_run:
  assumes "at i Idle s" and "lock_free s" and "ps_pipe_owner s = None" and "0 \<le> po_pipe_fd1 (ps_poller s)"
    and "Register True n req (ps_poller s) = (r, p')"
  shows "\<exists>ls s'. poll_run ctl n s ls s' \<and> at i (Returned r) s' \<and> ps_poller s' = p' \<and> ps_thread s' = ps_thread s \<and> ps_kernel s' = ps_kernel s"
proof -
  let ?c = "CRegister req"
  let ?s1 = "caller_goto i (Entering ?c) s"
  have i: "i < length (ps_callers s)" "ps_callers s ! i = Idle" using assms(1) by (simp_all add: at_def)
  have 1: "poll_step ctl n Outside s ?s1" using call [OF assms(1)] .
  show ?thesis
  proof (cases "call_refused (ps_poller s) ?c")
    case True
    have "poll_step ctl n Outside ?s1 (caller_goto i (Returned False) ?s1)"
      using refuse [of i ?c ?s1 ctl n] True i by (simp add: at_def)
    from run_Cons [OF 1 run_Cons [OF this poll_run.run_start]] show ?thesis
      using assms(5) True i by (intro exI) (auto simp: Register_parts at_def)
  next
    case False
    let ?s2 = "caller_goto i (Locking ?c) ?s1"
    let ?s3 = "(caller_goto i Notifying ?s2)\<lparr>ps_poller := Register_locked req (ps_poller ?s2),
       ps_overtaken := ps_overtaken ?s2 \<union> overtakes req (ps_poller ?s2)\<rparr>"
    let ?s4 = "(caller_goto i Writing ?s3)\<lparr>ps_pipe_owner := Some i\<rparr>"
    let ?s5 = "(caller_goto i Written ?s4)\<lparr>ps_poller := Notify True n (ps_poller ?s4)\<rparr>"
    let ?s6 = "(caller_goto i (Returned True) ?s5)\<lparr>ps_pipe_owner := None\<rparr>"
    have 2: "poll_step ctl n Outside ?s1 ?s2" using enter [of i ?c ?s1 ctl n] False i by (simp add: at_def)
    have 3: "poll_step ctl n (Registers (rq_fd req)) ?s2 ?s3"
      using register [of i req ?s2 ctl n] assms(2) i by (simp add: at_def lock_free_def)
    have 4: "poll_step ctl n Outside ?s3 ?s4" using notify [of i ?s3 ctl n] assms(3) i by (simp add: at_def)
    have 5: "poll_step ctl n Outside ?s4 ?s5" using write_pipe [of i ?s4 ctl n] assms(4) i by (simp add: at_def)
    have 6: "poll_step ctl n Outside ?s5 ?s6" using unlock [of i ?s5 ctl n] i by (simp add: at_def)
    from run_Cons [OF 1 run_Cons [OF 2 run_Cons [OF 3 run_Cons [OF 4 run_Cons [OF 5 run_Cons [OF 6 poll_run.run_start]]]]]]
    show ?thesis using assms(5) False i by (intro exI) (auto simp: Register_parts at_def)
  qed
qed

subsection \<open>Unregistering\<close>

lemma unknown_step:
  assumes "poll_step ctl n l s t" and "map_of (po_requests (ps_poller s)) fd = None" and "l \<noteq> Registers fd"
  shows "l \<noteq> CallsBack fd f ev \<and> map_of (po_requests (ps_poller t)) fd = None"
  using assms(1)
proof (cases rule: poll_step.cases)
  case (count ready b a requests' timeouts)
  then show ?thesis using assms(2) count_down_map_of [OF count(4), of fd] by simp
next
  case (register i req)
  then show ?thesis using assms(2,3) by (simp add: Register_locked_def Let_def)
next
  case (unregister i req garbage p)
  then show ?thesis using assms(2) by (simp add: Unregister_lockedD [OF unregister(5)])
qed (use assms(2) in \<open>auto simp: Notify_def\<close>)

lemma unknown_run:
  "poll_run ctl n s ls t \<Longrightarrow> map_of (po_requests (ps_poller s)) fd = None \<Longrightarrow> Registers fd \<notin> set ls \<Longrightarrow>
   CallsBack fd f ev \<notin> set ls \<and> map_of (po_requests (ps_poller t)) fd = None"
proof (induction rule: poll_run.induct)
  case (run_step ls t l u)
  then show ?case using unknown_step [OF run_step.hyps(2), of fd f ev] by auto
qed simp

subsection \<open>Waking the thread up\<close>

text \<open>Between the swap in \<open>HandleChanges\<close> and the return of \<open>epoll_wait\<close>.\<close>

fun before_wakeup :: "poll_pc \<Rightarrow> bool" where
  "before_wakeup (AtCtl cps) \<longleftrightarrow> True"
| "before_wakeup AtTimeout \<longleftrightarrow> True"
| "before_wakeup (AtWait t) \<longleftrightarrow> True"
| "before_wakeup pc \<longleftrightarrow> False"

definition notice :: "'k poll_sys \<Rightarrow> bool" where
  "notice s \<longleftrightarrow> 0 < po_pipe_bytes (ps_poller s) \<or> Notifying \<in> set (ps_callers s) \<or> Writing \<in> set (ps_callers s) \<or> ps_dropped s"

text \<open>The holder of \<open>pipe_mutex_\<close> is writing or has written, and the others are not.\<close>

definition owner_ok :: "'k poll_sys \<Rightarrow> bool" where
  "owner_ok s \<longleftrightarrow> (\<forall>i<length (ps_callers s). ps_callers s ! i \<in> {Writing, Written} \<longleftrightarrow> ps_pipe_owner s = Some i) \<and>
     (\<forall>i. ps_pipe_owner s = Some i \<longrightarrow> i < length (ps_callers s))"

definition wakeup_inv :: "'k poll_sys \<Rightarrow> bool" where
  "wakeup_inv s \<longleftrightarrow> owner_ok s \<and>
     (po_running (ps_poller s) \<and> 0 \<le> po_pipe_fd1 (ps_poller s) \<or> ps_thread s = AtEnd) \<and>
     (before_wakeup (ps_thread s) \<longrightarrow> po_ctrl_params (ps_poller s) \<noteq> [] \<longrightarrow> notice s) \<and>
     (\<forall>t. ps_thread s = AtWait t \<longrightarrow> 0 \<le> t \<and> t \<le> kPollTimeoutMs)"

lemma in_set_update_other: "x \<in> set xs \<Longrightarrow> i < length xs \<Longrightarrow> xs ! i \<noteq> x \<Longrightarrow> x \<in> set (xs[i := y])"
  by (metis in_set_conv_nth length_list_update nth_list_update_neq)

lemma owner_ok_goto:
  "owner_ok s \<Longrightarrow> at i old s \<Longrightarrow> old \<notin> {Writing, Written} \<Longrightarrow> pc \<notin> {Writing, Written} \<Longrightarrow> owner_ok (caller_goto i pc s)"
  by (auto simp: owner_ok_def at_def nth_list_update)

lemma notice_goto:
  "notice s \<Longrightarrow> at i old s \<Longrightarrow> old \<notin> {Notifying, Writing} \<Longrightarrow> notice (caller_goto i pc s)"
  by (auto simp: notice_def at_def intro: in_set_update_other)

lemma owner_ok_step:
  assumes "poll_step ctl n l s t" and "owner_ok s"
  shows "owner_ok t"
  using assms(1)
proof (cases rule: poll_step.cases)
  case (notify i)
  then show ?thesis using assms(2) by (auto simp: owner_ok_def at_def nth_list_update)
next
  case (write_pipe i)
  then show ?thesis using assms(2) by (auto simp: owner_ok_def at_def nth_list_update)
next
  case (unlock i)
  then have "ps_pipe_owner s = Some i" using assms(2) by (auto simp: owner_ok_def at_def)
  with unlock show ?thesis using assms(2) by (auto simp: owner_ok_def nth_list_update)
qed (use assms(2) owner_ok_goto [OF assms(2)] in \<open>auto simp: owner_ok_def\<close>)

lemma notice_step:
  assumes "poll_step ctl n l s t" and "0 < n" and "wakeup_inv s"
    and "before_wakeup (ps_thread t)" and "po_ctrl_params (ps_poller t) \<noteq> []"
  shows "notice t"
  using assms(1)
proof (cases rule: poll_step.cases)
  case (register i req)
  then show ?thesis by (simp add: notice_def at_def set_update_memI)
next
  case (unregister i req garbage p)
  then show ?thesis by (simp add: notice_def at_def set_update_memI)
next
  case (notify_busy i j)
  then have j: "j < length (ps_callers s)" "ps_callers s ! j \<in> {Writing, Written}" "j \<noteq> i"
    using assms(3) by (auto simp: wakeup_inv_def owner_ok_def at_def)
  then have "Writing \<in> set ((ps_callers s)[i := Returned True])" if "\<not> at j Written s"
    using that by (metis at_def insertE length_list_update nth_list_update_neq nth_mem singletonD)
  then show ?thesis using notify_busy by (auto simp: notice_def)
next
  case (notify i)
  then show ?thesis by (simp add: notice_def at_def set_update_memI)
next
  case (write_pipe i)
  then have "ps_thread s \<noteq> AtEnd" using assms(4) by auto
  then show ?thesis using write_pipe assms(2,3) by (auto simp: wakeup_inv_def notice_def Notify_def)
next
  case (unlock i)
  then have "notice (caller_goto i (Returned True) s)"
    using assms(3-5) by (intro notice_goto) (auto simp: wakeup_inv_def)
  with unlock show ?thesis by (simp add: notice_def)
next
  case (stop_first i)
  then have "notice (caller_goto i Joining s)"
    using assms(3-5) by (intro notice_goto) (auto simp: wakeup_inv_def)
  with stop_first show ?thesis by (simp add: notice_def)
qed (use assms(3-5) notice_goto [of s] in \<open>auto simp: wakeup_inv_def notice_def\<close>)

lemma wakeup_step:
  assumes "poll_step ctl n l s t" and "0 < n" and "wakeup_inv s"
  shows "wakeup_inv t"
proof -
  have "owner_ok t" using owner_ok_step [OF assms(1)] assms(3) by (simp add: wakeup_inv_def)
  moreover have "before_wakeup (ps_thread t) \<longrightarrow> po_ctrl_params (ps_poller t) \<noteq> [] \<longrightarrow> notice t"
    using notice_step [OF assms] by blast
  moreover have "(po_running (ps_poller t) \<and> 0 \<le> po_pipe_fd1 (ps_poller t) \<or> ps_thread t = AtEnd) \<and>
      (\<forall>d. ps_thread t = AtWait d \<longrightarrow> 0 \<le> d \<and> d \<le> kPollTimeoutMs)"
    using assms(1)
  proof (cases rule: poll_step.cases)
    case timeout
    then show ?thesis using assms(3) GetTimeoutMs_bounds [of "ps_poller s"] by (auto simp: wakeup_inv_def)
  next
    case (unregister i req garbage p)
    then show ?thesis using assms(3) by (auto simp: wakeup_inv_def Unregister_lockedD [OF unregister(5)])
  qed (use assms(3) in \<open>auto simp: wakeup_inv_def\<close>)
  ultimately show ?thesis by (simp add: wakeup_inv_def)
qed

interpretation waking: invariant_system "any_poll_step ctl n" "\<lambda>s. 0 < n \<and> wakeup_inv s" for ctl n
  by unfold_locales (auto intro: wakeup_step)

text \<open>The descriptor \<open>fd\<close> of the pipe stays registered as long as no client uses it.\<close>

definition pipe_inv :: "int \<Rightarrow> 'k poll_sys \<Rightarrow> bool" where
  "pipe_inv fd s \<longleftrightarrow> fd \<notin> ps_overtaken s \<and>
     (po_running (ps_poller s) \<longrightarrow> wanted (ps_poller s) fd = Some EPOLLIN \<and>
        (map_of (po_ctrl_params (ps_poller s)) fd = None \<or> ps_thread s \<in> {AtTest, AtSwap, AtEnd}))"

lemma pipe_step:
  assumes "poll_step ctl n l s t" and "tracked interest s" and "pipe_inv fd s" and "l \<noteq> Registers fd" and "l \<noteq> Unregisters fd"
  shows "pipe_inv fd t"
  using assms(1)
proof (cases rule: poll_step.cases)
  case (count ready b a requests' timeouts)
  then show ?thesis
    using assms(3) count_down_map_of [OF count(4), of fd] by (simp add: pipe_inv_def wanted_def)
next
  case (respond_call fd' rsp rs req)
  then show ?thesis using assms(3) wanted_touch [OF respond_call(4)] by (simp add: pipe_inv_def)
next
  case (register i req)
  then show ?thesis
    using assms(3,4) by (auto simp: pipe_inv_def overtakes_def) (auto simp: Register_locked_def Let_def)
next
  case (unregister i req garbage p)
  then show ?thesis
    using assms(3,5) by (auto simp: pipe_inv_def wanted_def Unregister_lockedD [OF unregister(5)])
next
  case (clear i)
  then show ?thesis using assms(2,3) by (auto simp: pipe_inv_def tracked_def dest: atD)
qed (use assms(3) in \<open>auto simp: pipe_inv_def\<close>)

subsection \<open>The start\<close>

lemma started:
  assumes "Poller_Init sys Poller_blank = (True, p)"
  shows "po_running p" "\<not> po_is_shutdown p" "wanted p = [po_pipe_fd0 p \<mapsto> EPOLLIN]"
    "po_ctrl_params p = [(po_pipe_fd0 p, \<lparr>cp_operation = EPOLL_CTL_ADD, cp_fd = po_pipe_fd0 p, cp_events = EPOLLIN\<rparr>)]"
  using assms by (auto simp: Poller_Init_def Poller_blank_def Let_def wanted_def fun_eq_iff split: if_splits option.splits)

lemma start_inv:
  assumes "Poller_Init sys Poller_blank = (True, p)"
  shows "interest k = Map.empty \<Longrightarrow> tracked interest (poll_start p k m)"
    "0 \<le> po_pipe_fd1 p \<Longrightarrow> wakeup_inv (poll_start p k m)" "pipe_inv (po_pipe_fd0 p) (poll_start p k m)"
  using started [OF assms]
  by (auto simp: tracked_def poll_start_def params_wf_def after_changes_def wakeup_inv_def owner_ok_def pipe_inv_def)

lemma pipe_run:
  assumes "epoll_ok ctl interest" and "poll_run ctl n s ls t" and "tracked interest s" and "pipe_inv fd s"
    and "Registers fd \<notin> set ls" and "Unregisters fd \<notin> set ls"
  shows "tracked interest t \<and> pipe_inv fd t"
  using assms(2,5,6)
proof (induction rule: poll_run.induct)
  case (run_step ls t l u)
  then have "tracked interest t \<and> pipe_inv fd t" by simp
  then show ?case
    using tracked_step [OF assms(1) run_step.hyps(2)] pipe_step [OF run_step.hyps(2), of interest fd] run_step.prems by auto
qed (use assms(3,4) in simp)

subsection \<open>The end of the thread\<close>

fun own :: "poll_label \<Rightarrow> bool" where
  "own Own \<longleftrightarrow> True"
| "own (CallsBack fd f ev) \<longleftrightarrow> True"
| "own l \<longleftrightarrow> False"

fun stopped :: "poll_pc \<Rightarrow> bool" where
  "stopped AtEnd \<longleftrightarrow> True"
| "stopped Relocking \<longleftrightarrow> True"
| "stopped (Failed e) \<longleftrightarrow> True"
| "stopped pc \<longleftrightarrow> False"

text \<open>How far the thread is from the end of its round: the phase, and the elements left in it.\<close>

fun rank :: "poll_pc \<Rightarrow> nat \<times> nat" where
  "rank AtSwap = (7, 0)"
| "rank (AtCtl cps) = (6, length cps)"
| "rank AtTimeout = (5, 0)"
| "rank (AtWait t) = (4, 0)"
| "rank (AtCount ready b a) = (3, 0)"
| "rank (AtRespond rs) = (2, 2 * length rs)"
| "rank (InCallback f rs) = (2, 2 * length rs + 1)"
| "rank AtTest = (1, 0)"
| "rank pc = (0, 0)"

abbreviation rank_less :: "((nat \<times> nat) \<times> (nat \<times> nat)) set" where
  "rank_less \<equiv> less_than <*lex*> less_than"

lemma wf_rank_less: "wf rank_less"
  by (simp add: wf_lex_prod)

lemma rank_step:
  assumes "poll_step ctl n l s t" and "po_is_shutdown (ps_poller s)"
  shows "po_is_shutdown (ps_poller t)" "own l \<Longrightarrow> (rank (ps_thread t), rank (ps_thread s)) \<in> rank_less"
    "\<not> own l \<Longrightarrow> ps_thread t = ps_thread s"
  using assms by (auto elim!: poll_stepE simp: Notify_def Unregister_lockedD call_refused_def)

text \<open>Unless it has stopped, the thread can go on, whatever the others do.\<close>

lemma own_enabled:
  assumes "\<not> stopped (ps_thread s)"
  shows "\<exists>l t. own l \<and> poll_step ctl n l s t"
proof (cases "ps_thread s")
  case AtTest
  then show ?thesis using test_on [of s ctl n] test_off [of s ctl n] own.simps(1) by blast
next
  case AtSwap
  then show ?thesis using swap_empty [of s ctl n] swap [of s _ ctl n] own.simps(1) by blast
next
  case (AtCtl cps)
  then show ?thesis
    using epoll_ctl [of s _ _ _ ctl n] ctl_done [of s ctl n] own.simps(1) by (metis list.exhaust surj_pair)
next
  case (AtWait t)
  then show ?thesis using epoll_wait [of s t "[]" ctl n] own.simps(1) by fastforce
next
  case (AtCount ready b a)
  then show ?thesis
    using count [OF AtCount, of _ _ ctl n] count_fails [OF AtCount, of _ ctl n] own.simps(1)
    by (metis old.prod.exhaust old.sum.exhaust)
next
  case (AtRespond rs)
  show ?thesis
  proof (cases rs)
    case Nil
    with AtRespond show ?thesis using respond_done own.simps(1) by blast
  next
    case (Cons r rs')
    obtain fd rsp where "r = (fd, rsp)" by (cases r)
    with Cons AtRespond show ?thesis
      using respond_gone [of s fd rsp rs' ctl n] respond_call [of s fd rsp rs' _ ctl n] own.simps(1,2)
      by (cases "map_of (po_requests (ps_poller s)) fd") blast+
  qed
next
  case (InCallback f rs)
  then show ?thesis
    using callback_null [of s rs ctl n] callback_pipe [of s rs ctl n] callback_returns [of s _ rs ctl n] own.simps(1)
    by (metis not0_implies_Suc option.exhaust)
next
  case AtTimeout
  then show ?thesis using timeout [of s ctl n] own.simps(1) by blast
qed (use assms in simp_all)

text \<open>Of an endless run in which the poller has been shut down, only finitely many steps are the thread's.\<close>

lemma finitely_many_own:
  assumes "\<And>i. poll_step ctl n (l i) (f i) (f (Suc i))" and "\<And>i. po_is_shutdown (ps_poller (f i))"
  shows "finite {i. k \<le> i \<and> own (l i)}"
proof (induction "rank (ps_thread (f k))" arbitrary: k rule: wf_induct_rule [OF wf_rank_less])
  case (1 k)
  show ?case
  proof (cases "\<exists>i\<ge>k. own (l i)")
    case True
    define j where "j = (LEAST i. k \<le> i \<and> own (l i))"
    have j: "k \<le> j" "own (l j)" using True LeastI_ex [of "\<lambda>i. k \<le> i \<and> own (l i)"] by (auto simp: j_def)
    have first: "\<not> own (l i)" if "k \<le> i" "i < j" for i using that not_less_Least [of i "\<lambda>i. k \<le> i \<and> own (l i)"] by (auto simp: j_def)
    have "ps_thread (f i) = ps_thread (f k)" if "k \<le> i" "i \<le> j" for i
      using that
    proof (induction i rule: dec_induct)
      case (step i)
      then have "ps_thread (f (Suc i)) = ps_thread (f i)" using first [of i] by (intro rank_step(3) [OF assms(1,2)]) simp
      with step show ?case by simp
    qed simp
    from this [OF j(1) order_refl] have "(rank (ps_thread (f (Suc j))), rank (ps_thread (f k))) \<in> rank_less"
      using rank_step(2) [OF assms(1,2) j(2)] by simp
    then have "finite {i. Suc j \<le> i \<and> own (l i)}" by (rule 1(1))
    moreover have "{i. k \<le> i \<and> own (l i)} \<subseteq> insert j {i. Suc j \<le> i \<and> own (l i)}" using first by force
    ultimately show ?thesis by (meson finite.insertI finite_subset)
  next
    case False
    then have "{i. k \<le> i \<and> own (l i)} = {}" by blast
    then show ?thesis by (simp only: finite.emptyI)
  qed
qed

lemma shutdown_stable:
  "(\<And>i. poll_step ctl n (l i) (f i) (f (Suc i))) \<Longrightarrow> po_is_shutdown (ps_poller (f 0)) \<Longrightarrow> po_is_shutdown (ps_poller (f i))"
  by (induction i) (auto intro: rank_step(1))

lemma Relocking_step:
  "poll_step ctl n l s t \<Longrightarrow> po_is_shutdown (ps_poller s) \<Longrightarrow> ps_thread t = Relocking \<longleftrightarrow> ps_thread s = Relocking"
  by (auto elim!: poll_stepE simp: call_refused_def)

subsection \<open>Concrete runs\<close>

text \<open>The runs to states with a property.\<close>

definition leads_to :: "'k epoll_ctl \<Rightarrow> nat \<Rightarrow> ('k poll_sys \<Rightarrow> poll_label list \<Rightarrow> bool) \<Rightarrow> 'k poll_sys \<Rightarrow> bool" where
  "leads_to ctl n P s \<longleftrightarrow> (\<exists>ls t. poll_run ctl n s ls t \<and> P t ls)"

lemma leads_now: "P s [] \<Longrightarrow> leads_to ctl n P s"
  unfolding leads_to_def by (blast intro: poll_run.run_start)

lemma leads_next: "poll_step ctl n l s t \<Longrightarrow> leads_to ctl n (\<lambda>u ls. P u (l # ls)) t \<Longrightarrow> leads_to ctl n P s"
  unfolding leads_to_def by (blast intro: run_Cons)

lemmas poll_exec = at_def caller_goto_def call_refused_def request_def lock_free_def Register_locked_def overtakes_def pending_op_def
  Notify_def interval_ms_def to_int32_def numeral_2_eq_2

section \<open>Properties\<close>

text \<open>(C8) The interest list of the kernel follows the registrations under every interleaving of the thread with the
  callers. In every reachable state of a running poller, the changes that the thread is applying and those that are
  pending lead from the interest list to exactly the registered descriptors with the events of their last registration,
  except for descriptors that were registered while an addition or a deletion of theirs was pending. When the thread
  waits for events, the kernel thus watches a descriptor without a pending change exactly as its clients want.\<close>

theorem interest_tracks_requests:
  assumes "epoll_ok ctl interest" and "Poller_Init sys Poller_blank = (True, p)" and "interest k = Map.empty"
    and "(any_poll_step ctl n)\<^sup>*\<^sup>* (poll_start p k m) s" and "po_running (ps_poller s)" and "fd \<notin> ps_overtaken s"
  shows "wanted (ps_poller s) fd = after_changes (po_ctrl_params (ps_poller s)) fd
       (after_changes (local_changes (ps_thread s)) fd (interest (ps_kernel s) fd)) \<and>
     (ps_thread s = AtWait t \<longrightarrow> map_of (po_ctrl_params (ps_poller s)) fd = None \<longrightarrow>
        interest (ps_kernel s) fd = wanted (ps_poller s) fd)"
proof -
  have "tracked interest s"
    using tracking.reachable_inv [OF assms(4)] assms(1) start_inv(1) [where interest = interest and k = k, OF assms(2,3)] by blast
  then show ?thesis using assms(5,6) by (simp add: tracked_def after_changes_def)
qed

text \<open>(C9) Once \<open>Unregister\<close> has taken effect, the callback of the descriptor does not run any more: none is running at that
  moment, and none starts in any continuation until the descriptor is registered again, even if the kernel has
  reported the descriptor already or its timeout has expired.\<close>

theorem unregistered_not_called:
  assumes "poll_step ctl n (Unregisters fd) s s'" and "poll_run ctl n s' ls t" and "Registers fd \<notin> set ls"
  shows "lock_free s' \<and> (\<forall>f ev. CallsBack fd f ev \<notin> set ls)"
proof -
  have "lock_free s'" "map_of (po_requests (ps_poller s')) fd = None"
    using assms(1) by (auto elim!: poll_stepE simp: lock_free_def Unregister_lockedD)
  with unknown_run [OF assms(2) _ assms(3)] show ?thesis by blast
qed

text \<open>(C11) The thread is woken up for changes. When it waits in \<open>epoll_wait\<close>, for at most \<open>kPollTimeoutMs\<close>, the kernel watches
  the pipe, as long as no client uses its descriptor; and when a change is pending, there is a byte in the pipe or a
  caller is about to write one, unless \<open>Notify\<close> gave up because another caller, which had written already, still held
  \<open>pipe_mutex_\<close>.\<close>

theorem changes_wake_thread:
  assumes "epoll_ok ctl interest" and "Poller_Init sys Poller_blank = (True, p)" and "interest k = Map.empty"
    and "0 \<le> po_pipe_fd1 p" and "0 < n" and "poll_run ctl n (poll_start p k m) ls s"
    and "Registers (po_pipe_fd0 p) \<notin> set ls" and "Unregisters (po_pipe_fd0 p) \<notin> set ls" and "ps_thread s = AtWait t"
  shows "0 \<le> t \<and> t \<le> 100 \<and> interest (ps_kernel s) (po_pipe_fd0 p) = Some EPOLLIN \<and>
     (po_ctrl_params (ps_poller s) \<noteq> [] \<longrightarrow> 0 < po_pipe_bytes (ps_poller s) \<or>
        Notifying \<in> set (ps_callers s) \<or> Writing \<in> set (ps_callers s) \<or> ps_dropped s)"
proof -
  have w: "wakeup_inv s"
    using waking.reachable_inv [OF run_reaches [OF assms(6)]] assms(5) start_inv(2) [OF assms(2,4), of k m] by blast
  have "tracked interest s \<and> pipe_inv (po_pipe_fd0 p) s"
    using pipe_run [OF assms(1,6) start_inv(1) [where interest = interest and k = k, OF assms(2,3)] start_inv(3) [OF assms(2)] assms(7,8)] .
  with w show ?thesis using assms(9) by (auto simp: wakeup_inv_def notice_def tracked_def pipe_inv_def after_changes_def)
qed


text \<open>A callback that registers or unregisters a descriptor never returns: its thread waits for the mutex that it holds,
  and from then on nobody registers or unregisters anything and no callback is called, for ever.\<close>

theorem callback_must_not_register:
  assumes "ps_thread s = InCallback (Some (Suc k)) rs" and "\<not> call_refused (ps_poller s) c"
  shows "\<exists>s'. poll_step ctl n Own s s' \<and>
     (\<forall>ls t. poll_run ctl n s' ls t \<longrightarrow> ps_thread t = Relocking \<and> \<not> lock_free t \<and> set ls \<subseteq> {Outside})"
proof (intro exI conjI allI impI)
  show "poll_step ctl n Own s (s\<lparr>ps_thread := Relocking\<rparr>)" using callback_relocks [OF assms] .
  fix ls t assume "poll_run ctl n (s\<lparr>ps_thread := Relocking\<rparr>) ls t"
  then have "ps_thread t = Relocking \<and> set ls \<subseteq> {Outside}"
    by (induction rule: poll_run.induct) (auto elim!: poll_stepE simp: lock_free_def)
  then show "ps_thread t = Relocking" "\<not> lock_free t" "set ls \<subseteq> {Outside}" by (auto simp: lock_free_def)
qed

text \<open>A notification can get lost: a caller registers a descriptor and has written to the pipe, but still holds
  \<open>pipe_mutex_\<close>, while the thread serves the pipe, applies the change and waits again; the \<open>Notify\<close> of a second caller then gives
  up, and the thread waits for the full \<open>kPollTimeoutMs\<close> with the second change pending, an empty pipe and nobody to
  write to it.\<close>

theorem lost_wakeup:
  "\<exists>ls s. poll_run ctl 65536 (poll_start fresh_poller k 2) ls s \<and> ps_thread s = AtWait 100 \<and>
     map_of (po_ctrl_params (ps_poller s)) 8 \<noteq> None \<and> po_pipe_bytes (ps_poller s) = 0 \<and> ps_callers s = [Idle, Idle]"
proof -
  let ?P = "\<lambda>s ls. ps_thread s = AtWait 100 \<and> map_of (po_ctrl_params (ps_poller s)) 8 \<noteq> None \<and>
      po_pipe_bytes (ps_poller s) = 0 \<and> ps_callers s = [Idle, Idle]"
  have "leads_to ctl 65536 ?P (poll_start fresh_poller k 2)"
    unfolding poll_start_def fresh_poller_eq
    apply (rule leads_next [OF poll_step.test_on]; simp)
    apply (rule leads_next [OF poll_step.swap [OF _ refl]]; simp)
    apply (rule leads_next [OF poll_step.epoll_ctl]; simp)
    apply (rule leads_next [OF poll_step.ctl_done]; simp)
    apply (rule leads_next [OF poll_step.timeout]; simp add: GetTimeoutMs_def)
    apply (rule leads_next [OF poll_step.call [of 0 _ _ _ "CRegister (request 7 1 (-1))"]]; simp add: poll_exec)
    apply (rule leads_next [OF poll_step.enter [of 0 "CRegister (request 7 1 (-1))"]]; simp add: poll_exec)
    apply (rule leads_next [OF poll_step.register [of 0 "request 7 1 (-1)"]]; simp add: poll_exec)
    apply (rule leads_next [OF poll_step.notify [of 0]]; simp add: poll_exec)
    apply (rule leads_next [OF poll_step.write_pipe [of 0]]; simp add: poll_exec)
    apply (rule leads_next [OF poll_step.epoll_wait [where ready = "[(4, 1)]" and before_time_ns = 0 and after_time_ns = 0]]; simp)
    apply (rule leads_next [OF poll_step.count]; simp add: poll_exec)
    apply (rule leads_next [OF poll_step.respond_call [where fd = 4 and
        req = "\<lparr>rq_fd = 4, rq_events = 1, rq_timeout_ms = -1, rq_callback = Some 0\<rparr>"]]; simp)
    apply (rule leads_next [OF poll_step.callback_pipe]; simp)
    apply (rule leads_next [OF poll_step.respond_done]; simp)
    apply (rule leads_next [OF poll_step.test_on]; simp)
    apply (rule leads_next [OF poll_step.swap [OF _ refl]]; simp)
    apply (rule leads_next [OF poll_step.epoll_ctl]; simp)
    apply (rule leads_next [OF poll_step.ctl_done]; simp)
    apply (rule leads_next [OF poll_step.timeout]; simp add: GetTimeoutMs_def poll_exec)
    apply (rule leads_next [OF poll_step.call [of 1 _ _ _ "CRegister (request 8 1 (-1))"]]; simp add: poll_exec)
    apply (rule leads_next [OF poll_step.enter [of 1 "CRegister (request 8 1 (-1))"]]; simp add: poll_exec)
    apply (rule leads_next [OF poll_step.register [of 1 "request 8 1 (-1)"]]; simp add: poll_exec)
    apply (rule leads_next [OF poll_step.notify_busy [of 1]]; simp add: poll_exec)
    apply (rule leads_next [OF poll_step.return [of 1 True]]; simp add: poll_exec)
    apply (rule leads_next [OF poll_step.unlock [of 0]]; simp add: poll_exec)
    apply (rule leads_next [OF poll_step.return [of 0 True]]; simp add: poll_exec)
    apply (rule leads_now)
    apply simp
    done
  then show ?thesis by (simp add: leads_to_def)
qed

subsection \<open>Witnesses\<close>

lemma fresh_init: "Poller_Init good_calls Poller_blank = (True, fresh_poller)"
  by (simp add: fresh_poller_eq good_calls_def Poller_Init_def Poller_blank_def)

text \<open>The thread waits, and a caller has registered a descriptor and written to the pipe.\<close>

lemma fresh_registered:
  "\<exists>s ls. poll_run kernel_ctl 9 (poll_start fresh_poller (\<lambda>_. None) 2) ls s \<and> ps_thread s = AtWait 100 \<and>
     po_running (ps_poller s) \<and> ps_overtaken s = {} \<and> map fst (po_ctrl_params (ps_poller s)) = [7] \<and>
     wanted (ps_poller s) 4 = Some 1 \<and> Registers 4 \<notin> set ls \<and> Unregisters 4 \<notin> set ls"
proof -
  let ?P = "\<lambda>s ls. ps_thread s = AtWait 100 \<and> po_running (ps_poller s) \<and> ps_overtaken s = {} \<and>
      map fst (po_ctrl_params (ps_poller s)) = [7] \<and> wanted (ps_poller s) 4 = Some 1 \<and> Registers 4 \<notin> set ls \<and> Unregisters 4 \<notin> set ls"
  have "leads_to kernel_ctl 9 ?P (poll_start fresh_poller (\<lambda>_. None) 2)"
    unfolding poll_start_def fresh_poller_eq
    apply (rule leads_next [OF poll_step.test_on]; simp)
    apply (rule leads_next [OF poll_step.swap [OF _ refl]]; simp)
    apply (rule leads_next [OF poll_step.epoll_ctl]; simp)
    apply (rule leads_next [OF poll_step.ctl_done]; simp)
    apply (rule leads_next [OF poll_step.timeout]; simp add: GetTimeoutMs_def)
    apply (rule leads_next [OF poll_step.call [of 0 _ _ _ "CRegister (request 7 1 (-1))"]]; simp add: poll_exec)
    apply (rule leads_next [OF poll_step.enter [of 0 "CRegister (request 7 1 (-1))"]]; simp add: poll_exec)
    apply (rule leads_next [OF poll_step.register [of 0 "request 7 1 (-1)"]]; simp add: poll_exec)
    apply (rule leads_next [OF poll_step.notify [of 0]]; simp add: poll_exec)
    apply (rule leads_next [OF poll_step.write_pipe [of 0]]; simp add: poll_exec)
    apply (rule leads_now)
    apply (simp add: wanted_def)
    done
  then show ?thesis unfolding leads_to_def by (elim exE) (intro exI)
qed

theorem interest_tracks_requests_witness:
  "\<exists>s. (any_poll_step kernel_ctl 9)\<^sup>*\<^sup>* (poll_start fresh_poller (\<lambda>_. None) 2) s \<and> ps_thread s = AtWait 100 \<and> ps_kernel s 4 = Some 1"
proof -
  obtain s ls where s: "poll_run kernel_ctl 9 (poll_start fresh_poller (\<lambda>_. None) 2) ls s" "ps_thread s = AtWait 100"
      "po_running (ps_poller s)" "ps_overtaken s = {}" "map fst (po_ctrl_params (ps_poller s)) = [7]" "wanted (ps_poller s) 4 = Some 1"
    using fresh_registered by (elim exE conjE) (rule that)
  then have "map_of (po_ctrl_params (ps_poller s)) 4 = None" by (auto simp: map_of_eq_None_iff simp flip: set_map)
  moreover have "4 \<notin> ps_overtaken s" using s(4) by simp
  ultimately have "ps_kernel s 4 = wanted (ps_poller s) 4"
    using interest_tracks_requests [OF kernel_ok fresh_init refl run_reaches [OF s(1)] s(3), of 4 100] s(2) by blast
  then have "ps_kernel s 4 = Some 1" using s(6) by simp
  with run_reaches [OF s(1)] s(2) show ?thesis by (intro exI conjI)
qed

theorem changes_wake_thread_witness:
  "\<exists>s ls. poll_run kernel_ctl 9 (poll_start fresh_poller (\<lambda>_. None) 2) ls s \<and> ps_thread s = AtWait 100 \<and>
     po_ctrl_params (ps_poller s) \<noteq> [] \<and> ps_kernel s 4 = Some 1 \<and> (0 < po_pipe_bytes (ps_poller s) \<or>
       Notifying \<in> set (ps_callers s) \<or> Writing \<in> set (ps_callers s) \<or> ps_dropped s)"
proof -
  obtain s ls where s: "poll_run kernel_ctl 9 (poll_start fresh_poller (\<lambda>_. None) 2) ls s" "ps_thread s = AtWait 100"
      "map fst (po_ctrl_params (ps_poller s)) = [7]" "Registers 4 \<notin> set ls" "Unregisters 4 \<notin> set ls"
    using fresh_registered by (elim exE conjE) (rule that)
  have fd: "po_pipe_fd0 fresh_poller = 4" "0 \<le> po_pipe_fd1 fresh_poller" by (simp_all add: fresh_poller_eq)
  have "po_ctrl_params (ps_poller s) \<noteq> []" using s(3) by auto
  with changes_wake_thread [OF kernel_ok fresh_init refl fd(2) _ s(1), of 100] s fd(1) show ?thesis by auto
qed

text \<open>The descriptor 7 is about to be answered when it is unregistered.\<close>

definition answering :: "(int \<Rightarrow> u32 option) poll_sys" where
  "answering = \<lparr>ps_poller = fresh_poller\<lparr>po_requests := [(7, request 7 1 5)], po_ctrl_params := []\<rparr>, ps_kernel = [7 \<mapsto> 1],
     ps_thread = AtRespond [(7, \<lparr>rs_events = 1\<rparr>)], ps_callers = [Locking (CUnregister (request 7 1 5))],
     ps_pipe_owner = None, ps_overtaken = {}, ps_dropped = False\<rparr>"

theorem unregistered_not_called_witness:
  "\<exists>s' t. poll_step kernel_ctl 9 (Unregisters 7) answering s' \<and> poll_run kernel_ctl 9 s' [Own, Own] t \<and> lock_free s' \<and>
     ps_thread t = AtTest"
proof -
  obtain p where p: "Unregister_locked 0 (request 7 1 5) (ps_poller answering) = Some p" "map_of (po_requests p) 7 = None"
    by (auto simp: Unregister_locked_def answering_def request_def)
  let ?s = "(caller_goto 0 Notifying answering)\<lparr>ps_poller := p\<rparr>"
  have u: "poll_step kernel_ctl 9 (Unregisters 7) answering ?s"
    using unregister [OF _ _ p(1), of 0] by (simp add: answering_def at_def lock_free_def request_def)
  have "poll_step kernel_ctl 9 Own ?s (?s\<lparr>ps_thread := AtRespond []\<rparr>)"
    by (rule respond_gone [where fd = 7]) (simp_all add: answering_def p(2))
  moreover have "poll_step kernel_ctl 9 Own (?s\<lparr>ps_thread := AtRespond []\<rparr>) (?s\<lparr>ps_thread := AtRespond [], ps_thread := AtTest\<rparr>)"
    by (rule respond_done) simp
  ultimately have r: "poll_run kernel_ctl 9 ?s [Own, Own] (?s\<lparr>ps_thread := AtRespond [], ps_thread := AtTest\<rparr>)"
    by (blast intro: run_Cons poll_run.run_start)
  from unregistered_not_called [OF u r] u r show ?thesis by fastforce
qed

text \<open>After the shutdown the thread ends, and a caller shuts the poller down again and again.\<close>

definition ending :: "poll_pc \<Rightarrow> caller_pc \<Rightarrow> (int \<Rightarrow> u32 option) poll_sys" where
  "ending pc c = \<lparr>ps_poller = fresh_poller\<lparr>po_is_shutdown := True\<rparr>, ps_kernel = Map.empty, ps_thread = pc, ps_callers = [c],
     ps_pipe_owner = None, ps_overtaken = {}, ps_dropped = False\<rparr>"

definition ending_run :: "nat \<Rightarrow> (int \<Rightarrow> u32 option) poll_sys" where
  "ending_run i = (case i of 0 \<Rightarrow> ending AtTest Idle
     | Suc j \<Rightarrow> ending AtEnd (if j mod 3 = 0 then Idle else if j mod 3 = 1 then Stopping else Returned True))"

lemma ending_run_step: "poll_step kernel_ctl 9 (if i = 0 then Own else Outside) (ending_run i) (ending_run (Suc i))"
proof (cases i)
  case 0
  then show ?thesis using test_off [of "ending AtTest Idle" kernel_ctl 9] by (simp add: ending_run_def ending_def)
next
  case (Suc j)
  have "poll_step kernel_ctl 9 Outside (ending AtEnd Idle) (ending AtEnd Stopping)"
    using stop [of 0 "ending AtEnd Idle" kernel_ctl 9] by (simp add: ending_def at_def caller_goto_def)
  moreover have "poll_step kernel_ctl 9 Outside (ending AtEnd Stopping) (ending AtEnd (Returned True))"
    using stop_again [of 0 "ending AtEnd Stopping" kernel_ctl 9] by (simp add: ending_def at_def caller_goto_def)
  moreover have "poll_step kernel_ctl 9 Outside (ending AtEnd (Returned True)) (ending AtEnd Idle)"
    using poll_step.return [of 0 True "ending AtEnd (Returned True)" kernel_ctl 9] by (simp add: ending_def at_def caller_goto_def)
  ultimately show ?thesis using Suc by (auto simp: ending_run_def mod_Suc)
qed


theorem callback_must_not_register_witness:
  "\<exists>s'. poll_step kernel_ctl 9 Own (answering\<lparr>ps_thread := InCallback (Some 7) []\<rparr>) s' \<and>
     (\<forall>ls t. poll_run kernel_ctl 9 s' ls t \<longrightarrow> ps_thread t = Relocking \<and> \<not> lock_free t \<and> set ls \<subseteq> {Outside})"
  using callback_must_not_register [of "answering\<lparr>ps_thread := InCallback (Some 7) []\<rparr>" 6 "[]" "CRegister (request 8 1 0)" kernel_ctl 9]
  by (simp add: answering_def call_refused_def request_def fresh_poller_eq)

end
