(* ===== verification/Time_Tool.thy ===== *)
theory Time_Tool
  imports Double_Format
begin

text \<open>
  The class \<open>Time\<close> of \<open>src/src/util/timetool.h\<close> and \<open>timetool.cc\<close>: nanoseconds in 64 bits.

  Several conversions go through \<open>double\<close>. A value of that type is a rational number here, and each
  operation rounds its exact result to the nearest one with 53 significant bits (\<open>dbl\<close>, ties to the
  even neighbour), which is the arithmetic of the type as long as exponents are in range, as they are
  for the numbers here. Clock readings and the calendar (\<open>localtime_r\<close> with \<open>std::put_time\<close>) are
  arguments.
\<close>

section \<open>Model\<close>

subsection \<open>Conversions from double precision\<close>

text \<open>The conversion to an integer type truncates; out of range it is undefined.\<close>

definition dbl_to_u64 :: "rat \<Rightarrow> u64 res" where
  "dbl_to_u64 x =
     (let i = (if 0 \<le> x then \<lfloor>x\<rfloor> else \<lceil>x\<rceil>) in
      if 0 \<le> i \<and> i < 2 ^ 64 then Inr (word_of_int i) else Inl BadConversion)"

text \<open>\<open>std::to_string\<close> of a non-negative \<open>double\<close>: six decimals.\<close>

definition to_string_double :: "rat \<Rightarrow> string" where
  "to_string_double x =
     (let k = nat (half_even (x * 1000000)) in
      show_nat (k div 1000000) @ ''.'' @ pad_left 6 CHR ''0'' (show_nat (k mod 1000000)))"

subsection \<open>Times\<close>

text \<open>The member \<open>nanoseconds_\<close>.\<close>

record Time =
  time_ns :: u64

definition Time_u64 :: "u64 \<Rightarrow> Time" where
  "Time_u64 nanoseconds = \<lparr>time_ns = nanoseconds\<rparr>"

definition Time_int :: "int \<Rightarrow> Time" where
  "Time_int nanoseconds = \<lparr>time_ns = word_of_int nanoseconds\<rparr>"

definition Time_double :: "rat \<Rightarrow> Time res" where
  "Time_double seconds = bindE (dbl_to_u64 (dbl (seconds * 1000000000))) (\<lambda>n. Inr \<lparr>time_ns = n\<rparr>)"

definition Time_sec_nsec :: "u32 \<Rightarrow> u32 \<Rightarrow> Time" where
  "Time_sec_nsec seconds nanoseconds = \<lparr>time_ns = ucast seconds * 1000000000 + ucast nanoseconds\<rparr>"

definition Time_MAX :: Time where
  "Time_MAX = Time_u64 (- 1)"

definition Time_MIN :: Time where
  "Time_MIN = Time_int 0"

text \<open>The clocks count nanoseconds in a signed number.\<close>

definition Time_Now :: "int \<Rightarrow> Time" where
  "Time_Now system_clock = Time_u64 (word_of_int system_clock)"

definition Time_MonoTime :: "int \<Rightarrow> Time" where
  "Time_MonoTime steady_clock = Time_u64 (word_of_int steady_clock)"

definition ns_dbl :: "Time \<Rightarrow> rat" where
  "ns_dbl t = dbl (of_nat (unat (time_ns t)))"

definition ToSecond :: "Time \<Rightarrow> rat" where
  "ToSecond t = dbl (ns_dbl t / 1000000000)"

definition ToMicrosecond :: "Time \<Rightarrow> u64 res" where
  "ToMicrosecond t = dbl_to_u64 (dbl (ns_dbl t / 1000))"

definition ToMillisecond :: "Time \<Rightarrow> u64 res" where
  "ToMillisecond t = dbl_to_u64 (dbl (ns_dbl t / 1000000))"

definition ToNanosecond :: "Time \<Rightarrow> u64" where
  "ToNanosecond t = time_ns t"

text \<open>The library keeps the point of time as a signed number of nanoseconds and drops the fraction of
  the second; \<open>localtime\<close> is the calendar text of a number of seconds, if it has one.\<close>

definition Time_ToString :: "(int \<Rightarrow> string option) \<Rightarrow> Time \<Rightarrow> string" where
  "Time_ToString localtime t =
     (case localtime (cdiv (sint (time_ns t)) 1000000000) of
        None \<Rightarrow> to_string_double (dbl (ns_dbl t / 1000000000))
      | Some s \<Rightarrow> s @ ''.'' @ pad_left 9 CHR ''0'' (show_nat (unat (time_ns t mod 1000000000))))"

text \<open>\<open>SleepUntil\<close> returns at the first reading of the system clock that is not before the time, of which the library
  keeps a signed number.\<close>

definition SleepUntil :: "int list \<Rightarrow> Time \<Rightarrow> int option" where
  "SleepUntil readings t = find (\<lambda>now. sint (ToNanosecond t) \<le> now) readings"

section \<open>Lemmas\<close>

lemma dbl_to_u64_floor: "0 \<le> x \<Longrightarrow> \<lfloor>x\<rfloor> < 2 ^ 64 \<Longrightarrow> dbl_to_u64 x = Inr (word_of_int \<lfloor>x\<rfloor>)"
  by (simp add: dbl_to_u64_def Let_def)

lemma dbl_to_u64_nat: "\<lfloor>x\<rfloor> = int k \<Longrightarrow> k < 2 ^ 64 \<Longrightarrow> dbl_to_u64 x = Inr (of_nat k)"
  by (subst dbl_to_u64_floor) (simp_all, metis of_nat_0_le_iff zero_le_floor)

lemma ns_dbl_exact: "unat (time_ns t) < 2 ^ 53 \<Longrightarrow> ns_dbl t = of_nat (unat (time_ns t))"
  unfolding ns_dbl_def by (rule dbl_of_nat)

lemma to_unit_exact:
  assumes "n < 2 ^ 53" and "0 < d"
  shows "dbl_to_u64 (dbl (rat_of_nat n / rat_of_nat d)) = Inr (of_nat (n div d))"
proof -
  have "n div d < 2 ^ 53" by (rule le_less_trans [OF div_le_dividend assms(1)])
  then have "n div d < 2 ^ 64" by simp
  moreover have "\<lfloor>dbl (rat_of_nat n / rat_of_nat d)\<rfloor> = int (n div d)"
    using floor_dblp_div [OF assms] by (simp add: dbl_nonneg)
  ultimately show ?thesis by (intro dbl_to_u64_nat)
qed

lemma floor_near: "\<bar>x - y\<bar> < 1 \<Longrightarrow> \<bar>\<lfloor>x\<rfloor> - \<lfloor>y :: rat\<rfloor>\<bar> \<le> 1"
  by (simp add: abs_le_iff abs_less_iff) linarith

lemma micro_near:
  assumes "0 < x" and "x < 2 ^ 61"
  shows "\<bar>dblp (dblp x / 1000) - x / 1000\<bar> < 1"
proof -
  have "\<bar>dblp x - x\<bar> \<le> x / 2 ^ 53" by (rule dblp_rel [OF assms(1)])
  then have a: "dblp x - x \<le> x / 2 ^ 53" "x - dblp x \<le> x / 2 ^ 53"
    by (simp_all only: abs_le_iff minus_diff_eq)
  have y: "0 < dblp x" by (rule dblp_pos [OF assms(1)])
  have "\<bar>dblp (dblp x / 1000) - dblp x / 1000\<bar> \<le> (dblp x / 1000) / 2 ^ 53"
    using y by (intro dblp_rel) simp
  then have b: "dblp (dblp x / 1000) - dblp x / 1000 \<le> (dblp x / 1000) / 2 ^ 53"
      "dblp x / 1000 - dblp (dblp x / 1000) \<le> (dblp x / 1000) / 2 ^ 53"
    by (simp_all only: abs_le_iff minus_diff_eq)
  show "\<bar>dblp (dblp x / 1000) - x / 1000\<bar> < 1"
    using a b assms unfolding abs_less_iff by simp
qed

section \<open>Properties\<close>

text \<open>(C30) The conversions to microseconds and milliseconds divide in \<open>double\<close>. Up to \<open>2 ^ 53\<close>
  nanoseconds (a hundred days) they agree with integer division in spite of the roundings; for a time
  of day until the year 2043 (\<open>2 ^ 61\<close> nanoseconds) the number of microseconds is at most one off.\<close>

theorem unit_conversions:
  "(unat (time_ns t) < 2 ^ 53 \<longrightarrow>
      ToMicrosecond t = Inr (of_nat (unat (time_ns t) div 1000)) \<and>
      ToMillisecond t = Inr (of_nat (unat (time_ns t) div 1000000))) \<and>
   (unat (time_ns t) < 2 ^ 61 \<longrightarrow>
      (\<exists>us. ToMicrosecond t = Inr us \<and> \<bar>int (unat us) - int (unat (time_ns t) div 1000)\<bar> \<le> 1))"
proof (intro conjI impI)
  assume n: "unat (time_ns t) < 2 ^ 53"
  show "ToMicrosecond t = Inr (of_nat (unat (time_ns t) div 1000))"
    using to_unit_exact [OF n, of 1000] unfolding ToMicrosecond_def ns_dbl_exact [OF n] by simp
  show "ToMillisecond t = Inr (of_nat (unat (time_ns t) div 1000000))"
    using to_unit_exact [OF n, of 1000000] unfolding ToMillisecond_def ns_dbl_exact [OF n] by simp
next
  assume n: "unat (time_ns t) < 2 ^ 61"
  define m where "m = unat (time_ns t)"
  define k where "k = \<lfloor>dbl (dbl (rat_of_nat m) / 1000)\<rfloor>"
  have "\<bar>dbl (dbl (rat_of_nat m) / 1000) - rat_of_nat m / 1000\<bar> < 1 \<and> 0 \<le> k"
  proof (cases "m = 0")
    case False
    have "rat_of_nat m < 2 ^ 61" using n unfolding m_def by (metis of_nat_less_iff of_nat_numeral of_nat_power)
    moreover have x: "0 < rat_of_nat m" "0 < dblp (rat_of_nat m) / 1000"
      using False dblp_pos [of "rat_of_nat m"] by simp_all
    moreover have "dbl (dbl (rat_of_nat m) / 1000) = dblp (dblp (rat_of_nat m) / 1000)"
      using x by (simp add: dbl_nonneg)
    ultimately show ?thesis
      using micro_near [of "rat_of_nat m"] dblp_pos [OF x(2)] by (simp add: k_def)
  qed (simp add: dbl_def dblp_def k_def)
  then have near: "\<bar>k - int (m div 1000)\<bar> \<le> 1" "0 \<le> k"
    using floor_near [of "dbl (dbl (rat_of_nat m) / 1000)" "rat_of_nat m / 1000"]
      floor_divide_of_nat_eq [of m 1000, where 'a = rat] by (simp_all add: k_def)
  have "k < 2 ^ 64" using near n unfolding m_def by auto
  with near(2) have "ToMicrosecond t = Inr (word_of_int k)"
    using dbl_to_u64_floor [of "dbl (dbl (rat_of_nat m) / 1000)"]
    unfolding ToMicrosecond_def ns_dbl_def m_def [symmetric] k_def by simp
  moreover have "uint (word_of_int k :: u64) = k" using near(2) \<open>k < 2 ^ 64\<close> by (simp add: uint_word_of_int)
  ultimately show "\<exists>us. ToMicrosecond t = Inr us \<and> \<bar>int (unat us) - int (unat (time_ns t) div 1000)\<bar> \<le> 1"
    using near(1) by (intro exI [of _ "word_of_int k"]) (simp add: m_def)
qed

text \<open>Beyond that the roundings show: for 1700000000000000999 ns the number of microseconds is one
  higher than the time in nanoseconds says, that is, a time not yet reached.\<close>

theorem ToMicrosecond_ahead:
  "ToMicrosecond (Time_u64 1700000000000000999) = Inr 1700000000000001 \<and>
   ToNanosecond (Time_u64 1700000000000000999) < 1700000000000001 * 1000"
proof -
  have "ilog2 1700000000000000999 = 60" by (rule ilog2_eqI) simp_all
  moreover have "\<lfloor>1700000000000000999 / 256 :: rat\<rfloor> = 6640625000000003" by (simp add: floor_eq_iff)
  ultimately have a: "dbl 1700000000000000999 = 1700000000000001024"
    by (simp add: dbl_def dblp_def ulp_def half_even_def Let_def)
  have "ilog2 (1700000000000001024 / 1000) = 50" by (rule ilog2_eqI) simp_all
  moreover have "\<lfloor>850000000000000512 / 125 :: rat\<rfloor> = 6800000000000004" by (simp add: floor_eq_iff)
  ultimately have b: "dbl (1700000000000001024 / 1000) = 1700000000000001"
    by (simp add: dbl_def dblp_def ulp_def half_even_def Let_def power_int_minus)
  have n: "ns_dbl (Time_u64 1700000000000000999) = 1700000000000001024"
    using a by (simp add: ns_dbl_def Time_u64_def)
  show ?thesis
    unfolding ToMicrosecond_def n b by (simp add: dbl_to_u64_def ToNanosecond_def Time_u64_def)
qed

text \<open>A time made of seconds and nanoseconds is exact for all arguments, also for more than
  \<open>10 ^ 9\<close> nanoseconds: the sum never leaves 64 bits.\<close>

theorem Time_sec_nsec_exact:
  "unat (ToNanosecond (Time_sec_nsec s n)) = unat s * 1000000000 + unat n"
proof -
  have "unat s < 2 ^ 32" "unat n < 2 ^ 32"
    using unsigned_less [of s, where 'a = nat] unsigned_less [of n, where 'a = nat] by simp_all
  then have "unat s * 1000000000 + unat n < 2 ^ 64" by simp
  moreover have "unat (ucast w :: u64) = unat w" for w :: u32
    using unsigned_less [of w, where 'a = nat] by (simp add: unsigned_ucast_eq take_bit_nat_eq_self)
  ultimately show ?thesis
    by (simp add: ToNanosecond_def Time_sec_nsec_def unat_word_ariths)
qed

text \<open>The printed time: for a time before \<open>2 ^ 63\<close> nanoseconds the text is the calendar text of its
  whole seconds, a point and exactly nine digits, which read as the remaining nanoseconds; so two
  times of the same second print the same only if they are equal. \<open>Time::MAX\<close> prints as a time in the
  first second of 1970.\<close>

theorem ToString_parts:
  assumes "unat (time_ns t) < 2 ^ 63"
    and "localtime (int (unat (time_ns t) div 1000000000)) = Some s" and "localtime 0 = Some s0"
  shows "\<exists>frac. Time_ToString localtime t = s @ ''.'' @ frac \<and> length frac = 9 \<and>
      read_digits 0 frac = (unat (time_ns t) mod 1000000000, []) \<and>
      Time_ToString localtime Time_MAX = s0 @ ''.709551615''"
proof -
  let ?n = "unat (time_ns t)"
  have "sint (time_ns t) = int ?n"
  proof -
    have "int ?n < 2 ^ 63" using assms(1) by (metis of_nat_less_iff of_nat_numeral of_nat_power)
    then have "uint (time_ns t) < 2 ^ 63" by simp
    then have "signed_take_bit 63 (uint (time_ns t)) = uint (time_ns t)"
      using uint_ge_0 [of "time_ns t"] by (intro signed_take_bit_int_eq_self) linarith+
    moreover have "sint (time_ns t) = signed_take_bit 63 (uint (time_ns t))"
      using sint_uint [of "time_ns t"] by simp
    ultimately show ?thesis by simp
  qed
  then have sec: "cdiv (sint (time_ns t)) 1000000000 = int (?n div 1000000000)"
    by (simp add: cint zdiv_int)
  have frac: "unat (time_ns t mod 1000000000) = ?n mod 1000000000" by (simp add: unat_mod)
  have "length (show_nat (?n mod 1000000000)) \<le> 9" by (rule length_show_nat) simp_all
  then have "length (pad_left 9 CHR ''0'' (show_nat (?n mod 1000000000))) = 9" by (simp add: pad_left_def)
  moreover have "Time_ToString localtime Time_MAX = s0 @ ''.709551615''"
    using assms(3) by (simp add: Time_ToString_def Time_MAX_def Time_u64_def cdiv_def pad_left_def
        show_base.simps digit_char_def unat_mod)
  ultimately show ?thesis
    using assms(2) sec frac read_padded [of 9 "?n mod 1000000000"] by (simp add: Time_ToString_def)
qed

text \<open>Sleeping until \<open>Time::MAX\<close>, or until any time from \<open>2 ^ 63\<close> nanoseconds on, is no sleep at all: the time is
  negative for the library.\<close>

theorem SleepUntil_far_future:
  assumes "2 ^ 63 \<le> unat (time_ns t)" and "0 \<le> now"
  shows "SleepUntil (now # later) t = Some now"
proof -
  have "(2::int) ^ 63 \<le> int (unat (time_ns t))" using assms(1) by (metis of_nat_le_iff of_nat_numeral of_nat_power)
  then have u: "(2::int) ^ 63 \<le> uint (time_ns t)" "uint (time_ns t) < 2 ^ 64"
    using unsigned_less [of "time_ns t", where 'a = int] by simp_all
  have "sint (time_ns t) = signed_take_bit 63 (uint (time_ns t))" using sint_uint [of "time_ns t"] by simp
  also have "\<dots> < 0"
  proof -
    have "uint (time_ns t) div 2 ^ 63 = 1" using u by simp
    then have "bit (uint (time_ns t)) 63" by (simp only: bit_iff_odd) simp
    then show ?thesis by (simp only: signed_take_bit_negative_iff)
  qed
  finally show ?thesis using assms(2) by (simp add: SleepUntil_def ToNanosecond_def)
qed

subsection \<open>Witnesses\<close>

theorem SleepUntil_far_future_witness: "SleepUntil [1700000000000000000] Time_MAX = Some 1700000000000000000"
  using SleepUntil_far_future [of Time_MAX 1700000000000000000 "[]"] by (simp add: Time_MAX_def Time_u64_def unsigned_minus_1_eq_mask mask_eq_exp_minus_1)

theorem unit_conversions_witness:
  "ToMicrosecond (Time_u64 1999999) = Inr 1999 \<and> ToMillisecond (Time_u64 1999999) = Inr 1"
  using unit_conversions [of "Time_u64 1999999"] by (simp add: Time_u64_def)

definition utc_sample :: "int \<Rightarrow> string option" where
  "utc_sample s = (if s = 0 then Some ''1970-01-01 00:00:00''
     else if s = 1 then Some ''1970-01-01 00:00:01'' else None)"

theorem ToString_parts_witness:
  "\<exists>frac. Time_ToString utc_sample (Time_u64 1000000042) = ''1970-01-01 00:00:01'' @ ''.'' @ frac \<and>
     read_digits 0 frac = (42, [])"
  using ToString_parts [of "Time_u64 1000000042" utc_sample "''1970-01-01 00:00:01''" "''1970-01-01 00:00:00''"]
  by (auto simp: Time_u64_def utc_sample_def)

end
