(* ===== verification/File_Handler.thy ===== *)
theory File_Handler
  imports Base_Msg
begin

text \<open>
  The file handler of \<open>src/src/util/file.h\<close> and \<open>file.cc\<close>: a stream on a file, read and written in
  pieces.

  Of \<open>std::fstream\<close> the model has what the handler uses: the position, the state bits, the
  count of the last unformatted read, and the direction it was opened for. The file system maps
  names to contents; whether the operating system lets a file be opened is the argument \<open>permits\<close>.
  Written bytes are in the file at once, as another reader sees them after the stream has been closed
  by its destructor. Bytes of strings and of vectors are both \<^typ>\<open>u8\<close>.
\<close>

section \<open>Model\<close>

subsection \<open>Streams\<close>

type_synonym filesystem = "string \<rightharpoonup> u8 list"

datatype openmode = Mode_in | Mode_out | Mode_in_out

record fstream =
  st_file :: "string option"
  st_in :: bool
  st_out :: bool
  st_pos :: nat
  st_eof :: bool
  st_fail :: bool
  st_gcount :: nat

definition fstream_new :: fstream where
  "fstream_new = \<lparr>st_file = None, st_in = False, st_out = False, st_pos = 0, st_eof = False,
     st_fail = False, st_gcount = 0\<rparr>"

text \<open>Opening for output alone truncates the file or creates it; otherwise it has to exist.\<close>

definition stream_open :: "(string \<Rightarrow> bool) \<Rightarrow> string \<Rightarrow> openmode \<Rightarrow> filesystem \<Rightarrow> fstream \<times> filesystem" where
  "stream_open permits name mode fs =
     (if permits name \<and> (mode = Mode_out \<or> fs name \<noteq> None)
      then (fstream_new\<lparr>st_file := Some name, st_in := mode \<noteq> Mode_out, st_out := mode \<noteq> Mode_in\<rparr>,
            if mode = Mode_out then fs(name \<mapsto> []) else fs)
      else (fstream_new\<lparr>st_fail := True\<rparr>, fs))"

definition contents :: "fstream \<Rightarrow> filesystem \<Rightarrow> u8 list" where
  "contents s fs = (case st_file s of None \<Rightarrow> [] | Some name \<Rightarrow> (case fs name of None \<Rightarrow> [] | Some c \<Rightarrow> c))"

abbreviation good :: "fstream \<Rightarrow> bool" where
  "good s \<equiv> \<not> st_eof s \<and> \<not> st_fail s"

text \<open>\<open>read\<close>: on a stream in good state, up to \<open>n\<close> bytes from the position on; fewer set both
  bits.\<close>

definition stream_read :: "int \<Rightarrow> fstream \<Rightarrow> filesystem \<Rightarrow> u8 list \<times> fstream" where
  "stream_read n s fs =
     (if \<not> good s then ([], s\<lparr>st_fail := True, st_gcount := 0\<rparr>)
      else let bytes = (if st_in s then take (nat n) (drop (st_pos s) (contents s fs)) else []);
               short = (int (length bytes) \<noteq> n)
           in (bytes, s\<lparr>st_pos := st_pos s + length bytes, st_gcount := length bytes,
                        st_eof := short, st_fail := short\<rparr>))"

definition stream_write :: "u8 list \<Rightarrow> fstream \<Rightarrow> filesystem \<Rightarrow> fstream \<times> filesystem" where
  "stream_write bytes s fs =
     (if \<not> good s then (s\<lparr>st_fail := True\<rparr>, fs)
      else case st_file s of
        Some name \<Rightarrow>
          if st_out s
          then (s\<lparr>st_pos := st_pos s + length bytes\<rparr>,
                fs(name \<mapsto> take (st_pos s) (contents s fs) @ bytes
                             @ drop (st_pos s + length bytes) (contents s fs)))
          else (s\<lparr>st_fail := (bytes \<noteq> [])\<rparr>, fs)
      | None \<Rightarrow> (s\<lparr>st_fail := (bytes \<noteq> [])\<rparr>, fs))"

subsection \<open>The handler\<close>

record FileHander =
  fh_stream :: fstream
  fh_filesize :: int

definition FileHander_new ::
    "(string \<Rightarrow> bool) \<Rightarrow> string \<Rightarrow> openmode \<Rightarrow> filesystem \<Rightarrow> FileHander res \<times> filesystem" where
  "FileHander_new permits filename mode fs =
     (case stream_open permits filename mode fs of (s, fs') \<Rightarrow>
        if st_file s = None then (Inl (runtime_error (''File open failed '' @ filename)), fs')
        else (Inr \<lparr>fh_stream = s\<lparr>st_pos := 0\<rparr>,
                   fh_filesize = to_int32 (int (length (contents s fs')))\<rparr>, fs'))"

definition writeFromString :: "u8 list \<Rightarrow> FileHander \<Rightarrow> filesystem \<Rightarrow> FileHander \<times> filesystem" where
  "writeFromString out h fs =
     (if st_fail (fh_stream h) then (h, fs)
      else case stream_write out (fh_stream h) fs of (s, fs') \<Rightarrow>
        (h\<lparr>fh_stream := s, fh_filesize := to_int32 (fh_filesize h + int (length out))\<rparr>, fs'))"

definition writeFromOctetVec :: "u8 list \<Rightarrow> FileHander \<Rightarrow> filesystem \<Rightarrow> FileHander \<times> filesystem" where
  "writeFromOctetVec out h fs =
     (if st_fail (fh_stream h) then (h, fs)
      else case stream_write out (fh_stream h) fs of (s, fs') \<Rightarrow>
        (h\<lparr>fh_stream := s, fh_filesize := to_int32 (fh_filesize h + int (length out))\<rparr>, fs'))"

text \<open>The caller's string \<open>out\<close> is resized, then its first bytes are overwritten. The result is the
  count, the string and the handler.\<close>

definition resized :: "nat \<Rightarrow> u8 list \<Rightarrow> u8 list res" where
  "resized n xs = (if vec_max_size < n then Inl length_error else Inr (take n xs @ replicate (n - length xs) 0))"

definition readToString :: "int \<Rightarrow> u8 list \<Rightarrow> FileHander \<Rightarrow> filesystem \<Rightarrow> (int \<times> u8 list \<times> FileHander) res" where
  "readToString maxSize out h fs =
     bindE (resized (to_size_t maxSize) out) (\<lambda>buf.
       case stream_read maxSize (fh_stream h) fs of (bytes, s) \<Rightarrow>
         Inr (to_int32 (int (st_gcount s)), bytes @ drop (length bytes) buf, h\<lparr>fh_stream := s\<rparr>))"

definition readToOctetVec :: "int \<Rightarrow> u8 list \<Rightarrow> FileHander \<Rightarrow> filesystem \<Rightarrow> (int \<times> u8 list \<times> FileHander) res" where
  "readToOctetVec maxSize out h fs =
     bindE (resized (to_size_t maxSize) out) (\<lambda>buf.
       case stream_read maxSize (fh_stream h) fs of (bytes, s) \<Rightarrow>
         let ret = to_int32 (int (st_gcount s)) in
         bindE (resized (to_size_t ret) (bytes @ drop (length bytes) buf)) (\<lambda>vec.
         Inr (ret, vec, h\<lparr>fh_stream := s\<rparr>)))"

text \<open>\<open>read\<close> into the memory \<open>out\<close> of the caller.\<close>

definition FileHander_read :: "int \<Rightarrow> u8 list \<Rightarrow> FileHander \<Rightarrow> filesystem \<Rightarrow> (int \<times> u8 list \<times> FileHander) res" where
  "FileHander_read maxSize out h fs =
     (case stream_read maxSize (fh_stream h) fs of (bytes, s) \<Rightarrow>
        if length out < length bytes then Inl OutOfBounds
        else Inr (to_int32 (int (st_gcount s)), bytes @ drop (length bytes) out, h\<lparr>fh_stream := s\<rparr>))"

definition readFile :: "(string \<Rightarrow> bool) \<Rightarrow> string \<Rightarrow> int \<Rightarrow> u8 list \<Rightarrow> filesystem \<Rightarrow> (int \<times> u8 list) res" where
  "readFile permits filename maxSize content fs =
     (case FileHander_new permits filename Mode_in fs of (r, fs') \<Rightarrow>
        bindE r (\<lambda>h. bindE (readToString maxSize content h fs') (\<lambda>(n, out, _). Inr (n, out))))"

definition writeFile :: "(string \<Rightarrow> bool) \<Rightarrow> string \<Rightarrow> u8 list \<Rightarrow> filesystem \<Rightarrow> unit res \<times> filesystem" where
  "writeFile permits filename content fs =
     (case FileHander_new permits filename Mode_out fs of (r, fs') \<Rightarrow>
        case r of Inl e \<Rightarrow> (Inl e, fs') | Inr h \<Rightarrow> (Inr (), snd (writeFromString content h fs')))"

section \<open>Lemmas\<close>

lemma to_size_t_int [simp]: "int32_ok n \<Longrightarrow> 0 \<le> n \<Longrightarrow> to_size_t n = nat n"
  by (simp add: cint)

lemma nat_below_max: "int32_ok n \<Longrightarrow> \<not> vec_max_size < nat n"
  by (auto simp: int32_ok_def vec_max_size_def)

lemma resized_nat: "int32_ok (int k) \<Longrightarrow> resized k xs = Inr (take k xs @ replicate (k - length xs) 0)"
  using nat_below_max [of "int k"] by (simp add: resized_def)

lemma resized_negative: "int32_ok n \<Longrightarrow> n < 0 \<Longrightarrow> resized (to_size_t n) xs = Inl length_error"
  using to_size_t_neg_large [of n] by (simp add: resized_def vec_max_size_def)

lemma FileHander_new_in:
  "permits f \<Longrightarrow> fs f = Some c \<Longrightarrow> FileHander_new permits f Mode_in fs =
     (Inr \<lparr>fh_stream = fstream_new\<lparr>st_file := Some f, st_in := True\<rparr>,
           fh_filesize = to_int32 (int (length c))\<rparr>, fs)"
  by (simp add: FileHander_new_def stream_open_def contents_def fstream_new_def)

lemma FileHander_new_out:
  "permits f \<Longrightarrow> FileHander_new permits f Mode_out fs =
     (Inr \<lparr>fh_stream = fstream_new\<lparr>st_file := Some f, st_out := True\<rparr>, fh_filesize = 0\<rparr>, fs(f \<mapsto> []))"
  by (simp add: FileHander_new_def stream_open_def contents_def fstream_new_def to_int32_def)

text \<open>A handler that reads the file \<open>f\<close> with contents \<open>c\<close> at position \<open>p\<close>.\<close>

definition reading :: "string \<Rightarrow> u8 list \<Rightarrow> nat \<Rightarrow> FileHander \<Rightarrow> filesystem \<Rightarrow> bool" where
  "reading f c p h fs \<longleftrightarrow> fs f = Some c \<and> st_file (fh_stream h) = Some f \<and> st_in (fh_stream h) \<and>
     good (fh_stream h) \<and> st_pos (fh_stream h) = p"

lemma stream_read_reading:
  assumes "reading f c p h fs" and "0 \<le> n"
  shows "stream_read n (fh_stream h) fs =
    (take (nat n) (drop p c),
     (fh_stream h)\<lparr>st_pos := p + min (length c - p) (nat n), st_gcount := min (length c - p) (nat n),
        st_eof := length c - p < nat n, st_fail := length c - p < nat n\<rparr>)"
proof -
  have "int (length (take (nat n) (drop p c))) \<noteq> n \<longleftrightarrow> length c - p < nat n" using assms(2) by auto
  with assms show ?thesis
    by (simp add: stream_read_def reading_def contents_def Let_def min.commute)
qed

text \<open>After a short read the stream is exhausted: it stays so, and reads return nothing.\<close>

definition piece_state :: "string \<Rightarrow> u8 list \<Rightarrow> nat \<Rightarrow> FileHander \<Rightarrow> filesystem \<Rightarrow> bool" where
  "piece_state f c p h fs \<longleftrightarrow>
     reading f c p h fs \<and> p \<le> length c \<or> \<not> good (fh_stream h) \<and> length c \<le> p"

lemma readToOctetVec_piece:
  assumes "piece_state f c p h fs" and "int32_ok (int k)" and "0 < k"
  obtains h' where "readToOctetVec (int k) out h fs =
      Inr (int (length (take k (drop p c))), take k (drop p c), h')"
    and "piece_state f c (p + k) h' fs"
proof -
  let ?b = "take k (drop p c)"
  let ?s = "snd (stream_read (int k) (fh_stream h) fs)"
  let ?h = "h\<lparr>fh_stream := ?s\<rparr>"
  have ok: "int32_ok (int (length ?b))" using assms(2) by (auto simp: int32_ok_def)
  have rd: "fst (stream_read (int k) (fh_stream h) fs) = ?b" "st_gcount ?s = length ?b"
      "piece_state f c (p + k) ?h fs"
  proof (atomize(full), cases "good (fh_stream h)")
    case True
    with assms(1) have r: "reading f c p h fs" "p \<le> length c" by (auto simp: piece_state_def)
    then show "fst (stream_read (int k) (fh_stream h) fs) = ?b \<and> st_gcount ?s = length ?b \<and>
        piece_state f c (p + k) ?h fs"
      using stream_read_reading [OF r(1), of "int k"] True
      by (auto simp: piece_state_def reading_def)
  next
    case False
    with assms(1) show "fst (stream_read (int k) (fh_stream h) fs) = ?b \<and> st_gcount ?s = length ?b \<and>
        piece_state f c (p + k) ?h fs"
      by (auto simp: piece_state_def reading_def stream_read_def)
  qed
  then have "readToOctetVec (int k) out h fs = Inr (int (length ?b), ?b, ?h)"
    using assms(2) ok by (auto simp: readToOctetVec_def resized_nat case_prod_beta Let_def cint min_def)
  with rd(3) show ?thesis by (rule that [rotated])
qed

fun read_pieces :: "nat \<Rightarrow> int \<Rightarrow> u8 list \<Rightarrow> FileHander \<Rightarrow> filesystem \<Rightarrow> (u8 list list \<times> FileHander) res" where
  "read_pieces 0 k out h fs = Inr ([], h)"
| "read_pieces (Suc n) k out h fs =
     bindE (readToOctetVec k out h fs) (\<lambda>(_, vec, h').
     bindE (read_pieces n k vec h' fs) (\<lambda>(ps, h''). Inr (vec # ps, h'')))"

lemma read_pieces_state:
  assumes "piece_state f c p h fs" and "int32_ok (int k)" and "0 < k"
  shows "\<exists>h'. read_pieces n (int k) out h fs = Inr (map (\<lambda>i. take k (drop (p + i * k) c)) [0..<n], h')"
  using assms(1)
proof (induction n arbitrary: p h out)
  case (Suc n)
  obtain h1 where h1: "readToOctetVec (int k) out h fs =
      Inr (int (length (take k (drop p c))), take k (drop p c), h1)" "piece_state f c (p + k) h1 fs"
    using readToOctetVec_piece [OF Suc.prems assms(2,3)] .
  obtain h2 where "read_pieces n (int k) (take k (drop p c)) h1 fs =
      Inr (map (\<lambda>i. take k (drop (p + k + i * k) c)) [0..<n], h2)"
    using Suc.IH [OF h1(2)] by blast
  with h1(1) show ?case
    by (simp add: upt_conv_Cons map_Suc_upt [symmetric] o_def ac_simps del: upt_Suc)
qed simp

lemma concat_pieces: "concat (map (\<lambda>i. take k (drop (i * k) c)) [0..<n]) = take (n * k) c"
  by (induction n) (simp_all add: add.commute [of k] flip: take_add)

fun write_pieces :: "u8 list list \<Rightarrow> FileHander \<Rightarrow> filesystem \<Rightarrow> FileHander \<times> filesystem" where
  "write_pieces [] h fs = (h, fs)"
| "write_pieces (b # bs) h fs = (case writeFromOctetVec b h fs of (h', fs') \<Rightarrow> write_pieces bs h' fs')"

definition writing :: "string \<Rightarrow> FileHander \<Rightarrow> filesystem \<Rightarrow> bool" where
  "writing f h fs \<longleftrightarrow> st_file (fh_stream h) = Some f \<and> st_out (fh_stream h) \<and> good (fh_stream h) \<and>
     (\<exists>c. fs f = Some c \<and> st_pos (fh_stream h) = length c)"

lemma write_pieces_append:
  assumes "writing f h fs" and "fs f = Some c"
  shows "\<exists>h'. write_pieces bs h fs = (h', fs(f \<mapsto> c @ concat bs)) \<and> writing f h' (fs(f \<mapsto> c @ concat bs)) \<and>
     (int32_ok (fh_filesize h) \<longrightarrow> fh_filesize h' = to_int32 (fh_filesize h + int (length (concat bs))))"
  using assms
proof (induction bs arbitrary: h fs c)
  case Nil
  then show ?case by (auto simp: fun_upd_idem cint)
next
  case (Cons b bs)
  let ?h = "h\<lparr>fh_stream := (fh_stream h)\<lparr>st_pos := length c + length b\<rparr>,
              fh_filesize := to_int32 (fh_filesize h + int (length b))\<rparr>"
  let ?fs = "fs(f \<mapsto> c @ b)"
  have w: "writeFromOctetVec b h fs = (?h, ?fs)"
    using Cons.prems by (auto simp: writing_def writeFromOctetVec_def stream_write_def contents_def)
  have "writing f ?h ?fs" using Cons.prems by (auto simp: writing_def)
  then have "\<exists>h'. write_pieces bs ?h ?fs = (h', ?fs(f \<mapsto> (c @ b) @ concat bs)) \<and>
      writing f h' (?fs(f \<mapsto> (c @ b) @ concat bs)) \<and>
      (int32_ok (fh_filesize ?h) \<longrightarrow> fh_filesize h' = to_int32 (fh_filesize ?h + int (length (concat bs))))"
    by (rule Cons.IH) simp
  then obtain h' where "write_pieces bs ?h ?fs = (h', ?fs(f \<mapsto> (c @ b) @ concat bs))"
      "writing f h' (?fs(f \<mapsto> (c @ b) @ concat bs))"
      "fh_filesize h' = to_int32 (fh_filesize ?h + int (length (concat bs)))"
    by (elim exE conjE) simp
  moreover have "to_int32 (to_int32 x + y) = to_int32 (x + y)" for x y
    using mod_add_left_eq [of "x + 2 ^ 31" "2 ^ 32" y] by (simp add: to_int32_def algebra_simps)
  ultimately show ?case using w by (intro exI [of _ h'] conjI) (simp_all add: add.assoc del: fun_upd_apply)
qed

section \<open>Properties\<close>

text \<open>Reading a file in pieces: \<open>n\<close> calls of \<open>readToOctetVec\<close> with the same size on a newly opened
  file return its consecutive pieces, whatever the caller's vector held before; put together they are
  the first \<open>n * k\<close> bytes of the file, the whole file once \<open>n * k\<close> is large enough, and the calls
  after the end return nothing.\<close>

theorem read_in_pieces:
  assumes "permits f" and "fs f = Some c" and "0 < k" and "int32_ok (int k)"
  shows "\<exists>h ps h'. FileHander_new permits f Mode_in fs = (Inr h, fs) \<and>
      read_pieces n (int k) out h fs = Inr (ps, h') \<and> concat ps = take (n * k) c \<and>
      (\<forall>i<n. ps ! i = take k (drop (i * k) c))"
proof -
  let ?h = "\<lparr>fh_stream = fstream_new\<lparr>st_file := Some f, st_in := True\<rparr>,
             fh_filesize = to_int32 (int (length c))\<rparr>"
  have "piece_state f c 0 ?h fs"
    using assms(2) by (simp add: piece_state_def reading_def fstream_new_def)
  then obtain h' where
      "read_pieces n (int k) out ?h fs = Inr (map (\<lambda>i. take k (drop (0 + i * k) c)) [0..<n], h')"
    using read_pieces_state [OF _ assms(4,3)] by blast
  then show ?thesis
    using FileHander_new_in [of permits f fs c] assms(1,2) concat_pieces [of k c n] by auto
qed

text \<open>(C29) Writing a file and reading it back: \<open>writeFile\<close> stores exactly the content and leaves the other
  files alone. \<open>readFile\<close> returns the number of bytes, but gives the caller a string of
  length \<open>maxSize\<close>: when the file is shorter, the rest of the string is what was there before, or
  zeroes. A negative size raises an exception, and a file that cannot be opened too.\<close>

theorem write_read_file:
  assumes "permits f" and "int32_ok m" and "writeFile permits f c fs = (r, fs')"
  shows "r = Inr () \<and> fs' = fs(f \<mapsto> c) \<and>
     readFile permits f m old fs' =
       (if m < 0 then Inl length_error
        else Inr (int (min (length c) (nat m)),
                  take (nat m) c @ drop (length c) (take (nat m) old @ replicate (nat m - length old) 0)))"
proof -
  let ?h = "\<lparr>fh_stream = fstream_new\<lparr>st_file := Some f, st_in := True\<rparr>,
             fh_filesize = to_int32 (int (length c))\<rparr>"
  have w: "r = Inr ()" "fs' = fs(f \<mapsto> c)"
    using assms(1,3)
    by (auto simp: writeFile_def FileHander_new_out writeFromString_def stream_write_def contents_def fstream_new_def)
  have new: "FileHander_new permits f Mode_in fs' = (Inr ?h, fs')"
    using FileHander_new_in [of permits f fs' c] assms(1) w(2) by simp
  have "reading f c 0 ?h fs'" using w(2) by (simp add: reading_def fstream_new_def)
  then have "readFile permits f m old fs' = Inr (int (min (length c) (nat m)),
      take (nat m) c @ drop (length c) (take (nat m) old @ replicate (nat m - length old) 0))" if "0 \<le> m"
    using that assms(2) stream_read_reading [of f c 0 ?h fs' m]
    by (auto simp: readFile_def new readToString_def resized_nat cint int32_ok_def min_def)
  moreover have "readFile permits f m old fs' = Inl length_error" if "m < 0"
    using that assms(2) by (simp add: readFile_def new readToString_def resized_negative)
  ultimately show ?thesis using w by auto
qed

text \<open>A file written piece by piece holds the pieces one after the other, and \<open>filesize_\<close> is its
  length as long as that is an \<open>int\<close>.\<close>

theorem write_in_pieces:
  assumes "permits f" and "length (concat bs) < 2 ^ 31"
  shows "\<exists>h fs0 h'. FileHander_new permits f Mode_out fs = (Inr h, fs0) \<and>
     write_pieces bs h fs0 = (h', fs(f \<mapsto> concat bs)) \<and> fh_filesize h' = int (length (concat bs))"
proof -
  let ?h = "\<lparr>fh_stream = fstream_new\<lparr>st_file := Some f, st_out := True\<rparr>, fh_filesize = 0\<rparr>"
  let ?fs = "fs(f \<mapsto> [])"
  have "writing f ?h ?fs" by (simp add: writing_def fstream_new_def)
  from write_pieces_append [OF this, of "[]" bs] obtain h' where
      "write_pieces bs ?h ?fs = (h', ?fs(f \<mapsto> [] @ concat bs))"
      "fh_filesize h' = to_int32 (fh_filesize ?h + int (length (concat bs)))"
    by (auto simp: int32_ok_def)
  moreover have "int32_ok (int (length (concat bs)))" using assms(2) by (simp add: int32_ok_def)
  ultimately show ?thesis using FileHander_new_out [of permits f fs] assms(1) by (simp add: cint)
qed

subsection \<open>Witnesses\<close>

definition one_file :: filesystem where
  "one_file = [''a'' \<mapsto> [1, 2, 3, 4, 5]]"

theorem read_in_pieces_witness:
  "\<exists>h ps h'. FileHander_new (\<lambda>_. True) ''a'' Mode_in one_file = (Inr h, one_file) \<and>
     read_pieces 3 2 [9] h one_file = Inr (ps, h') \<and> concat ps = [1, 2, 3, 4, 5] \<and> ps ! 2 = [5]"
proof -
  have "\<forall>i<3. ps ! i = take 2 (drop (i * 2) [1, 2, 3, 4, 5]) \<Longrightarrow> ps ! 2 = [5 :: u8]" for ps
    by (drule spec [of _ 2]) simp
  then show ?thesis
    using read_in_pieces [of "\<lambda>_. True" "''a''" one_file "[1, 2, 3, 4, 5]" 2 3 "[9]"]
    by (auto simp: one_file_def int32_ok_def)
qed

theorem write_read_file_witness:
  "\<exists>fs'. writeFile (\<lambda>_. True) ''b'' [7, 8] one_file = (Inr (), fs') \<and>
     readFile (\<lambda>_. True) ''b'' 4 [5, 5, 5] fs' = Inr (2, [7, 8, 5, 0])"
proof -
  obtain r fs' where w: "writeFile (\<lambda>_. True) ''b'' [7, 8] one_file = (r, fs')" by fastforce
  have "int32_ok 4" by (simp add: int32_ok_def)
  with w write_read_file [of "\<lambda>_. True" "''b''" 4 "[7, 8]" one_file r fs' "[5, 5, 5]"] show ?thesis
    by (auto simp: numeral_eq_Suc)
qed

theorem write_in_pieces_witness:
  "\<exists>h fs0 h'. FileHander_new (\<lambda>_. True) ''b'' Mode_out one_file = (Inr h, fs0) \<and>
     write_pieces [[1], [2, 3]] h fs0 = (h', one_file(''b'' \<mapsto> [1, 2, 3])) \<and> fh_filesize h' = 3"
  using write_in_pieces [of "\<lambda>_. True" "''b''" "[[1], [2, 3]]" one_file] by simp

end
