(* ===== verification/Tools.thy ===== *)
theory Tools
  imports Net_Msg Double_Format
begin

text \<open>
  Small tools: \<open>src/src/include/uuid.h\<close> and the functions of \<open>src/src/util/util.h\<close> that
  have state or loops of their own. The random bytes of \<open>GenerateUuid\<close> and the output of
  the command that \<open>exe_shell_ret\<close> runs are arguments. The template \<open>exe_shell\<close> has no model: its
  second call of \<open>snprintf\<close> lacks the size, so that no instance of it compiles.
\<close>

section \<open>Model\<close>

text \<open>\<open>GenerateUuid\<close>: each random byte as two hexadecimal digits.\<close>

definition hex2 :: "u8 \<Rightarrow> string" where
  "hex2 rc = (let hex = show_hex (unat rc) in if length hex < 2 then CHR ''0'' # hex else hex)"

definition GenerateUuid :: "u8 list \<Rightarrow> string" where
  "GenerateUuid random = concat (map hex2 random)"

text \<open>
  \<open>exe_shell_ret\<close>: the output is read in pieces of 128 bytes; the last byte of every piece is
  overwritten by the terminator. A read that returns nothing writes in front of the buffer.
  \<open>None\<close> is a failed \<open>popen\<close>.
\<close>

function shell_loop :: "string \<Rightarrow> string res" where
  "shell_loop s =
     (if s = [] then Inl OutOfBounds
      else let piece = takeWhile (\<lambda>c. c \<noteq> CHR 0x00) (butlast (take 128 s)) in
           if length s < 128 then Inr piece
           else bindE (shell_loop (drop 128 s)) (\<lambda>rest. Inr (piece @ rest)))"
  by pat_completeness auto
termination
  by (relation "measure length") auto

declare shell_loop.simps [simp del]

definition exe_shell_ret :: "string option \<Rightarrow> string res" where
  "exe_shell_ret output = (case output of None \<Rightarrow> Inr [] | Some s \<Rightarrow> shell_loop s)"

definition Stoi :: "string \<Rightarrow> int res" where
  "Stoi s = stoi s"

definition IntToIpString :: "u32 \<Rightarrow> string" where
  "IntToIpString a = inet_ntoa a"

text \<open>\<open>inet_aton\<close>: up to four numbers with points between them, each in the notation of C (hexadecimal, octal or
  decimal); all but the last are bytes, and the last fills the bytes that remain. White space ends the
  address.\<close>

definition oct_value :: "char \<Rightarrow> nat option" where
  "oct_value c = (case digit_value c of Some d \<Rightarrow> if d < 8 then Some d else None | None \<Rightarrow> None)"

definition scan_base :: "(char \<Rightarrow> nat option) \<Rightarrow> nat \<Rightarrow> string \<Rightarrow> nat \<times> string" where
  "scan_base dv b s =
     (digits_value dv b (takeWhile (\<lambda>c. dv c \<noteq> None) s), dropWhile (\<lambda>c. dv c \<noteq> None) s)"

definition scan_number :: "string \<Rightarrow> nat \<times> string" where
  "scan_number s =
     (if map lower (take 2 s) = ''0x'' \<and> 2 < length s \<and> hex_value (s ! 2) \<noteq> None then scan_base hex_value 16 (drop 2 s)
      else if take 1 s = ''0'' then scan_base oct_value 8 s
      else scan_base digit_value 10 s)"

lemma scan_number_shorter: "length (snd (scan_number s)) \<le> length s"
proof -
  have "length (dropWhile P t) \<le> length s" if "length t \<le> length s" for P and t :: string
    using length_dropWhile_le [of P t] that by linarith
  then show ?thesis by (simp add: scan_number_def scan_base_def del: not_None_eq)
qed

function aton_loop :: "nat list \<Rightarrow> string \<Rightarrow> u32 option" where
  "aton_loop bytes s =
     (if s = [] \<or> digit_value (hd s) = None then None
      else let val = fst (scan_number s); rest = snd (scan_number s) in
        if val > 0xffffffff then None
        else if rest \<noteq> [] \<and> hd rest = CHR ''.''
        then if length bytes > 2 \<or> val > 0xff then None else aton_loop (bytes @ [val]) (tl rest)
        else if rest \<noteq> [] \<and> \<not> isspace (hd rest) then None
        else if val \<ge> 256 ^ (4 - length bytes) then None
        else Some (of_nat (horner_sum id 256
               (bytes @ map (\<lambda>i. val div 256 ^ (3 - i) mod 256) [length bytes..<4]))))"
  by pat_completeness auto
termination
proof (relation "measure (\<lambda>(_, s). length s)")
  fix bytes :: "nat list" and s :: string and val rest
  assume "rest = snd (scan_number s)" "rest \<noteq> [] \<and> hd rest = CHR ''.''"
  then have "0 < length rest" "length rest \<le> length s" using scan_number_shorter [of s] by auto
  then have "length (tl rest) < length s" unfolding length_tl by linarith
  then show "((bytes @ [val], tl rest), bytes, s) \<in> measure (\<lambda>(_, s). length s)" by simp
qed auto

declare aton_loop.simps [simp del]

definition inet_aton :: "string \<Rightarrow> u32 option" where
  "inet_aton s = aton_loop [] s"

text \<open>The result of \<open>inet_aton\<close> is not looked at; the address is uninitialised if it fails.\<close>

definition IpStringToInt :: "u32 \<Rightarrow> string \<Rightarrow> u32" where
  "IpStringToInt garbage ip = (case inet_aton ip of Some a \<Rightarrow> a | None \<Rightarrow> garbage)"

text \<open>\<open>Hexdump\<close>, with the index of the next byte; \<open>len\<close> bytes can be read at \<open>data\<close>.\<close>

fun hexdump_from :: "nat \<Rightarrow> u8 list \<Rightarrow> string" where
  "hexdump_from i [] = []"
| "hexdump_from i (b # bs) =
     pad_left 2 CHR ''0'' (show_hex (unat b)) @ '' '' @
     (if i \<noteq> 0 \<and> (i + 1) mod 16 = 0 then [CHR 0x0A] else []) @ hexdump_from (Suc i) bs"

definition Hexdump :: "u8 list \<Rightarrow> string" where
  "Hexdump data = [CHR 0x0A] @ hexdump_from 0 data @ [CHR 0x0A]"


section \<open>Lemmas\<close>

lemma hex2_eq: "hex2 b = [digit_char (unat b div 16), digit_char (unat b mod 16)]"
proof (cases "unat b < 16")
  case True
  then have "digit_char 0 = CHR ''0''" "unat b div 16 = 0" "unat b mod 16 = unat b"
    by (simp_all add: digit_char_def)
  with True show ?thesis by (simp add: hex2_def show_base.simps [of 16 "unat b"])
next
  case False
  have "unat b div 16 < 16" using unat_u8_less [of b] by simp
  with False show ?thesis
    by (simp add: hex2_def show_base.simps [of 16 "unat b"] show_base.simps [of 16 "unat b div 16"])
qed

lemma hex2_inj: "hex2 a = hex2 b \<Longrightarrow> a = b"
proof -
  assume eq: "hex2 a = hex2 b"
  have "unat a div 16 < 16" "unat b div 16 < 16" using unat_u8_less [of a] unat_u8_less [of b] by simp_all
  then have "unat a div 16 = unat b div 16"
    using eq by (auto simp: hex2_eq intro: digit_char_inj)
  moreover have "unat a mod 16 = unat b mod 16"
    using eq by (auto simp: hex2_eq intro: digit_char_inj)
  ultimately have "unat a = unat b" by (metis div_mult_mod_eq)
  then show "a = b" by (simp only: word_unat_eq_iff)
qed

fun chunks :: "nat \<Rightarrow> 'a list \<Rightarrow> 'a list list" where
  "chunks k [] = []"
| "chunks k (x # xs) = take (Suc k) (x # xs) # chunks k (drop k xs)"

lemma shell_loop_chunks:
  assumes "CHR 0x00 \<notin> set s"
  shows "shell_loop s =
    (if length s mod 128 = 0 then Inl OutOfBounds else Inr (concat (map butlast (chunks 127 s))))"
  using assms
proof (induction "length s" arbitrary: s rule: less_induct)
  case less
  show ?case
  proof (cases s)
    case Nil
    then show ?thesis by (simp add: shell_loop.simps)
  next
    case (Cons c cs)
    then have ne: "s \<noteq> []" by simp
    have chunk: "chunks 127 s = take 128 s # chunks 127 (drop 128 s)"
      by (simp add: Cons)
    have piece: "takeWhile (\<lambda>c. c \<noteq> CHR 0x00) (butlast (take 128 s)) = butlast (take 128 s)"
      using less.prems by (auto simp: takeWhile_eq_all_conv dest!: in_set_butlastD in_set_takeD)
    show ?thesis
    proof (cases "length s < 128")
      case True
      then have "shell_loop s = Inr (butlast (take 128 s))"
        using ne piece by (subst shell_loop.simps) simp
      with True ne chunk show ?thesis by simp
    next
      case False
      have "shell_loop (drop 128 s) = (if length (drop 128 s) mod 128 = 0 then Inl OutOfBounds
          else Inr (concat (map butlast (chunks 127 (drop 128 s)))))"
        using less.prems False by (intro less.hyps) (auto dest: in_set_dropD)
      moreover have "length (drop 128 s) mod 128 = length s mod 128"
        using False by (simp add: le_mod_geq)
      ultimately show ?thesis
        using False ne piece chunk by (subst shell_loop.simps) (simp add: Let_def)
    qed
  qed
qed


subsection \<open>Addresses\<close>

lemma hd_show_nat_zero: "hd (show_nat n) = CHR ''0'' \<longleftrightarrow> n = 0"
proof (induction n rule: less_induct)
  case (less n)
  show ?case
  proof (cases "n < 10")
    case True
    have "digit_char 0 = CHR ''0''" by (simp add: digit_char_def)
    with True digit_char_inj [of n 0] show ?thesis by (auto simp: show_base.simps [of 10 n])
  next
    case False
    then show ?thesis using less [of "n div 10"] by (subst show_base.simps) simp
  qed
qed

lemma scan_number_show:
  assumes r: "r = [] \<or> hd r = CHR ''.''"
  shows "scan_number (show_nat n @ r) = (n, r)"
proof (cases "n = 0")
  case True
  have zero: "show_nat 0 = ''0''" by (simp add: show_base.simps [of 10 0] digit_char_def)
  have "oct_value CHR ''0'' = Some 0" "oct_value CHR ''.'' = None" by (simp_all add: oct_value_def digit_value_def)
  with r show ?thesis
    by (cases r) (simp_all add: True zero scan_number_def scan_base_def digits_value_def lower_def numeral_2_eq_2)
next
  case False
  obtain c cs where s: "show_nat n = c # cs" by (meson list.exhaust show_base_nonempty)
  have c: "c \<noteq> CHR ''0''" using hd_show_nat_zero [of n] False s by simp
  have "c \<in> number_chars" using all_digits_chars [OF all_digits_simps(2), of n] s by simp
  then have "lower c \<noteq> CHR ''0''" using c number_chars_plain by simp
  moreover have "r = [] \<or> digit_value (hd r) = None" using r by (auto simp: digit_value_def)
  ultimately show ?thesis
    using takeWhile_digits [OF all_digits_simps(2), of r n] dec_value_show [of n] c
    by (simp add: scan_number_def scan_base_def s numeral_2_eq_2)
qed

lemma show_nat_starts: "digit_value (hd (show_nat n @ r)) \<noteq> None"
  using hd_show_nat [of n] by auto

lemma aton_byte:
  assumes "n < 256" and "length bytes \<le> 2"
  shows "aton_loop bytes (show_nat n @ ''.'' @ s) = aton_loop (bytes @ [n]) s"
  using assms show_nat_starts [of n "''.'' @ s"] by (subst aton_loop.simps) (auto simp: scan_number_show)

lemma aton_last:
  assumes "n < 256" and "length bytes = 3"
  shows "aton_loop bytes (show_nat n) = Some (of_nat (horner_sum id 256 (bytes @ [n])))"
proof -
  have "[3..<4] = [3::nat]" by (simp add: upt_rec)
  then show ?thesis
    using assms show_nat_starts [of n "[]"] scan_number_show [of "[]" n] by (subst aton_loop.simps) simp
qed

section \<open>Properties\<close>

text \<open>(C38) Printing an address and reading it back gives the address, for all 32-bit values.\<close>

theorem ip_round_trip: "IpStringToInt garbage (IntToIpString a) = a"
proof -
  let ?n = "unat a"
  have n: "?n < 4294967296" using unsigned_less [of a, where 'a = nat] by simp
  have bytes: "?n mod 256 < 256" "?n div 256 mod 256 < 256" "?n div 65536 mod 256 < 256" "?n div 16777216 < 256"
    using n by simp_all
  have "aton_loop [] (inet_ntoa a) = Some (of_nat (horner_sum id 256
      ([?n mod 256, ?n div 256 mod 256, ?n div 65536 mod 256] @ [?n div 16777216])))"
    using bytes by (simp add: inet_ntoa_def Let_def aton_byte [simplified] aton_last)
  also have "horner_sum id 256 ([?n mod 256, ?n div 256 mod 256, ?n div 65536 mod 256] @ [?n div 16777216]) = ?n"
  proof -
    have "?n div 65536 = ?n div 256 div 256" "?n div 16777216 = ?n div 256 div 256 div 256"
      by (simp_all add: div_mult2_eq [symmetric])
    then show ?thesis by (simp only: append.simps horner_sum_simps id_apply mod_mult_div_eq mult_zero_right add_0_right)
  qed
  finally show ?thesis by (simp add: IpStringToInt_def IntToIpString_def inet_aton_def)
qed

text \<open>The failure of the conversion goes unnoticed: for a text that is no address the result is whatever was in memory.\<close>

theorem bad_address_undefined:
  "s = [] \<or> digit_value (hd s) = None \<Longrightarrow> IpStringToInt garbage s = garbage"
  by (simp add: IpStringToInt_def inet_aton_def aton_loop.simps)

text \<open>An identifier of \<open>n\<close> random bytes has \<open>2 n\<close> characters, and two identifiers are equal
  only if the same bytes were drawn.\<close>

theorem uuid_injective:
  assumes "GenerateUuid xs = GenerateUuid ys"
  shows "length (GenerateUuid xs) = 2 * length xs \<and> xs = ys"
proof -
  have len: "length (GenerateUuid zs) = 2 * length zs" for zs
    by (induction zs) (simp_all add: GenerateUuid_def hex2_eq)
  have "xs = ys" using assms
  proof (induction xs arbitrary: ys)
    case Nil
    then show ?case using arg_cong [OF Nil, of length] len [of ys] len [of "[]"] by simp
  next
    case (Cons x xs)
    have "length ys = Suc (length xs)" using Cons.prems len [of ys] len [of "x # xs"] by simp
    then obtain z zs where ys: "ys = z # zs" by (cases ys) auto
    have "hex2 x @ GenerateUuid xs = hex2 z @ GenerateUuid zs"
      using Cons.prems by (simp add: GenerateUuid_def ys)
    then have "hex2 x = hex2 z" "GenerateUuid xs = GenerateUuid zs" by (simp_all add: hex2_eq)
    with Cons.IH hex2_inj ys show ?case by blast
  qed
  with len show ?thesis by simp
qed

text \<open>\<open>exe_shell_ret\<close> does not return the output of the command: the last byte of each
  128-byte piece is lost, also when it is not a line break; and when the length of the output is
  a multiple of 128, in particular when there is none, it writes in front of its buffer.\<close>

theorem exe_shell_ret_loses_bytes:
  assumes "CHR 0x00 \<notin> set s"
  shows "exe_shell_ret (Some s) =
    (if length s mod 128 = 0 then Inl OutOfBounds else Inr (concat (map butlast (chunks 127 s))))"
  using shell_loop_chunks [OF assms] by (simp add: exe_shell_ret_def)

subsection \<open>Witnesses\<close>

theorem bad_address_undefined_witness: "IpStringToInt 42 ''localhost'' = 42"
  using bad_address_undefined [of "''localhost''" 42] by (simp add: digit_value_def)

theorem uuid_injective_witness:
  "length (GenerateUuid [1, 255]) = 4"
  using uuid_injective [of "[1, 255]" "[1, 255]"] by simp

theorem exe_shell_ret_loses_bytes_witness:
  "exe_shell_ret (Some ''up'') = Inr ''u'' \<and> exe_shell_ret (Some []) = Inl OutOfBounds"
  using exe_shell_ret_loses_bytes [of "''up''"] exe_shell_ret_loses_bytes [of "[]"] by simp

end
