(* ===== verification/Collector_Locks.thy ===== *)
theory Collector_Locks
  imports Collector_System
begin

text \<open>
  The locks of the collector and of its timer service together. A worker of the collector holds the mutex
  of the collector (\<open>node_collector.cc\<close>) while it registers a timer for a new next hop, which takes the
  mutex of the timer service (\<open>timer.cc\<close>). The ticking thread holds that one while it waits for room
  in the queue of expired timers. The only thread that makes room, the worker of the timer service, takes
  the mutex of the collector in \<open>HandleTimeoutBuffer\<close>. The step relation \<open>lock_step\<close> has a step for each
  part of the threads between two places where they may have to wait; it is shown to be a refinement
  of \<open>collector_step\<close>, and its deadlocks are characterised.
\<close>

section \<open>Model\<close>

text \<open>A worker of the collector waits for a packet, waits for the mutex of the collector, or holds it and waits
  for the mutex of the timer service. The worker of the timer service waits for an expired timer, or for
  the mutex of the collector.\<close>

datatype 'e packet_pc = P_idle | P_wait "'e msg" string | P_add "'e msg" string

datatype worker_pc = W_wait | W_lock nat

record ('e, 'b, 'r, 'f) lock_sys =
  ls_c :: "('e, 'b, 'r, 'f) Collector"
  ls_t :: timer_sys
  ls_packets :: "'e packet_pc list"
  ls_worker :: worker_pc

text \<open>The collector as a whole: its timer service is the one that the timer threads work on.\<close>

definition whole :: "('e, 'b, 'r, 'f) lock_sys \<Rightarrow> ('e, 'b, 'r, 'f) Collector" where
  "whole s = (ls_c s)\<lparr>co_timeout_mgr := Some (ts_m (ls_t s))\<rparr>"

definition put_whole :: "('e, 'b, 'r, 'f) Collector \<Rightarrow> ('e, 'b, 'r, 'f) lock_sys \<Rightarrow> ('e, 'b, 'r, 'f) lock_sys" where
  "put_whole c s =
     (case co_timeout_mgr c of
        None \<Rightarrow> s\<lparr>ls_c := c\<rparr>
      | Some m \<Rightarrow> s\<lparr>ls_c := c, ls_t := (ls_t s)\<lparr>ts_m := m\<rparr>\<rparr>)"

text \<open>The locked part of the handler of a packet.\<close>

definition handle_locked ::
    "('e, 'b, 'r, 'f) bats_library \<Rightarrow> u64 \<Rightarrow> 'e msg \<Rightarrow> string \<Rightarrow> ('e, 'b, 'r, 'f) Collector \<Rightarrow>
     (nat option list \<times> ('e, 'b, 'r, 'f) Collector) res" where
  "handle_locked L g msg h c =
     (if NeedCoded L msg then BufferingData_locked L g msg h c else ForceRelayData_locked L g msg h c)"

fun adding :: "'e packet_pc \<Rightarrow> bool" where
  "adding (P_add msg h) = True"
| "adding _ = False"

text \<open>The mutex of the collector is free: the other critical sections contain no wait and are single steps.\<close>

definition mutex_free :: "('e, 'b, 'r, 'f) lock_sys \<Rightarrow> bool" where
  "mutex_free s \<longleftrightarrow> (\<forall>pc\<in>set (ls_packets s). \<not> adding pc)"

abbreviation known :: "string \<Rightarrow> ('e, 'b, 'r, 'f) lock_sys \<Rightarrow> bool" where
  "known h s \<equiv> map_of (co_bats_buffer_map (ls_c s)) h \<noteq> None"

text \<open>A packet arrives at worker \<open>i\<close>, worker \<open>i\<close> takes the mutex for a new next hop, or does its locked part; the
  ticking thread makes a step; the worker of the timers gets an expired timer, or does its locked part.\<close>

datatype lock_label = Arrive nat | Enter nat | Pass nat | Ticking | Expiry | Flush

inductive lock_step ::
    "('e, 'b, 'r, 'f) bats_library \<Rightarrow> int \<Rightarrow> lock_label \<Rightarrow> ('e, 'b, 'r, 'f) lock_sys \<Rightarrow> ('e, 'b, 'r, 'f) lock_sys \<Rightarrow> bool"
  for L :: "('e, 'b, 'r, 'f) bats_library" and mtu :: int where
  arrive: "i < length (ls_packets s) \<Longrightarrow> ls_packets s ! i = P_idle \<Longrightarrow> int (length (m_data msg)) \<le> mtu \<Longrightarrow>
     lock_step L mtu (Arrive i) s (s\<lparr>ls_packets := (ls_packets s)[i := P_wait msg h]\<rparr>)"
| enter_known: "i < length (ls_packets s) \<Longrightarrow> ls_packets s ! i = P_wait msg h \<Longrightarrow> mutex_free s \<Longrightarrow> known h s \<Longrightarrow>
     handle_locked L g msg h (whole s) = Inr (qs, c') \<Longrightarrow>
     lock_step L mtu (Pass i) s ((put_whole c' s)\<lparr>ls_packets := (ls_packets s)[i := P_idle]\<rparr>)"
| enter_new: "i < length (ls_packets s) \<Longrightarrow> ls_packets s ! i = P_wait msg h \<Longrightarrow> mutex_free s \<Longrightarrow> \<not> known h s \<Longrightarrow>
     lock_step L mtu (Enter i) s (s\<lparr>ls_packets := (ls_packets s)[i := P_add msg h]\<rparr>)"
| registered: "i < length (ls_packets s) \<Longrightarrow> ls_packets s ! i = P_add msg h \<Longrightarrow> \<not> holds_mutex (ls_t s) \<Longrightarrow>
     handle_locked L g msg h (whole s) = Inr (qs, c') \<Longrightarrow>
     lock_step L mtu (Pass i) s ((put_whole c' s)\<lparr>ls_packets := (ls_packets s)[i := P_idle]\<rparr>)"
| ticker: "timer_step l (ls_t s) t \<Longrightarrow> l \<in> {LTick, LBegin, LVisit, LEnd} \<Longrightarrow> lock_step L mtu Ticking s (s\<lparr>ls_t := t\<rparr>)"
| dequeue: "ls_worker s = W_wait \<Longrightarrow> timer_step LDequeue (ls_t s) t \<Longrightarrow>
     lock_step L mtu Expiry s (s\<lparr>ls_t := t, ls_worker :=
       (case last (ts_handled t) of
          Some a \<Rightarrow> if map_of (co_tbufs (ls_c s)) a = None then W_wait else W_lock a
        | None \<Rightarrow> W_wait)\<rparr>)"
| handle: "ls_worker s = W_lock a \<Longrightarrow> mutex_free s \<Longrightarrow> HandleTimeoutBuffer_locked L a (whole s) = Inr (qs, c') \<Longrightarrow>
     lock_step L mtu Flush s ((put_whole c' s)\<lparr>ls_worker := W_wait\<rparr>)"

inductive_cases lock_stepE: "lock_step L mtu l s t"

definition lock_start :: "nat \<Rightarrow> TimerManager \<Rightarrow> ('e, 'b, 'r, 'f) Collector \<Rightarrow> ('e, 'b, 'r, 'f) lock_sys" where
  "lock_start n tm c = \<lparr>ls_c = c, ls_t = timers_start tm, ls_packets = replicate n P_idle, ls_worker = W_wait\<rparr>"

text \<open>The cycle of waits.\<close>

definition ticker_waits :: "timer_sys \<Rightarrow> bool" where
  "ticker_waits t \<longleftrightarrow> (\<exists>a. blocked_on a t)"

definition deadlocked :: "('e, 'b, 'r, 'f) lock_sys \<Rightarrow> bool" where
  "deadlocked s \<longleftrightarrow> \<not> mutex_free s \<and> ticker_waits (ls_t s) \<and> ls_worker s \<noteq> W_wait"

section \<open>Refinement to the collector among its threads\<close>

lemma whole_simps [simp]:
  "whole (s\<lparr>ls_packets := ps\<rparr>) = whole s" "whole (s\<lparr>ls_worker := w\<rparr>) = whole s"
  "co_timeout_mgr (whole s) = Some (ts_m (ls_t s))"
  by (simp_all add: whole_def)

lemma whole_put: "co_timeout_mgr c = Some m \<Longrightarrow> whole (put_whole c s) = c"
  by (simp add: whole_def put_whole_def)

lemma put_whole_simps [simp]:
  "ls_packets (put_whole c s) = ls_packets s" "ls_worker (put_whole c s) = ls_worker s"
  by (simp_all add: put_whole_def split: option.splits)

text \<open>The packets that the workers have taken are within the limit.\<close>

fun small_packet :: "int \<Rightarrow> 'e packet_pc \<Rightarrow> bool" where
  "small_packet mtu P_idle = True"
| "small_packet mtu (P_wait msg h) = (int (length (m_data msg)) \<le> mtu)"
| "small_packet mtu (P_add msg h) = (int (length (m_data msg)) \<le> mtu)"

definition simulated :: "('e, 'b, 'r, 'f) bats_library \<Rightarrow> int \<Rightarrow> ('e, 'b, 'r, 'f) Collector \<Rightarrow> ('e, 'b, 'r, 'f) lock_sys \<Rightarrow> bool" where
  "simulated L mtu c s \<longleftrightarrow> list_all (small_packet mtu) (ls_packets s) \<and>
     (\<exists>cs. (collector_step L mtu)\<^sup>*\<^sup>* (collector_start c) cs \<and> cs_c cs = whole s)"

lemma handle_locked_step:
  assumes "handle_locked L g msg h (cs_c cs) = Inr (qs, c')" and "int (length (m_data msg)) \<le> mtu"
  shows "\<exists>cs'. collector_step L mtu cs cs' \<and> cs_c cs' = c'"
proof (cases "NeedCoded L msg")
  case True
  then show ?thesis using collector_step.buffering [OF assms(2), of L g h cs qs c'] assms(1) by (auto simp: handle_locked_def)
next
  case False
  then show ?thesis using collector_step.relaying [OF assms(2), of L g h cs qs c'] assms(1) by (auto simp: handle_locked_def)
qed

lemma timeout_locked_step:
  assumes "HandleTimeoutBuffer_locked L a (cs_c cs) = Inr (qs, c')" and "collector_wf L cap (cs_c cs)"
  shows "\<exists>cs'. (collector_step L mtu)\<^sup>*\<^sup>* cs cs' \<and> cs_c cs' = c'"
proof (cases "map_of (co_tbufs (cs_c cs)) a")
  case None
  then show ?thesis using assms(1) by (auto simp: HandleTimeoutBuffer_locked_def)
next
  case (Some p)
  have wf: "map snd (co_tbufs (cs_c cs)) = [0..<length (co_buffers (cs_c cs))]"
      "map snd (co_bats_buffer_map (cs_c cs)) = [0..<length (co_buffers (cs_c cs))]"
      "distinct (map fst (co_bats_buffer_map (cs_c cs)))"
    using assms(2) by (simp_all add: collector_wf_def)
  obtain h where "map_of (co_bats_buffer_map (cs_c cs)) h = Some p"
    using map_of_index(1) [OF wf(2,3) map_of_bound [OF wf(1) Some]] by blast
  from collector_step.timeout [OF Some this assms(1), of mtu] show ?thesis
    by (intro exI [of _ "cs\<lparr>cs_c := c', cs_out := cs_out cs @ handed L h c' qs\<rparr>"]) auto
qed

lemma timer_locked_step:
  assumes "timer_step l (ls_t s) t" and "cs_c cs = whole s"
  shows "\<exists>cs'. collector_step L mtu cs cs' \<and> cs_c cs' = whole (s\<lparr>ls_t := t\<rparr>)"
  using collector_step.ticking [OF assms(1), of cs L mtu] assms(2) by (auto simp: whole_def)

lemma small_packet_upd:
  "list_all (small_packet mtu) ps \<Longrightarrow> small_packet mtu pc \<Longrightarrow> list_all (small_packet mtu) (ps[i := pc])"
  by (auto simp: list_all_iff dest: set_update_subset_insert [THEN subsetD])

text \<open>A new collector whose blocks have room for the packets.\<close>

definition configured ::
    "('e, 'b, 'r, 'f) bats_library \<Rightarrow> ('b \<Rightarrow> int) \<Rightarrow> int \<Rightarrow> TimerManager \<Rightarrow> ('e, 'b, 'r, 'f) Collector \<Rightarrow> bool" where
  "configured L cap mtu tm c \<longleftrightarrow> bats_ok L cap \<and> 0 \<le> mtu \<and> room_ok L mtu c \<and> co_timeout_mgr c = Some tm \<and>
     (\<exists>uuid f. Collector_Init L uuid f = Inr c)"

lemma simulated_wf: "configured L cap mtu tm c \<Longrightarrow> simulated L mtu c s \<Longrightarrow> collector_wf L cap (whole s)"
  using collector_reachable(2) unfolding configured_def simulated_def by metis

lemma simulated_start: "configured L cap mtu tm c \<Longrightarrow> simulated L mtu c (lock_start n tm c)"
  unfolding simulated_def
  by (auto simp: configured_def lock_start_def list_all_iff collector_start_def whole_def timers_start_def
      intro!: exI [of _ "collector_start c"])

lemma whole_put_step:
  assumes conf: "configured L cap mtu tm c" and "(collector_step L mtu)\<^sup>*\<^sup>* (collector_start c) cs" and "cs_c cs = c'"
  shows "whole (put_whole c' s) = c'"
proof -
  have "collector_wf L cap c'" using collector_reachable(2) assms unfolding configured_def by metis
  then show ?thesis by (auto simp: collector_wf_def intro: whole_put)
qed

lemma simulated_locked:
  assumes conf: "configured L cap mtu tm c" and sim: "simulated L mtu c s"
    and pc: "i < length (ls_packets s)" "ls_packets s ! i = P_wait msg h \<or> ls_packets s ! i = P_add msg h"
    and h: "handle_locked L g msg h (whole s) = Inr (qs, c')"
  shows "simulated L mtu c ((put_whole c' s)\<lparr>ls_packets := (ls_packets s)[i := P_idle]\<rparr>)"
    and "whole (put_whole c' s) = c'"
proof -
  obtain cs where cs: "(collector_step L mtu)\<^sup>*\<^sup>* (collector_start c) cs" "cs_c cs = whole s"
    and small: "list_all (small_packet mtu) (ls_packets s)" using sim by (auto simp: simulated_def)
  have "small_packet mtu (ls_packets s ! i)" using small pc(1) by (simp add: list_all_length)
  then have "int (length (m_data msg)) \<le> mtu" using pc(2) by auto
  then obtain cs' where cs': "collector_step L mtu cs cs'" "cs_c cs' = c'"
    using handle_locked_step h cs(2) by metis
  have run: "(collector_step L mtu)\<^sup>*\<^sup>* (collector_start c) cs'" using cs(1) cs'(1) by (rule rtranclp.rtrancl_into_rtrancl)
  show w: "whole (put_whole c' s) = c'" by (rule whole_put_step [OF conf run cs'(2)])
  show "simulated L mtu c ((put_whole c' s)\<lparr>ls_packets := (ls_packets s)[i := P_idle]\<rparr>)"
    using run cs'(2) w small small_packet_upd [of mtu "ls_packets s" P_idle i] by (auto simp: simulated_def)
qed

lemma simulated_timeout:
  assumes conf: "configured L cap mtu tm c" and sim: "simulated L mtu c s"
    and h: "HandleTimeoutBuffer_locked L a (whole s) = Inr (qs, c')"
  shows "simulated L mtu c ((put_whole c' s)\<lparr>ls_worker := W_wait\<rparr>)" and "whole (put_whole c' s) = c'"
proof -
  obtain cs where cs: "(collector_step L mtu)\<^sup>*\<^sup>* (collector_start c) cs" "cs_c cs = whole s"
    and small: "list_all (small_packet mtu) (ls_packets s)" using sim by (auto simp: simulated_def)
  obtain cs' where cs': "(collector_step L mtu)\<^sup>*\<^sup>* cs cs'" "cs_c cs' = c'"
    using timeout_locked_step [of L a cs qs c' cap mtu] h simulated_wf [OF conf sim] cs(2) by auto
  have run: "(collector_step L mtu)\<^sup>*\<^sup>* (collector_start c) cs'" using cs(1) cs'(1) by (rule rtranclp_trans)
  show w: "whole (put_whole c' s) = c'" by (rule whole_put_step [OF conf run cs'(2)])
  show "simulated L mtu c ((put_whole c' s)\<lparr>ls_worker := W_wait\<rparr>)"
    using run cs'(2) w small by (auto simp: simulated_def)
qed

lemma simulated_timer:
  assumes "simulated L mtu c s" and "timer_step l (ls_t s) t"
  shows "simulated L mtu c (s\<lparr>ls_t := t, ls_worker := w\<rparr>)" and "simulated L mtu c (s\<lparr>ls_t := t\<rparr>)"
proof -
  obtain cs where cs: "(collector_step L mtu)\<^sup>*\<^sup>* (collector_start c) cs" "cs_c cs = whole s"
    and small: "list_all (small_packet mtu) (ls_packets s)" using assms(1) by (auto simp: simulated_def)
  obtain cs' where cs': "collector_step L mtu cs cs'" "cs_c cs' = whole (s\<lparr>ls_t := t\<rparr>)"
    using timer_locked_step [OF assms(2) cs(2)] by metis
  then have "(collector_step L mtu)\<^sup>*\<^sup>* (collector_start c) cs'" using cs(1) by (auto intro: rtranclp.rtrancl_into_rtrancl)
  with cs'(2) small show "simulated L mtu c (s\<lparr>ls_t := t, ls_worker := w\<rparr>)" "simulated L mtu c (s\<lparr>ls_t := t\<rparr>)"
    by (auto simp: simulated_def whole_def)
qed

lemma simulated_step:
  assumes conf: "configured L cap mtu tm c" and sim: "simulated L mtu c s" and step: "lock_step L mtu l s t"
  shows "simulated L mtu c t"
  using step
proof (cases rule: lock_step.cases)
  case (enter_new i msg h)
  have "small_packet mtu (ls_packets s ! i)" using sim enter_new(3) by (simp add: simulated_def list_all_length)
  with sim enter_new small_packet_upd [of mtu "ls_packets s" "P_add msg h" i] show ?thesis by (auto simp: simulated_def)
qed (use sim simulated_locked [OF conf sim] simulated_timeout [OF conf sim] simulated_timer [OF sim]
      small_packet_upd [of mtu "ls_packets s"] in \<open>auto simp: simulated_def\<close>)

section \<open>The timer service\<close>

text \<open>The service of a running collector: it is not stopped, its queue is in order and not broken, and its timers
  exist and are periodic.\<close>

definition tm_ok :: "TimerManager \<Rightarrow> bool" where
  "tm_ok m \<longleftrightarrow> \<not> tm_stop m \<and> (\<forall>a\<in>set (tm_timers m). a < length (tm_heap m)) \<and> (\<forall>t\<in>set (tm_heap m). \<not> t_oneshot t) \<and>
     (\<exists>q. tm_timeout m = Some q \<and> queue_wf q \<and> \<not> q_break q \<and> q_pool_size q = 10)"

lemma tm_ok_timer: "tm_ok m \<Longrightarrow> a \<in> set (tm_timers m) \<Longrightarrow> a < length (tm_heap m) \<and> \<not> t_oneshot (tm_heap m ! a)"
  by (auto simp: tm_ok_def)

lemma visit_outcome:
  assumes "tm_ok m" and "a \<in> set (tm_timers m)" and "tm_timeout m = Some q"
  shows "visit_timer [] a m =
    (if \<not> due (tm_heap m ! a) (tm_tick m) then done_act (t_cancelled (tm_heap m ! a) \<and> t_refcnt (tm_heap m ! a) \<le> 0, m)
     else if length (q_pool q) < 10
     then done_act (False, (put_timer a ((tm_heap m ! a)\<lparr>t_start := tm_tick m\<rparr>) m)\<lparr>tm_timeout := Some (q\<lparr>q_pool := q_pool q @ [Some a]\<rparr>)\<rparr>)
     else None)"
proof -
  have q: "queue_wf q" "\<not> q_break q" "queue_cap q = 10" using assms(1,3) by (auto simp: tm_ok_def to_size_t_def)
  have a: "a < length (tm_heap m)" "\<not> t_oneshot (tm_heap m ! a)" using tm_ok_timer [OF assms(1,2)] by auto
  show ?thesis
    using q a assms(3) by (auto simp: visit_timer_def expire_def WaitEnqueue_Nil due_def put_timer_def Let_def)
qed

lemma ticker_waits_full:
  assumes "tm_ok (ts_m t)" and "ticker_waits t" and "tm_timeout (ts_m t) = Some q"
  shows "length (q_pool q) = 10"
proof -
  obtain a k where a: "ts_pc t = Scan k" "k < length (tm_timers (ts_m t))" "tm_timers (ts_m t) ! k = a"
      "visit_timer [] a (ts_m t) = None"
    using assms(2) by (cases "ts_pc t") (auto simp: ticker_waits_def blocked_on_def)
  then have "a \<in> set (tm_timers (ts_m t))" by auto
  with visit_outcome [OF assms(1) this assms(3)] a(4) have "\<not> length (q_pool q) < 10" by (auto split: if_splits)
  moreover have "length (q_pool q) \<le> 10" using assms(1,3) by (auto simp: tm_ok_def queue_wf_def to_size_t_def)
  ultimately show ?thesis by simp
qed

lemma tm_ok_put:
  assumes "tm_ok m" and "tm_timeout m = Some q" and "length xs \<le> 10" and "\<not> t_oneshot t"
  shows "tm_ok ((put_timer a t m)\<lparr>tm_timeout := Some (q\<lparr>q_pool := xs\<rparr>)\<rparr>)"
  using assms by (auto simp: tm_ok_def put_timer_def queue_wf_def to_size_t_def dest: set_update_subset_insert [THEN subsetD])

lemma tm_ok_advance: "tm_ok m \<Longrightarrow> advance k erase m = (k', m') \<Longrightarrow> tm_ok m'"
  by (auto simp: advance_def tm_ok_def erase_at_def split: if_splits dest!: in_set_takeD in_set_dropD)

lemma tm_ok_visit:
  assumes "tm_ok m" and "a \<in> set (tm_timers m)" and "visit_timer [] a m = done_act (erase, m1)"
  shows "tm_ok m1"
proof -
  obtain q where q: "tm_timeout m = Some q" using assms(1) by (auto simp: tm_ok_def)
  have "\<not> t_oneshot (tm_heap m ! a)" using tm_ok_timer [OF assms(1,2)] by simp
  with assms visit_outcome [OF assms(1,2) q] tm_ok_put [OF assms(1) q] show ?thesis
    by (auto split: if_splits)
qed

lemma tm_ok_step:
  assumes "timer_step l s t" and "l \<in> {LTick, LBegin, LVisit, LEnd, LDequeue}" and "tm_ok (ts_m s)"
  shows "tm_ok (ts_m t)"
  using assms(1)
proof (cases rule: timer_step.cases)
  case (visit k a erase m1 k' m')
  then have "a \<in> set (tm_timers (ts_m s))" by auto
  from tm_ok_advance [OF tm_ok_visit [OF assms(3) this visit(6)] visit(7)] visit show ?thesis by simp
next
  case (dequeue q x q')
  then show ?thesis
    using assms(3) by (auto simp: tm_ok_def WaitDequeue_Nil queue_wf_def split: list.splits)
qed (use assms(2,3) in \<open>auto simp: tm_ok_def tick_once_def\<close>)

text \<open>The operations of the collector change the service by registering a timer, if at all.\<close>

definition same_tables :: "('e, 'b, 'r, 'f) Collector \<Rightarrow> ('e, 'b, 'r, 'f) Collector \<Rightarrow> bool" where
  "same_tables c c' \<longleftrightarrow> co_timeout_mgr c' = co_timeout_mgr c \<and> co_bats_buffer_map c' = co_bats_buffer_map c \<and>
     co_tbufs c' = co_tbufs c"

lemma same_tables_trans [trans]: "same_tables a b \<Longrightarrow> same_tables b c \<Longrightarrow> same_tables a c"
  by (simp add: same_tables_def)

lemma ResetBuf_tables: "ResetBuf_at L p c = Inr c' \<Longrightarrow> same_tables c c'"
  by (cases "L_ResetBuf L (co_buffers c ! p) (co_msgs c)") (auto simp: ResetBuf_at_def deref_def same_tables_def split: if_splits)

lemma step_tables:
  "cut_block L q c = Inr c' \<Longrightarrow> same_tables c c'"
  "fill_block q msg c = Inr c' \<Longrightarrow> same_tables c c'"
  "open_buffer L p c = Inr (q', c') \<Longrightarrow> same_tables c c'"
  "same_tables c (set_msg q m c)"
  by (auto simp: cut_block_def fill_block_def open_buffer_def set_msg_def same_tables_def
      split: option.splits prod.splits if_splits dest: ResetBuf_tables [unfolded same_tables_def])

lemma tm_ok_new: "tm_ok m \<Longrightarrow> tm_ok (m\<lparr>tm_heap := tm_heap m @ [Timer_new t 15], tm_timers := tm_timers m @ [length (tm_heap m)]\<rparr>)"
  by (auto simp: tm_ok_def Timer_new_def)

lemma GetBatsBuffer_mgr:
  assumes "GetBatsBuffer L g h c = Inr (p, c')" and "co_timeout_mgr c = Some m" and "tm_ok m" and "tm_resolution m = 5"
  shows "\<exists>m'. co_timeout_mgr c' = Some m' \<and> tm_ok m'"
proof (cases "map_of (co_bats_buffer_map c) h")
  case None
  obtain b ms where "L_BatsBuffer L (co_src_addr c) h 8888 (co_max_block_size c) (co_msgs c) = (b, ms)" by fastforce
  from GetBatsBuffer_new [OF None assms(2,4) this, of g] assms(1,3) show ?thesis
    by (auto simp: with_buffer_def intro: tm_ok_new)
qed (use assms in \<open>auto simp: GetBatsBuffer_def\<close>)

lemma handle_locked_tables:
  assumes "handle_locked L g msg h c = Inr (qs, c')"
  obtains p c1 where "GetBatsBuffer L g h c = Inr (p, c1)" "same_tables c1 c'"
proof -
  obtain p c1 where get: "GetBatsBuffer L g h c = Inr (p, c1)"
    using assms by (auto simp: handle_locked_def BufferingData_locked_def ForceRelayData_locked_def split: if_splits)
  moreover have "same_tables c1 c'"
    using assms get
    by (auto simp: handle_locked_def BufferingData_locked_def ForceRelayData_locked_def same_tables_def
        step_tables(4) [unfolded same_tables_def]
        split: if_splits dest!: ResetBuf_tables [unfolded same_tables_def] step_tables(1-3) [unfolded same_tables_def])
  ultimately show ?thesis by (rule that)
qed

lemma handle_locked_mgr:
  assumes "handle_locked L g msg h c = Inr (qs, c')" and "co_timeout_mgr c = Some m" and "tm_ok m" and "tm_resolution m = 5"
  shows "\<exists>m'. co_timeout_mgr c' = Some m' \<and> tm_ok m'"
  using handle_locked_tables [OF assms(1)] GetBatsBuffer_mgr [OF _ assms(2-4)] by (metis same_tables_def)

lemma handle_locked_new:
  assumes "handle_locked L g msg h c = Inr (qs, c')" and "co_timeout_mgr c = Some m" and "tm_resolution m = 5"
    and "map_of (co_bats_buffer_map c) h = None"
  shows "\<exists>b ms. same_tables (with_buffer h b ms m c) c'"
proof -
  obtain p c1 where c1: "GetBatsBuffer L g h c = Inr (p, c1)" "same_tables c1 c'" by (rule handle_locked_tables [OF assms(1)])
  obtain b ms where "L_BatsBuffer L (co_src_addr c) h 8888 (co_max_block_size c) (co_msgs c) = (b, ms)" by fastforce
  from GetBatsBuffer_new [OF assms(4,2,3) this, of g] c1 show ?thesis by auto
qed

lemma timeout_locked_mgr: "HandleTimeoutBuffer_locked L a c = Inr (qs, c') \<Longrightarrow> co_timeout_mgr c' = co_timeout_mgr c"
  by (auto simp: HandleTimeoutBuffer_locked_def split: option.splits if_splits
      dest!: ResetBuf_tables [unfolded same_tables_def] step_tables(1) [unfolded same_tables_def])

section \<open>Invariant\<close>

definition lock_inv ::
    "('e, 'b, 'r, 'f) bats_library \<Rightarrow> int \<Rightarrow> ('e, 'b, 'r, 'f) Collector \<Rightarrow> ('e, 'b, 'r, 'f) lock_sys \<Rightarrow> bool" where
  "lock_inv L mtu c s \<longleftrightarrow> simulated L mtu c s \<and> tm_ok (ts_m (ls_t s)) \<and> ts_pc (ls_t s) \<noteq> Exited"

abbreviation lock_run ::
    "('e, 'b, 'r, 'f) bats_library \<Rightarrow> int \<Rightarrow> ('e, 'b, 'r, 'f) lock_sys \<Rightarrow> ('e, 'b, 'r, 'f) lock_sys \<Rightarrow> bool" where
  "lock_run L mtu \<equiv> (\<lambda>s t. \<exists>l. lock_step L mtu l s t)\<^sup>*\<^sup>*"

lemma resolution_whole:
  "configured L cap mtu tm c \<Longrightarrow> simulated L mtu c s \<Longrightarrow> tm_resolution (ts_m (ls_t s)) = 5"
  using simulated_wf [of L cap mtu tm c s] by (simp add: collector_wf_def)

lemma put_whole_mgr: "co_timeout_mgr c = Some m \<Longrightarrow> ls_t (put_whole c s) = (ls_t s)\<lparr>ts_m := m\<rparr>"
  by (simp add: put_whole_def)

lemma not_exited: "timer_step l s t \<Longrightarrow> l \<in> {LTick, LBegin, LVisit, LEnd, LDequeue} \<Longrightarrow> ts_pc s \<noteq> Exited \<Longrightarrow> ts_pc t \<noteq> Exited"
  by (erule timer_stepE) auto

lemma lock_inv_step:
  assumes conf: "configured L cap mtu tm c" and inv: "lock_inv L mtu c s" and step: "lock_step L mtu l s t"
  shows "lock_inv L mtu c t"
proof -
  have sim: "simulated L mtu c s" "tm_ok (ts_m (ls_t s))" "ts_pc (ls_t s) \<noteq> Exited" using inv by (auto simp: lock_inv_def)
  have "tm_ok (ts_m (ls_t t)) \<and> ts_pc (ls_t t) \<noteq> Exited"
    using step
  proof (cases rule: lock_step.cases)
    case (enter_known i msg h g qs c')
    with handle_locked_mgr [OF enter_known(7) whole_simps(3) sim(2) resolution_whole [OF conf sim(1)]] sim show ?thesis
      by (auto simp: put_whole_mgr)
  next
    case (registered i msg h g qs c')
    with handle_locked_mgr [OF registered(6) whole_simps(3) sim(2) resolution_whole [OF conf sim(1)]] sim show ?thesis
      by (auto simp: put_whole_mgr)
  next
    case (handle a qs c')
    with timeout_locked_mgr [OF handle(5)] sim show ?thesis by (auto simp: put_whole_mgr)
  qed (use sim tm_ok_step not_exited in \<open>auto split: option.splits\<close>)
  with simulated_step [OF conf sim(1) step] show ?thesis by (simp add: lock_inv_def)
qed

interpretation locks: invariant_system "\<lambda>s t. \<exists>l. lock_step L mtu l s t" "\<lambda>s. configured L cap mtu tm c \<and> lock_inv L mtu c s"
  for L cap mtu tm c
  by unfold_locales (auto intro: lock_inv_step)

lemma lock_start_inv:
  assumes "configured L cap mtu tm c"
  shows "lock_inv L mtu c (lock_start n tm c)"
proof -
  have "tm_ok tm"
    using assms
    by (auto simp: configured_def Collector_Init_def StartAsThread_def InitThreadPool_def TimerManager_new_def tm_ok_def
        Queue_new_eq queue_wf_def)
  with simulated_start [OF assms, of n] show ?thesis by (simp add: lock_inv_def lock_start_def timers_start_def)
qed

lemma lock_reachable:
  assumes "configured L cap mtu tm c" and "lock_run L mtu (lock_start n tm c) s"
  shows "lock_inv L mtu c s"
  using locks.reachable_inv [OF assms(2), of cap tm c] assms(1) lock_start_inv [OF assms(1), of n] by blast

lemma waits_blocked:
  "ticker_waits t \<longleftrightarrow> (\<exists>k. ts_pc t = Scan k \<and> k < length (tm_timers (ts_m t)) \<and> visit_timer [] (tm_timers (ts_m t) ! k) (ts_m t) = None)"
  by (cases "ts_pc t") (auto simp: ticker_waits_def blocked_on_def)

lemma waiting_ticker_stuck:
  "ticker_waits s \<Longrightarrow> timer_step l s t \<Longrightarrow> l \<in> {LTick, LBegin, LVisit, LEnd} \<Longrightarrow> False"
  by (erule timer_stepE) (auto simp: waits_blocked)

lemma ticker_steps:
  assumes "tm_ok (ts_m s)" and "ts_pc s \<noteq> Exited" and "\<not> ticker_waits s"
  shows "\<exists>l t. timer_step l s t \<and> l \<in> {LTick, LBegin, LVisit, LEnd}"
proof (cases "ts_pc s")
  case (Scan k)
  show ?thesis
  proof (cases "k < length (tm_timers (ts_m s))")
    case True
    obtain q where q: "tm_timeout (ts_m s) = Some q" using assms(1) by (auto simp: tm_ok_def)
    have "visit_timer [] (tm_timers (ts_m s) ! k) (ts_m s) \<noteq> None" using assms(3) Scan True by (simp add: waits_blocked)
    then obtain erase m1 where "visit_timer [] (tm_timers (ts_m s) ! k) (ts_m s) = done_act (erase, m1)"
      using visit_outcome [OF assms(1) nth_mem [OF True] q] by (metis (no_types))
    then show ?thesis using timer_step.visit [OF Scan True refl] by (metis insertCI surj_pair)
  next
    case False
    then show ?thesis using timer_step.end_scan [OF Scan] by auto
  qed
next
  case Sleep
  then show ?thesis using timer_step.tick [of s] assms(1) by (auto simp: tm_ok_def)
qed (use assms(2) timer_step.begin_scan [of s] in auto)

lemma full_queue_dequeues:
  assumes "tm_ok (ts_m s)" and "ticker_waits s"
  shows "\<exists>t. timer_step LDequeue s t"
proof -
  obtain q where q: "tm_timeout (ts_m s) = Some q" "queue_wf q" "\<not> q_break q" using assms(1) by (auto simp: tm_ok_def)
  with ticker_waits_full [OF assms q(1)] obtain x xs where "q_pool q = x # xs" by (cases "q_pool q") auto
  with timer_step.dequeue [OF q(1), of x "q\<lparr>q_pool := xs\<rparr>"] q show ?thesis by (auto simp: WaitDequeue_Nil)
qed

lemma timeout_accepted:
  assumes "bats_ok L cap" and wf: "collector_wf L cap c"
  shows "\<exists>qs c'. HandleTimeoutBuffer_locked L a c = Inr (qs, c')"
proof (cases "map_of (co_tbufs c) a")
  case (Some p)
  have "map snd (co_tbufs c) = [0..<length (co_buffers c)]" "map snd (co_bats_buffer_map c) = [0..<length (co_buffers c)]"
      "distinct (map fst (co_bats_buffer_map c))"
    using wf by (simp_all add: collector_wf_def)
  then obtain h where "map_of (co_bats_buffer_map c) h = Some p"
    using map_of_index(1) [of "co_bats_buffer_map c" _ p] map_of_bound [OF _ Some] by blast
  with HandleTimeoutBuffer_refines [OF assms Some] show ?thesis by blast
qed (simp add: HandleTimeoutBuffer_locked_def)

section \<open>A run into the deadlock\<close>

text \<open>Twelve next hops become known before the first tick, so that their timers expire together.\<close>

lemma handle_locked_accepted:
  assumes conf: "configured L cap mtu tm c" and sim: "simulated L mtu c s" and small: "int (length (m_data msg)) \<le> mtu"
  shows "\<exists>qs c'. handle_locked L g msg h (whole s) = Inr (qs, c')"
proof -
  obtain cs where cs: "(collector_step L mtu)\<^sup>*\<^sup>* (collector_start c) cs" "cs_c cs = whole s"
    using sim by (auto simp: simulated_def)
  obtain uuid f where c: "bats_ok L cap" "Collector_Init L uuid f = Inr c" "0 \<le> mtu" "room_ok L mtu c"
    using conf by (auto simp: configured_def)
  note inv = collector_reachable [OF c cs(1)]
  from buffering_inv [OF c(1) inv small, of g h] relaying_inv [OF c(1) inv small, of g h] cs(2)
  show ?thesis by (auto simp: handle_locked_def)
qed

definition hop_name :: "nat \<Rightarrow> string" where
  "hop_name k = replicate (Suc k) CHR ''a''"

lemma hop_name_inj [simp]: "hop_name j = hop_name k \<longleftrightarrow> j = k"
  by (simp add: hop_name_def)

definition hops_known :: "nat \<Rightarrow> nat \<Rightarrow> ('e, 'b, 'r, 'f) lock_sys \<Rightarrow> bool" where
  "hops_known n k s \<longleftrightarrow> ts_pc (ls_t s) = Sleep \<and> tm_tick (ts_m (ls_t s)) = 0 \<and>
     tm_heap (ts_m (ls_t s)) = replicate k (Timer_new 0 15) \<and> tm_timers (ts_m (ls_t s)) = [0..<k] \<and>
     (\<exists>q. tm_timeout (ts_m (ls_t s)) = Some q \<and> q_pool q = []) \<and>
     ls_packets s = replicate n P_idle \<and> ls_worker s = W_wait \<and>
     map fst (co_bats_buffer_map (ls_c s)) = map hop_name [0..<k] \<and> map fst (co_tbufs (ls_c s)) = [0..<k]"

lemma hops_known_none: "hops_known n k s \<Longrightarrow> k \<le> j \<Longrightarrow> map_of (co_bats_buffer_map (ls_c s)) (hop_name j) = None"
  unfolding hops_known_def map_of_eq_None_iff set_map [symmetric] by auto

lemma lock_run_step: "lock_step L mtu l s t \<Longrightarrow> lock_run L mtu t u \<Longrightarrow> lock_run L mtu s u"
  by (rule converse_rtranclp_into_rtranclp) blast

lemma lock_run_snoc: "lock_run L mtu s t \<Longrightarrow> lock_step L mtu l t u \<Longrightarrow> lock_run L mtu s u"
  by (erule rtranclp.rtrancl_into_rtrancl) blast

lemma hops_known_start: "configured L cap mtu tm c \<Longrightarrow> hops_known n 0 (lock_start n tm c)"
  by (auto simp: configured_def Collector_Init_def StartAsThread_def InitThreadPool_def TimerManager_new_def
      hops_known_def lock_start_def timers_start_def Queue_new_eq)

text \<open>A packet for a further next hop gets to the place where its worker waits for the timer service.\<close>

lemma wait_to_add:
  fixes s s' :: "('e, 'b, 'r, 'f) lock_sys" and msg :: "'e msg"
  assumes "hops_known n k s" and "0 < n" and "int (length (m_data msg)) \<le> mtu"
    and "ls_c s' = ls_c s" and "ls_packets s' = ls_packets s"
  shows "lock_run L mtu s' (s'\<lparr>ls_packets := (replicate n P_idle)[0 := P_add msg (hop_name k)]\<rparr>)"
proof -
  have ps: "ls_packets s' = replicate n P_idle" using assms by (simp add: hops_known_def)
  let ?t = "s'\<lparr>ls_packets := (replicate n P_idle)[0 := P_wait msg (hop_name k)]\<rparr>"
  have s1: "lock_step L mtu (Arrive 0) s' ?t"
    using lock_step.arrive [of 0 s' msg mtu L "hop_name k"] ps assms(2,3) by simp
  have "\<not> known (hop_name k) ?t" using hops_known_none [OF assms(1) order_refl] assms(4) by simp
  then have "lock_step L mtu (Enter 0) ?t (?t\<lparr>ls_packets := (ls_packets ?t)[0 := P_add msg (hop_name k)]\<rparr>)"
    using assms(2) by (intro lock_step.enter_new) (auto simp: mutex_free_def dest: set_update_subset_insert [THEN subsetD])
  then have s2: "lock_step L mtu (Enter 0) ?t (s'\<lparr>ls_packets := (replicate n P_idle)[0 := P_add msg (hop_name k)]\<rparr>)" by simp
  show ?thesis by (rule lock_run_step [OF s1 lock_run_step [OF s2 rtranclp.rtrancl_refl]])
qed

lemma register_hop:
  fixes s :: "('e, 'b, 'r, 'f) lock_sys" and msg :: "'e msg"
  assumes conf: "configured L cap mtu tm c" and run: "lock_run L mtu (lock_start n tm c) s"
    and k: "hops_known n k s" and n: "0 < n" and small: "int (length (m_data msg)) \<le> mtu"
  shows "\<exists>t. lock_run L mtu (lock_start n tm c) t \<and> hops_known n (Suc k) t"
proof -
  let ?s = "s\<lparr>ls_packets := (replicate n P_idle)[0 := P_add msg (hop_name k)]\<rparr>"
  have run2: "lock_run L mtu (lock_start n tm c) ?s"
    using run wait_to_add [OF k n small refl refl] by (rule rtranclp_trans)
  have sim: "simulated L mtu c ?s" using lock_reachable [OF conf run2] by (simp add: lock_inv_def)
  obtain qs c' where h: "handle_locked L 0 msg (hop_name k) (whole ?s) = Inr (qs, c')"
    using handle_locked_accepted [OF conf sim small] by blast
  let ?m = "ts_m (ls_t s)"
  have res: "tm_resolution ?m = 5" using resolution_whole [OF conf sim] by simp
  have "map_of (co_bats_buffer_map (whole ?s)) (hop_name k) = None"
    using hops_known_none [OF k order_refl] by (simp add: whole_def)
  from handle_locked_new [OF h whole_simps(3) _ this] res
  obtain b ms where "same_tables (with_buffer (hop_name k) b ms ?m (whole s)) c'" by auto
  then have tables: "co_timeout_mgr c' = Some (?m\<lparr>tm_heap := tm_heap ?m @ [Timer_new (tm_tick ?m) 15],
        tm_timers := tm_timers ?m @ [length (tm_heap ?m)]\<rparr>)"
      "map fst (co_bats_buffer_map c') = map fst (co_bats_buffer_map (ls_c s)) @ [hop_name k]"
      "map fst (co_tbufs c') = map fst (co_tbufs (ls_c s)) @ [length (tm_heap ?m)]"
    by (simp_all add: same_tables_def with_buffer_def whole_def)
  let ?t = "(put_whole c' ?s)\<lparr>ls_packets := (ls_packets ?s)[0 := P_idle]\<rparr>"
  have "lock_step L mtu (Pass 0) ?s ?t"
  proof (rule lock_step.registered [OF _ _ _ h])
    show "0 < length (ls_packets ?s)" "ls_packets ?s ! 0 = P_add msg (hop_name k)" using n by simp_all
    show "\<not> holds_mutex (ls_t ?s)" using k by (simp add: hops_known_def)
  qed
  then have "lock_run L mtu (lock_start n tm c) ?t" using run2 by (rule lock_run_snoc [rotated])
  moreover have "(replicate n P_idle)[0 := P_idle] = replicate n P_idle" by (cases n) auto
  then have "hops_known n (Suc k) ?t"
    using k tables by (auto simp: hops_known_def put_whole_def replicate_append_same)
  ultimately show ?thesis by blast
qed

lemma hops_reachable:
  fixes c :: "('e, 'b, 'r, 'f) Collector" and msg :: "'e msg"
  assumes "configured L cap mtu tm c" and "0 < n" and "int (length (m_data msg)) \<le> mtu"
  shows "\<exists>s. lock_run L mtu (lock_start n tm c) s \<and> hops_known n k s"
proof (induction k)
  case 0
  show ?case using hops_known_start [OF assms(1)] by blast
next
  case (Suc k)
  with register_hop [OF assms(1) _ _ assms(2,3)] show ?case by blast
qed

text \<open>The ticking thread on its own.\<close>

definition ticks :: "timer_sys \<Rightarrow> timer_sys \<Rightarrow> bool" where
  "ticks s t \<longleftrightarrow> (\<exists>l\<in>{LTick, LBegin, LVisit, LEnd}. timer_step l s t)"

abbreviation ticker_run :: "timer_sys \<Rightarrow> timer_sys \<Rightarrow> bool" where
  "ticker_run \<equiv> ticks\<^sup>*\<^sup>*"

lemma lock_run_ticker:
  assumes "ticker_run (ls_t s) t"
  shows "lock_run L mtu s (s\<lparr>ls_t := t\<rparr>)"
  using assms
proof (induction rule: rtranclp_induct)
  case (step t u)
  then obtain l where "timer_step l t u" "l \<in> {LTick, LBegin, LVisit, LEnd}" by (auto simp: ticks_def)
  with lock_step.ticker [of l "s\<lparr>ls_t := t\<rparr>" u L mtu] have "lock_step L mtu Ticking (s\<lparr>ls_t := t\<rparr>) (s\<lparr>ls_t := u\<rparr>)" by simp
  with step.IH show ?case by (rule lock_run_snoc)
qed simp

lemma ticker_run_step: "ticker_run s t \<Longrightarrow> timer_step l t u \<Longrightarrow> l \<in> {LTick, LBegin, LVisit, LEnd} \<Longrightarrow> ticker_run s u"
  by (erule rtranclp.rtrancl_into_rtrancl) (auto simp: ticks_def)

text \<open>A tick at which no timer is due.\<close>

lemma quiet_scan:
  assumes ok: "tm_ok (ts_m s)" and pc: "ts_pc s = Scan 0"
    and quiet: "\<And>a. a \<in> set (tm_timers (ts_m s)) \<Longrightarrow> \<not> due (tm_heap (ts_m s) ! a) (tm_tick (ts_m s)) \<and> \<not> t_cancelled (tm_heap (ts_m s) ! a)"
  shows "k \<le> length (tm_timers (ts_m s)) \<Longrightarrow> ticker_run s (s\<lparr>ts_pc := Scan k\<rparr>)"
proof (induction k)
  case 0
  have "s\<lparr>ts_pc := Scan 0\<rparr> = s" using pc by (cases s) simp
  then show ?case by simp
next
  case (Suc k)
  let ?a = "tm_timers (ts_m s) ! k"
  have a: "?a \<in> set (tm_timers (ts_m s))" using Suc.prems by simp
  obtain q where "tm_timeout (ts_m s) = Some q" using ok by (auto simp: tm_ok_def)
  then have v: "visit_timer [] ?a (ts_m s) = done_act (False, ts_m s)"
    using visit_outcome [OF ok a] quiet [OF a] by simp
  have "timer_step LVisit (s\<lparr>ts_pc := Scan k\<rparr>) (s\<lparr>ts_pc := Scan (Suc k)\<rparr>)"
    using timer_step.visit [of "s\<lparr>ts_pc := Scan k\<rparr>" k ?a False "ts_m s" "Suc k" "ts_m s"] v quiet [OF a] Suc.prems
    by (simp add: advance_def visit_events_def)
  with Suc show ?case by (auto intro: ticker_run_step)
qed

lemma quiet_tick:
  assumes ok: "tm_ok (ts_m s)" and pc: "ts_pc s = Sleep" and m: "m = tick_once (ts_m s)"
    and quiet: "\<And>a. a \<in> set (tm_timers m) \<Longrightarrow> \<not> due (tm_heap m ! a) (tm_tick m) \<and> \<not> t_cancelled (tm_heap m ! a)"
  shows "ticker_run s (s\<lparr>ts_m := m, ts_now := Suc (ts_now s)\<rparr>)"
proof -
  let ?t = "s\<lparr>ts_m := m, ts_now := Suc (ts_now s), ts_pc := Ticked\<rparr>" and ?n = "length (tm_timers m)"
  have "timer_step LTick s ?t" using timer_step.tick [OF pc] ok m by (simp add: tm_ok_def)
  then have "ticker_run s ?t" by (rule ticker_run_step [OF rtranclp.rtrancl_refl]) simp
  moreover have "timer_step LBegin ?t (?t\<lparr>ts_pc := Scan 0\<rparr>)" by (rule timer_step.begin_scan) simp
  ultimately have r: "ticker_run s (?t\<lparr>ts_pc := Scan 0\<rparr>)" by (rule ticker_run_step) simp
  have "tm_ok m" using ok by (simp add: m tm_ok_def)
  then have "ticker_run (?t\<lparr>ts_pc := Scan 0\<rparr>) (?t\<lparr>ts_pc := Scan ?n\<rparr>)"
    using quiet_scan [of "?t\<lparr>ts_pc := Scan 0\<rparr>" ?n] quiet by simp
  with r have r2: "ticker_run s (?t\<lparr>ts_pc := Scan ?n\<rparr>)" by (rule rtranclp_trans)
  have e: "?t\<lparr>ts_pc := Sleep\<rparr> = s\<lparr>ts_m := m, ts_now := Suc (ts_now s)\<rparr>" using pc by (cases s) simp
  have "timer_step LEnd (?t\<lparr>ts_pc := Scan ?n\<rparr>) (?t\<lparr>ts_pc := Sleep\<rparr>)"
    using timer_step.end_scan [of "?t\<lparr>ts_pc := Scan ?n\<rparr>" ?n] by simp
  with r2 show ?thesis unfolding e by (rule ticker_run_step) simp
qed

text \<open>The tick at which twelve timers are due; \<open>xs\<close> is what the queue holds when the thread is at position \<open>j\<close>.\<close>

definition at_scan :: "nat \<Rightarrow> nat option list \<Rightarrow> timer_sys \<Rightarrow> bool" where
  "at_scan j xs t \<longleftrightarrow> tm_ok (ts_m t) \<and> ts_pc t = Scan j \<and> tm_timers (ts_m t) = [0..<12] \<and>
     (\<forall>a. j \<le> a \<longrightarrow> a < 12 \<longrightarrow> due (tm_heap (ts_m t) ! a) (tm_tick (ts_m t))) \<and>
     (\<exists>q. tm_timeout (ts_m t) = Some q \<and> q_pool q = xs)"

lemma scan_due:
  assumes "at_scan j xs t" and "j < 12" and "length xs < 10"
  shows "\<exists>u. timer_step LVisit t u \<and> at_scan (Suc j) (xs @ [Some j]) u"
proof -
  let ?m = "ts_m t"
  obtain q where q: "tm_timeout ?m = Some q" "q_pool q = xs" and ok: "tm_ok ?m" "j \<in> set (tm_timers ?m)"
    using assms by (auto simp: at_scan_def)
  let ?m1 = "(put_timer j ((tm_heap ?m ! j)\<lparr>t_start := tm_tick ?m\<rparr>) ?m)\<lparr>tm_timeout := Some (q\<lparr>q_pool := q_pool q @ [Some j]\<rparr>)\<rparr>"
  let ?u = "t\<lparr>ts_m := ?m1, ts_pc := Scan (Suc j), ts_log := ts_log t @ visit_events (ts_now t) j ?m\<rparr>"
  have v: "visit_timer [] j ?m = done_act (False, ?m1)"
    using visit_outcome [OF ok q(1)] q(2) assms by (auto simp: at_scan_def)
  have step: "timer_step LVisit t ?u"
    using timer_step.visit [of t j j False ?m1 "Suc j" ?m1] v assms by (auto simp: at_scan_def advance_def)
  then have "tm_ok (ts_m ?u)" using tm_ok_step ok(1) by blast
  then have "at_scan (Suc j) (xs @ [Some j]) ?u" using assms q by (simp add: at_scan_def)
  with step show ?thesis by blast
qed

lemma scan_many:
  assumes "at_scan 0 [] t" and "j \<le> 10"
  shows "\<exists>u. ticker_run t u \<and> at_scan j (map Some [0..<j]) u"
  using assms(2)
proof (induction j)
  case (Suc j)
  then obtain u where u: "ticker_run t u" "at_scan j (map Some [0..<j]) u" by auto
  with scan_due [OF u(2)] Suc.prems obtain v where "timer_step LVisit u v" "at_scan (Suc j) (map Some [0..<Suc j]) v" by auto
  with u(1) show ?case by (auto intro: ticker_run_step)
qed (use assms(1) in auto)

lemma scan_dequeue:
  assumes "at_scan j (x # xs) t"
  shows "\<exists>u. timer_step LDequeue t u \<and> at_scan j xs u \<and> last (ts_handled u) = x"
proof -
  obtain q where q: "tm_timeout (ts_m t) = Some q" "q_pool q = x # xs" "queue_wf q" "\<not> q_break q"
    using assms by (auto simp: at_scan_def tm_ok_def)
  let ?u = "t\<lparr>ts_m := (ts_m t)\<lparr>tm_timeout := Some (q\<lparr>q_pool := xs\<rparr>)\<rparr>, ts_handled := ts_handled t @ [x]\<rparr>"
  have step: "timer_step LDequeue t ?u" by (rule timer_step.dequeue [OF q(1)]) (simp add: WaitDequeue_Nil q)
  have "tm_ok (ts_m ?u)" using tm_ok_step [OF step] assms by (simp add: at_scan_def)
  then have "at_scan j xs ?u" using assms q by (simp add: at_scan_def)
  with step show ?thesis by (intro exI [of _ ?u]) simp
qed

lemma scan_full:
  assumes "at_scan j xs t" and "j < 12" and "length xs = 10"
  shows "ticker_waits t"
proof -
  obtain q where q: "tm_timeout (ts_m t) = Some q" "q_pool q = xs" using assms by (auto simp: at_scan_def)
  have "visit_timer [] j (ts_m t) = None"
    using visit_outcome [OF _ _ q(1), of j] q(2) assms by (auto simp: at_scan_def)
  with assms show ?thesis by (auto simp: waits_blocked at_scan_def)
qed

text \<open>Two quiet ticks bring the threads to the third, at which all twelve timers are due.\<close>

lemma twelve_due:
  assumes k: "hops_known n 12 s" and ok: "tm_ok (ts_m (ls_t s))" and res: "tm_resolution (ts_m (ls_t s)) = 5"
  shows "\<exists>t. ticker_run (ls_t s) t \<and> at_scan 0 [] t"
proof -
  let ?t = "ls_t s" and ?tick = "\<lambda>v t. t\<lparr>ts_m := (ts_m t)\<lparr>tm_tick := v\<rparr>, ts_now := Suc (ts_now t)\<rparr>"
  have heap: "tm_heap (ts_m ?t) = replicate 12 (Timer_new 0 15)" "tm_timers (ts_m ?t) = [0..<12]" "ts_pc ?t = Sleep"
      "tm_tick (ts_m ?t) = 0"
    using k by (simp_all add: hops_known_def)
  have new: "\<not> due (Timer_new 0 15) 5" "\<not> due (Timer_new 0 15) 10" "due (Timer_new 0 15) 15" "\<not> t_cancelled (Timer_new 0 15)"
    by (simp_all add: due_def Timer_new_def)
  have r1: "ticker_run ?t (?tick 5 ?t)"
    using quiet_tick [OF ok heap(3), of "(ts_m ?t)\<lparr>tm_tick := 5\<rparr>"] heap res new by (simp add: tick_once_def)
  have ok1: "tm_ok (ts_m (?tick v t))" if "tm_ok (ts_m t)" for v t using that by (simp add: tm_ok_def)
  have r2: "ticker_run (?tick 5 ?t) (?tick 10 (?tick 5 ?t))"
    using quiet_tick [OF ok1 [OF ok, of 5], of "(ts_m ?t)\<lparr>tm_tick := 10\<rparr>"] heap res new by (simp add: tick_once_def)
  let ?u = "?tick 10 (?tick 5 ?t)"
  let ?v = "(?tick 15 ?u)\<lparr>ts_pc := Ticked\<rparr>"
  have "timer_step LTick ?u ?v"
    using timer_step.tick [of ?u] heap ok res by (simp add: tick_once_def tm_ok_def)
  with rtranclp_trans [OF r1 r2] have "ticker_run ?t ?v" by (rule ticker_run_step) simp
  moreover have "timer_step LBegin ?v (?v\<lparr>ts_pc := Scan 0\<rparr>)" by (rule timer_step.begin_scan) simp
  ultimately have "ticker_run ?t (?v\<lparr>ts_pc := Scan 0\<rparr>)" by (rule ticker_run_step) simp
  moreover have "tm_ok (ts_m ?v)" using ok by (simp add: tm_ok_def)
  then have "at_scan 0 [] (?v\<lparr>ts_pc := Scan 0\<rparr>)" using k heap new by (auto simp: at_scan_def hops_known_def)
  ultimately show ?thesis by blast
qed

lemma run_to_deadlock:
  fixes c :: "('e, 'b, 'r, 'f) Collector"
  assumes conf: "configured L cap mtu tm c" and n: "0 < n"
  shows "\<exists>s msg h. lock_run L mtu (lock_start n tm c) s \<and> deadlocked s \<and> ls_packets s = (replicate n P_idle)[0 := P_add msg h]"
proof -
  obtain msg :: "'e msg" where msg: "int (length (m_data msg)) \<le> mtu"
    using conf that [of "BaseMsg.extend blank_msg undefined"] by (auto simp: configured_def BaseMsg.defs blank_msg_def)
  obtain s where run: "lock_run L mtu (lock_start n tm c) s" and k: "hops_known n 12 s"
    using hops_reachable [OF conf n msg] by blast
  have inv: "simulated L mtu c s" "tm_ok (ts_m (ls_t s))" using lock_reachable [OF conf run] by (auto simp: lock_inv_def)
  obtain t0 where t0: "ticker_run (ls_t s) t0" "at_scan 0 [] t0" using twelve_due [OF k inv(2) resolution_whole [OF conf inv(1)]] by blast
  obtain t1 where t1: "ticker_run t0 t1" "at_scan 10 (map Some [0..<10]) t1" using scan_many [OF t0(2), of 10] by auto
  have "[0..<10] = 0 # [1..<10]" by (rule upt_rec [THEN trans]) simp
  with t1(2) have full: "at_scan 10 (Some 0 # map Some [1..<10]) t1" by simp
  obtain t2 where t2: "timer_step LDequeue t1 t2" "at_scan 10 (map Some [1..<10]) t2" "last (ts_handled t2) = Some 0"
    using scan_dequeue [OF full] by blast
  obtain t3 where t3: "timer_step LVisit t2 t3" "at_scan 11 (map Some [1..<10] @ [Some 10]) t3"
    using scan_due [OF t2(2)] by auto
  let ?ps = "(replicate n P_idle)[0 := P_add msg (hop_name 12)]"
  let ?s1 = "s\<lparr>ls_t := t1, ls_packets := ?ps\<rparr>"
  have "lock_run L mtu s (s\<lparr>ls_t := t1\<rparr>)" by (rule lock_run_ticker [OF rtranclp_trans [OF t0(1) t1(1)]])
  moreover have "lock_run L mtu (s\<lparr>ls_t := t1\<rparr>) ?s1" using wait_to_add [OF k n msg, of "s\<lparr>ls_t := t1\<rparr>" L] by simp
  ultimately have r1: "lock_run L mtu (lock_start n tm c) ?s1" using run by (meson rtranclp_trans)
  obtain p where "map_of (co_tbufs (ls_c s)) 0 = Some p"
    using k map_of_eq_None_iff [of "co_tbufs (ls_c s)" 0] by (force simp: hops_known_def simp flip: set_map)
  then have "lock_step L mtu Expiry ?s1 (?s1\<lparr>ls_t := t2, ls_worker := W_lock 0\<rparr>)"
    using lock_step.dequeue [of ?s1 t2 L mtu] t2 k by (simp add: hops_known_def)
  with r1 have r2: "lock_run L mtu (lock_start n tm c) (?s1\<lparr>ls_t := t2, ls_worker := W_lock 0\<rparr>)" by (rule lock_run_snoc)
  let ?s = "?s1\<lparr>ls_worker := W_lock 0, ls_t := t3\<rparr>"
  have "lock_step L mtu Ticking (?s1\<lparr>ls_t := t2, ls_worker := W_lock 0\<rparr>) ?s"
    using lock_step.ticker [of LVisit "?s1\<lparr>ls_t := t2, ls_worker := W_lock 0\<rparr>" t3 L mtu] t3 by simp
  with r2 have "lock_run L mtu (lock_start n tm c) ?s" by (rule lock_run_snoc)
  moreover have "P_add msg (hop_name 12) \<in> set ?ps" using n by (simp add: set_update_memI)
  then have "deadlocked ?s" using scan_full [OF t3(2)] by (force simp: deadlocked_def mutex_free_def)
  ultimately show ?thesis by (intro exI [of _ ?s] exI [of _ msg] exI [of _ "hop_name 12"]) simp
qed

section \<open>Properties\<close>


text \<open>A deadlock is permanent: once the threads are in the cycle of waits, no packet is ever collected again, no
  timer expires or is handled, and the tick stands still, whatever arrives.\<close>

theorem deadlock_permanent:
  assumes "deadlocked s" and "lock_run L mtu s t"
  shows "deadlocked t \<and> ls_c t = ls_c s \<and> ls_t t = ls_t s \<and> ls_worker t = ls_worker s"
  using assms(2)
proof (induction rule: rtranclp_induct)
  case (step t u)
  then obtain l where l: "lock_step L mtu l t u" by blast
  have waits: "ticker_waits (ls_t t)" "holds_mutex (ls_t t)" "\<not> mutex_free t" "ls_worker t \<noteq> W_wait"
    using step.IH by (auto simp: deadlocked_def waits_blocked)
  from l show ?case
  proof (cases rule: lock_step.cases)
    case (arrive i msg h)
    obtain pc where "pc \<in> set (ls_packets t)" "adding pc" using waits(3) by (auto simp: mutex_free_def)
    then have "\<exists>pc\<in>set ((ls_packets t)[i := P_wait msg h]). adding pc"
      using arrive(4) by (metis adding.simps(2) in_set_conv_nth length_list_update nth_list_update_neq)
    with step.IH arrive waits show ?thesis by (auto simp: deadlocked_def mutex_free_def)
  qed (use waits waiting_ticker_stuck in auto)
qed (use assms(1) in simp)


subsection \<open>Witnesses\<close>

lemma small_configured: "configured demo_lib fst 4 small_tm small_collector"
  using demo_lib_ok small_room small_init by (auto simp: configured_def small_collector_def)



theorem deadlock_permanent_witness:
  "\<exists>s t. lock_run demo_lib 4 (lock_start 2 small_tm small_collector) s \<and> lock_step demo_lib 4 (Arrive 1) s t \<and>
     deadlocked t \<and> ls_t t = ls_t s"
proof -
  obtain s :: "(bool, int \<times> nat option, unit, unit) lock_sys" and msg h
    where s: "lock_run demo_lib 4 (lock_start 2 small_tm small_collector) s" "deadlocked s"
      "ls_packets s = (replicate 2 P_idle)[0 := P_add msg h]"
    using run_to_deadlock [OF small_configured, of 2] by auto
  let ?t = "s\<lparr>ls_packets := (ls_packets s)[1 := P_wait (demo_packet []) h]\<rparr>"
  have step: "lock_step demo_lib 4 (Arrive 1) s ?t"
    by (rule lock_step.arrive) (simp_all add: s demo_packet_def BaseMsg.defs)
  then have "lock_run demo_lib 4 s ?t" by blast
  from deadlock_permanent [OF s(2) this] s(1) step show ?thesis by blast
qed

end
