(* ===== verification/Unit_Tests.thy ===== *)
theory Unit_Tests
  imports Settings Poller Timer
begin

text \<open>
  The tests of the repository that the sources at hand still match, \<open>settings_test.cpp\<close>,
  \<open>poller_test.cpp\<close> and \<open>timer_test.cc\<close>, as calls of the model with the results that the tests expect. The test of the settings
  is shown to pass for every settings file that has well-formed entries and none of the names that it uses,
  not only for the file it happens to find.
\<close>

section \<open>Settings\<close>

definition one_point_one :: double where
  "one_point_one = Finite False (dround (11 / 10))"

text \<open>\<open>write_and_read\<close>, \<open>write_format\<close> and \<open>read_format\<close> one after the other: the value read after each write.\<close>

definition settings_writes :: "(string \<times> cxx_value \<times> cxx_value) list" where
  "settings_writes =
     [(''main.string'', StringV ''test'', StringV ''none''), (''main.int'', IntV 1, IntV 2),
      (''main.double'', DoubleV one_point_one, DoubleV (Finite False (dround (12 / 10)))),
      (''main.a.b'', StringV ''hi'', StringV ''none''), (''main.a[1]'', StringV ''hi'', StringV ''none'')]"

fun write_and_read :: "(string \<times> cxx_value \<times> cxx_value) list \<Rightarrow> ini_file \<Rightarrow> (cxx_value list \<times> ini_file) res" where
  "write_and_read [] f = Inr ([], f)"
| "write_and_read ((name, v, d) # ws) f =
     bindE (setValue name v f) (\<lambda>f1.
     bindE (getValue name d f1) (\<lambda>r.
     bindE (write_and_read ws f1) (\<lambda>(rs, f2). Inr (r # rs, f2))))"

text \<open>What the values of the test have in common: each is read back as it was written.\<close>

fun read_back :: "cxx_value \<Rightarrow> cxx_value \<Rightarrow> bool" where
  "read_back (StringV s) (StringV d) \<longleftrightarrow> s \<noteq> [] \<and> first_word s = s"
| "read_back (IntV i) (IntV j) \<longleftrightarrow> int32_ok i"
| "read_back (DoubleV x) (DoubleV y) \<longleftrightarrow> stod (print_double x) = Inr x"
| "read_back _ _ \<longleftrightarrow> False"

lemma read_back_value:
  assumes "read_back v d"
  shows "isSupported v \<and> isSupported d \<and> value_of (first_word (print_value v)) d = Inr v"
proof (cases "(v, d)" rule: read_back.cases)
  case (2 i j)
  then show ?thesis using assms first_word_show_int [of i] stoi_show_int [of i] by (auto simp: show_int_def)
next
  case (3 x y)
  then show ?thesis using assms by (simp add: first_word_double print_double_nonempty)
qed (use assms in auto)

lemma write_and_read_all:
  assumes "f_readable f" and "f_writable f" and "good_entries (read_ini (f_content f) [])"
    and "\<forall>(name, v, d)\<in>set ws. good_key name \<and> read_back v d"
  shows "\<exists>f'. write_and_read ws f = Inr (map (\<lambda>(name, v, d). v) ws, f') \<and> f_readable f' \<and>
     (\<forall>other. other \<notin> fst ` set ws \<longrightarrow> lookup other (read_ini (f_content f') []) = lookup other (read_ini (f_content f) []))"
  using assms
proof (induction ws arbitrary: f)
  case (Cons w ws)
  obtain name v d where w: "w = (name, v, d)" by (cases w) auto
  have ok: "good_key name" "read_back v d" using Cons.prems(4) by (simp_all add: w)
  obtain f1 where f1: "setValue name v f = Inr f1" "\<forall>other. other \<noteq> name \<longrightarrow>
        lookup other (read_ini (f_content f1) []) = lookup other (read_ini (f_content f) [])"
      "getValue name d f1 = Inr v" "f_readable f1" "f_writable f1" "good_entries (read_ini (f_content f1) [])"
    using set_then_get [OF Cons.prems(1-3) ok(1), of v] read_back_value [OF ok(2)] by auto
  obtain f' where "write_and_read ws f1 = Inr (map (\<lambda>(name, v, d). v) ws, f')" "f_readable f'"
      "\<forall>other. other \<notin> fst ` set ws \<longrightarrow> lookup other (read_ini (f_content f') []) = lookup other (read_ini (f_content f1) [])"
    using Cons.IH [OF f1(4-6)] Cons.prems(4) by auto
  with f1 show ?case by (intro exI [of _ f']) (simp add: w)
qed simp

lemma one_point_one_back: "stod (print_double one_point_one) = Inr one_point_one"
proof -
  define q :: rat where "q = of_nat 110000 * 10 powi (0 - 5)"
  have q: "q = 11 / 10" by (simp add: q_def power_int_minus)
  have "q - dblp q \<le> q / 2 ^ 53" using dblp_rel [of q] by (simp only: abs_le_iff minus_diff_eq) (simp add: q)
  then have "1 \<le> dblp q" by (simp add: q)
  moreover have "(2::rat) powi (- 1022) \<le> 1" by (simp add: power_int_minus)
  ultimately have lo: "2 powi (- 1022) \<le> dblp q" by (rule order_trans [rotated])
  have "\<bar>dround q - q\<bar> \<le> q / 2 ^ 50" using lo by (intro dround_near) (simp_all add: q)
  then have "dround q - q \<le> q / 2 ^ 50" by (rule abs_le_D1)
  then have "dround q < 2" by (simp add: q)
  moreover have "(2::rat) \<le> 2 ^ 1024" by simp
  ultimately have "\<not> 2 ^ 1024 \<le> dround q" by linarith
  with lo have "to_double False q = Inr one_point_one" by (simp add: to_double_def one_point_one_def q)
  then show ?thesis using short_decimal [of 110000 False 0 one_point_one] unfolding q_def by simp
qed

section \<open>Poller\<close>

text \<open>A poller whose system calls succeeded, a pipe with the reading end 7 and the callback 1. \<open>test_round\<close> is one round of the
  thread of the poller, in which \<open>ms\<close> milliseconds pass and \<open>ready\<close> is what \<open>epoll_wait\<close> returns; the wake-up pipe of
  the poller itself is left out of \<open>ready\<close>.\<close>

definition test_round :: "u64 \<Rightarrow> (int \<times> u32) list \<Rightarrow> Poller \<times> (int \<Rightarrow> u32 option) \<Rightarrow>
    ((nat option \<times> u32) list \<times> Poller \<times> (int \<Rightarrow> u32 option)) res" where
  "test_round ms ready s = poll_round kernel_ctl (\<lambda>_ _. ready) id 0 (ms * 1000000) [] (fst s) (snd s)"

definition test_request :: "int \<Rightarrow> nat option \<Rightarrow> PollRequest" where
  "test_request timeout callback =
     \<lparr>rq_fd = 7, rq_events = 0x80000001, rq_timeout_ms = timeout, rq_callback = callback\<rparr>"

text \<open>The answers of the calls, and the callbacks of each round.\<close>

definition poller_test :: "(bool list \<times> (nat option \<times> u32) list list) res" where
  "poller_test =
     (let p0 = fresh_poller;
          (invalid, p0) = Register True 9 \<lparr>rq_fd = - 1, rq_events = 0, rq_timeout_ms = - 1, rq_callback = None\<rparr> p0;
          (no_callback, p0) = Register True 9 (test_request 0 None) p0;
          (first, p1) = Register True 9 (test_request 0 (Some 1)) p0 in
      bindE (test_round 1 [] (p1, \<lambda>_. None)) (\<lambda>(calls1, p2, k2).
      let (second, p3) = Register True 9 (test_request 50 (Some 1)) p2 in
      bindE (test_round 20 [] (p3, k2)) (\<lambda>(calls2, p4, k4).
      bindE (test_round 35 [] (p4, k4)) (\<lambda>(calls3, p5, k5).
      let (third, p6) = Register True 9 (test_request 200 (Some 1)) p5 in
      bindE (test_round 25 [(7, 1)] (p6, k5)) (\<lambda>(calls4, p7, k7).
      let (gone, p8) = Unregister 0 True 9 (test_request 200 (Some 1)) p7;
          (again, p8) = Unregister 0 True 9 (test_request 200 (Some 1)) p8;
          (unnamed, p8) = Unregister 0 True 9 (test_request 200 None) p8 in
      case Poller_Shutdown p8 of
        None \<Rightarrow> Inl AssertionFailed
      | Some p9 \<Rightarrow>
          let (late, p9) = Register True 9 (test_request 0 (Some 1)) p9;
              (late_too, p9) = Unregister 0 True 9 (test_request 0 (Some 1)) p9 in
          Inr ([invalid, no_callback, first, second, third, gone, again, unnamed, late, late_too],
               [calls1, calls2, calls3, calls4]))))))"

section \<open>Timer\<close>

text \<open>A oneshot timer of 15 milliseconds is added to a started service, which is then destroyed.\<close>

definition timer_test :: "string \<Rightarrow> u64 \<Rightarrow> TimerManager res" where
  "timer_test uuid garbage =
     bindE (StartAsThread uuid (TimerManager_new [Timer_new garbage 15])) (\<lambda>m.
       case AddOneshotTimer 0 m of
         (Inl e, _) \<Rightarrow> Inl e
       | (Inr _, m') \<Rightarrow> TimerManager_destroy m')"

section \<open>Properties\<close>

text \<open>The tests of the settings pass, for every settings file that can be opened, holds well-formed entries and has
  none of the names of the tests: defaults are returned for missing entries, values that were written come
  back (the \<open>double\<close> 1.1 too), an unsupported type is refused, and neither a prefix of a name nor a name that is only
  formatted is confused with another.\<close>

theorem settings_tests_pass:
  assumes "f_readable f" and "f_writable f" and "good_entries (read_ini (f_content f) [])"
    and "\<forall>name\<in>{''main.string'', ''main.int'', ''main.double'', ''main.a''}. lookup name (read_ini (f_content f) []) = []"
  shows "getValue ''main.string'' (StringV ''test'') f = Inr (StringV ''test'') \<and>
     getValue ''main.int'' (IntV 1) f = Inr (IntV 1) \<and>
     getValue ''main.double'' (DoubleV one_point_one) f = Inr (DoubleV one_point_one) \<and>
     (\<exists>e. getValue ''main.float'' OtherV f = Inl e) \<and> (\<exists>e. setValue ''main.float'' OtherV f = Inl e) \<and>
     (\<exists>f'. write_and_read settings_writes f =
        Inr ([StringV ''test'', IntV 1, DoubleV one_point_one, StringV ''hi'', StringV ''hi''], f') \<and>
        getValue ''main.a'' (StringV ''none'') f' = Inr (StringV ''none'') \<and>
        getValue_fmt ''main.a[1]'' (StringV []) f' = getValue ''main.a[1]'' (StringV []) f')"
proof -
  have keys: "\<forall>(name, v, d)\<in>set settings_writes. good_key name \<and> read_back v d"
    by (simp add: settings_writes_def good_key_def good_section_def good_name_def section_of_def name_of_def
        trimmed_def isspace_def first_word_def int32_ok_def one_point_one_back)
  obtain f' where f': "write_and_read settings_writes f = Inr (map (\<lambda>(name, v, d). v) settings_writes, f')" "f_readable f'"
      "\<forall>other. other \<notin> fst ` set settings_writes \<longrightarrow> lookup other (read_ini (f_content f') []) = lookup other (read_ini (f_content f) [])"
    using write_and_read_all [OF assms(1-3) keys] by blast
  have "lookup ''main.a'' (read_ini (f_content f') []) = []"
    using f'(3) assms(4) by (auto simp: settings_writes_def)
  then have "getValue ''main.a'' (StringV ''none'') f' = Inr (StringV ''none'')" using f'(2) by (simp add: getValue_def)
  moreover have "getValue_fmt ''main.a[1]'' (StringV []) f' = getValue ''main.a[1]'' (StringV []) f'"
    by (simp add: getValue_fmt_def getValue_def)
  moreover have "map (\<lambda>(name, v, d). v) settings_writes = [StringV ''test'', IntV 1, DoubleV one_point_one, StringV ''hi'', StringV ''hi'']"
    by (simp add: settings_writes_def)
  ultimately show ?thesis using f'(1) assms(1,4) by (auto simp: getValue_def setValue_def)
qed

text \<open>The test of the poller passes: invalid requests are refused, a request with timeout zero is called back in the next
  round, one with a timeout of 50 milliseconds not after 20 but after 55, an event reaches the callback, a
  second \<open>Unregister\<close> is refused, and so is everything after \<open>Shutdown\<close>.\<close>

theorem poller_test_passes:
  "poller_test =
     Inr ([False, False, True, True, True, True, False, False, False, False],
          [[(Some 1, 0)], [], [(Some 1, 0)], [(Some 1, 1)]])"
  by code_simp

text \<open>The test of the timer passes: nothing is thrown, the timer is in the list when the service is destroyed, and the
  destructor ends the loops of its threads.\<close>

theorem timer_test_passes:
  "\<exists>m. timer_test uuid garbage = Inr m \<and> tm_timers m = [0] \<and> t_oneshot (tm_heap m ! 0) \<and> tm_stop m"
  by (simp add: timer_test_def StartAsThread_def InitThreadPool_def Queue_new_eq TimerManager_new_def AddOneshotTimer_def
      AddTimer_def Timer_new_def put_timer_def TimerManager_destroy_def TimerManager_Stop_def BreakAllWait_def deref_def Let_def)

subsection \<open>Witnesses\<close>

theorem settings_tests_pass_witness:
  "\<exists>f'. write_and_read settings_writes two_settings_file =
     Inr ([StringV ''test'', IntV 1, DoubleV one_point_one, StringV ''hi'', StringV ''hi''], f')"
proof -
  have "lookup name two_settings = []" if "name \<in> {''main.string'', ''main.int'', ''main.double'', ''main.a''}" for name
    using that by (auto simp: two_settings_def lookup_def)
  then show ?thesis
    using settings_tests_pass [of two_settings_file] two_settings_good(1) two_settings_read
    by (auto simp: two_settings_file_def)
qed

end
