(* ===== verification/Spec2Isabelle.thy ===== *)
theory Spec2Isabelle
  imports Node_Manager Node_Handlers Relay_Path Poller_System Time_Tool File_Handler Tools Collector_Locks Unit_Tests
begin

text \<open>
  A verification development for the services framework under \<open>src/src/\<close>: nodes that run in
  threads and pass messages to each other through channels, with a timer service, a poller
  thread for file descriptors, and a settings file.

  \<^bold>\<open>The parts and how they interact.\<close> A \<open>NodeManager\<close> connects nodes by channels and starts
  their threads. A channel is a bounded blocking \<open>Queue\<close> of messages. A relay node reads its
  input channels, hands each message to its handler and dispatches messages to its output
  channels; a duplex node writes what it reads to a descriptor and gets its input from the
  \<open>Poller\<close>, which calls it back when the descriptor is readable. Messages are byte buffers with
  room for headers; network messages are IP packets. The \<open>TimerManager\<close> ticks and queues expired
  timers for a worker, through the same \<open>Queue\<close>. The nodes of an application for coded transport are
  built on these: a tun node turns IP packets into messages, the \<open>Collector\<close> gathers packets per next
  hop in blocks, with a timer for each, the \<open>Encoder\<close> codes the blocks, and a UDP node sends them
  with a protocol header.

  \<^bold>\<open>The theories\<close>, with the files they model:

  \<^item> \<open>Prelude\<close>: C++ integers, errors as values of \<open>err\<close>, blocking operations (\<open>'a act\<close>: still
    waiting, failed or done), static instances, and the interface \<open>invariant_system\<close>. \<open>Text_Format\<close>: what is
    used of the string library; printing an \<open>int\<close> and reading it back. \<open>Double_Format\<close>: the values of \<open>double\<close> with
    their rounding, printing with six digits and \<open>std::stod\<close>; what is read back of a printed number.
  \<^item> \<open>Wait_Queue\<close> (\<open>include/queue.h\<close>): \<open>Queue\<close>, its atomic operations, the waiting loops with
    the interference of other threads, and the step relation \<open>queue_step\<close> of threads that share a
    queue. First in first out and the bound hold in every reachable state; a broken wait releases
    every thread; the loops take effect atomically. The interfaces \<open>blocking_queue\<close> and
    \<open>message_channel\<close> state the contract the clients use.
  \<^item> \<open>Base_Msg\<close> (\<open>include/msg.h\<close>): the buffer and its three positions; assembling a message from
    header room and pieces, disjoint headers, the exact outcomes of \<open>fill\<close>.
  \<^item> \<open>Channel\<close> (\<open>util/channel.h\<close>): the channel as an instance of \<open>message_channel\<close>.
  \<^item> \<open>Node\<close> (\<open>util/node.h\<close>, \<open>util/node_duplex.h\<close>): nodes and channels live in a store
    (\<open>world\<close>); the accessors of both kinds of node satisfy the interface \<open>channel_table\<close>;
    dispatching, stopping and the thread entry \<open>DoWork\<close>, whose loop has fuel: two more tests of
    the flag than there are messages are enough, as the theorem about it shows. \<open>Node_System\<close>: the step relation \<open>node_step\<close>
    of the workers of a node, the threads that write to its channels and those that stop it. Every message is handled exactly
    once in every reachable state, and in order if a channel has one reader; \<open>Stop\<close> ends every worker within four steps, and a stop
    signal from a channel need not; \<open>DoWork\<close> and \<open>Stop\<close> by themselves are runs of this system. \<open>Node_Handlers\<close>: the handlers of
    the encoder, the tun node and the UDP node keep to the interface \<open>quiet_handler\<close> that the workers rely on.
  \<^item> \<open>Node_Manager\<close> (\<open>util/node_manager.h\<close>): connecting, starting, shutting down, the instance.
  \<^item> \<open>Timer\<close> (\<open>util/timer.h\<close>, \<open>timer.cc\<close>): timers in a heap, the tick as a loop over the list
    (its length is enough fuel), and the step relation \<open>timer_step\<close> of the ticking thread, the
    worker and the callers with their locks. Expiries are exact to the tick in every reachable
    state, also after the 64-bit tick has wrapped around.
  \<^item> \<open>Poller\<close> (\<open>io/poller.h\<close>, \<open>poller.cpp\<close>, \<open>poll_data.h\<close>): registration, the changes applied to
    the kernel's interest list, timeouts and callbacks. The kernel is a parameter; \<open>epoll_ok\<close> states
    the documented behaviour of \<open>epoll_ctl\<close>, and the registrations are shown to be refined by the
    interest list. \<open>Poller_System\<close>: the step relation \<open>poll_step\<close> of the thread of the poller and its callers with both mutexes.
    In every reachable state the interest list and the changes on their way give the registrations; an unregistered
    descriptor is not called back; the thread is woken up for changes, but for one race; it ends after a shutdown in every
    fair run. The sequential operations are shown to be runs of this system.
  \<^item> \<open>Settings\<close> (\<open>util/settings.h\<close>, \<open>settings.cpp\<close>, \<open>trim\<close> of \<open>util.h\<close>): reading and writing the
    file, typed access; the round trip of files and of single values, where a \<open>double\<close> keeps six digits.
  \<^item> \<open>Net_Msg\<close> (\<open>util/net_msg.h\<close>, \<open>net_msg.cpp\<close>): decoding of IPv4 packets, the flow index.
  \<^item> \<open>Duplex_Io\<close> (\<open>util/node_tun.h\<close>, \<open>node_tun.cc\<close>, \<open>node_udp.h\<close>, \<open>node_udp.cc\<close>, parts of \<open>node.h\<close>
    and \<open>node_duplex.h\<close>): the descriptor, the tun device and the poller callback. The loop of
    \<open>FDWrite\<close> has fuel: one more than the frames of the buffer is enough, and for a frame of
    length zero no fuel is.
  \<^item> \<open>Tools\<close> (\<open>include/uuid.h\<close>, \<open>util/util.h\<close>): identifiers, shell output, and addresses as text and back. \<open>Macros\<close> (\<open>include/macros.h\<close>): time stamps and byte
    order; the two versions of the byte swap are the same function. \<open>Time_Tool\<close> (\<open>util/timetool.*\<close>):
    times with conversions through \<open>double\<close>, whose rounding is written out; where they are exact and
    where they are not. \<open>File_Handler\<close> (\<open>util/file.*\<close>): reading and writing files, in pieces and back.
  \<^item> \<open>Collector\<close> (\<open>util/node_collector.*\<close>): the operations of the collector on a store of shared blocks.
    \<open>Collector_Stream\<close>: the abstract collector, which keeps the pending bytes of each next hop, and the
    refinement of each operation to it. \<open>Collector_System\<close>: the step relation \<open>collector_step\<close> of the
    threads that share a collector; no packet is lost, split, repeated or reordered in any reachable state.
    \<open>Collector_Channels\<close>: sorting the output channels, and the way of a packet to a channel.
    \<open>Collector_Locks\<close>: the threads of the collector and of its timer service with the mutexes of both and the
    queue between them, as the step relation \<open>lock_step\<close>, which refines \<open>collector_step\<close>. The threads are stuck
    exactly in one cycle of waits, which is reachable and permanent.
  \<^item> \<open>Encoder\<close> (\<open>util/node_encoder.h\<close>) and \<open>Udp_Io\<close> (\<open>Udp::FDRecv\<close> and \<open>Udp::FDWrite\<close> of \<open>util/node_udp.cc\<close>).
  \<^item> \<open>Relay_Path\<close>: collector, encoder and tun node together: every block passes the assertion of the
    encoder, and the worker of the tun node at the far end writes exactly the packets.
  \<^item> \<open>Duplex_Path\<close>: the descriptors and the channels behind their nodes. The callback that \<open>RegisterToPoller\<close> registers and the
    worker of a duplex node are code of the base class; the interfaces \<open>fd_receiver\<close> and \<open>fd_sender\<close> state what it relies on of
    \<open>FDRecv\<close> and \<open>FDWrite\<close>, with the tun and the UDP node as instances. What can be read reaches the channels, and what is in a
    channel leaves the host, in order; with the encoder in front, coded messages leave as datagrams.
  \<^item> \<open>Unit_Tests\<close> (\<open>util/test/settings_test.cpp\<close>, \<open>util/test/timer_test.cc\<close>, \<open>io/test/poller_test.cpp\<close>): the tests of the
    repository, which pass in the model.
  \<^item> This theory: the path of messages between two connected nodes, over \<open>Node_Manager\<close>,
    \<open>Node\<close>, \<open>Channel\<close> and \<open>Wait_Queue\<close> together.

  \<^bold>\<open>How the code is read.\<close> Every exception, failed assertion and undefined operation (null or
  dangling pointers, accesses out of bounds, signed overflow, division by zero) is a value of
  \<open>err\<close>. Shared objects are addressed in explicit stores. Unordered maps are association lists
  with distinct keys whose order stands for the iteration order. Random bytes, clock readings, the
  results of system calls and the code of clients (message handlers, timer and poll callbacks) are
  arguments. Log output is left out, except for the lines of \<open>View\<close>.

  \<^bold>\<open>Code outside the repository.\<close> The collector, the encoder and the UDP node use classes whose files the
  repository lacks (\<open>BatsBuffer\<close>, \<open>BatsMsg\<close>, \<open>RouteTable\<close>, \<open>FlowRecoder\<close>, \<open>BatsEncoder\<close>, \<open>BatsHeader\<close>). What is called of them is
  a record of functions (\<open>bats_library\<close>, \<open>encoder_library\<close>, \<open>udp_library\<close>) that the operations take as an
  argument; \<open>bats_ok\<close> and \<open>udp_ok\<close> state what the callers rely on, and the witnesses give instances.

  \<^bold>\<open>What is not modelled.\<close> The template \<open>exe_shell\<close> of \<open>util.h\<close>, of which no instance compiles; the logging
  set-up, which only calls the logging library; \<open>node_test.cc\<close>, which calls a function that the manager does not
  have. Data races on members that the code accesses without a lock are outside the step relations, whose
  steps are the locked parts and single accesses to the flags, taken as atomic.
\<close>

section \<open>From one node to the next\<close>

text \<open>A node with one output channel dispatches a list of messages.\<close>

lemma dispatch_all_one_channel:
  assumes "i < length (w_nodes w)" and "side (w_nodes w ! i) CHN_OUT = [c]" and "c < length (w_chans w)"
    and "chan_wf (w_chans w ! c)" and "\<not> broken (w_chans w ! c)"
    and "length (pending (w_chans w ! c)) + length ms \<le> 100"
  shows "dispatch_all i ms w = done_act (set_chan c ((w_chans w ! c)
      \<lparr>c_queue := (c_queue (w_chans w ! c))\<lparr>q_pool := pending (w_chans w ! c) @ map Some ms\<rparr>\<rparr>) w)"
  using assms
proof (induction ms arbitrary: w)
  case (Cons m ms)
  let ?ch = "w_chans w ! c"
  let ?ch' = "?ch\<lparr>c_queue := (c_queue ?ch)\<lparr>q_pool := pending ?ch @ [Some m]\<rparr>\<rparr>"
  have "Dispatch i (Some m) w = done_act (set_chan c ?ch' w)"
    using Dispatch_index [OF Cons.prems(1,2), of c m] Cons.prems(3-6) WriteMessage_room [of ?ch "Some m"]
    by simp
  moreover have "chan_wf ?ch'" using Cons.prems(4,6) by (auto simp: chan_wf_def queue_wf_def to_size_t_def)
  ultimately show ?case
    using Cons.IH [of "set_chan c ?ch' w"] Cons.prems by simp
qed simp

text \<open>An unconnected source and a running sink.\<close>

definition two_nodes :: "(unit, BaseMsg list) world" where
  "two_nodes = \<lparr>w_chans = [],
     w_nodes = [Node_new NODE_SOURCE ''src'', (Node_new NODE_SINK ''sink'')\<lparr>n_is_stop := False\<rparr>],
     w_processor_id = (\<lambda>_. 0), w_ext = []\<rparr>"

lemma Connect_unlinked:
  assumes "up < length (w_nodes w)" and "down < length (w_nodes w)"
    and "n_type (w_nodes w ! up) \<noteq> NODE_SINK" and "n_type (w_nodes w ! down) \<noteq> NODE_SOURCE"
    and "side (w_nodes w ! up) CHN_OUT = []" and "side (w_nodes w ! down) CHN_IN = []"
  shows "Connect uuid up down reuse mg w =
    bindE (Connect_fresh uuid (n_name (w_nodes w ! up) @ '':'' @ n_name (w_nodes w ! down)) up down mg w)
      (\<lambda>(mg', w2). Inr (True, mg', w2))"
  using assms Connect_reuse_eq [OF assms(1,2)]
  by (cases reuse) (auto simp: Connect_def Let_def any_table.num_small add32_def int32_ok_def)

text \<open>(C6) End to end between two connected nodes. Connecting two nodes that have no channel on the
  sides concerned and then dispatching the messages \<open>ms\<close> and a stop signal at the upstream node
  (at most as many as a channel holds) never waits; a worker of the downstream node on the
  new channel then hands exactly \<open>ms\<close>, in order and once each, to its message handler, stops its
  node and passes the stop signal on.\<close>

theorem pipeline_end_to_end:
  assumes "up < length (w_nodes w)" and "down < length (w_nodes w)" and "up \<noteq> down"
    and "n_type (w_nodes w ! up) \<noteq> NODE_SINK"
    and "n_type (w_nodes w ! down) = NODE_RELAY \<or> n_type (w_nodes w ! down) = NODE_SINK"
    and "side (w_nodes w ! up) CHN_OUT = []" and "side (w_nodes w ! down) CHN_IN = []"
    and "\<not> n_is_stop (w_nodes w ! down)"
    and "Connect uuid up down reuse mg w = Inr (True, mg', w')"
    and "c = length (w_chans w)" and "handler_ok H down c g"
    and "length ms < 100" and "\<forall>m\<in>set ms. \<not> stop_msg m" and "stop_msg s"
  shows "\<exists>w1 w2. dispatch_all up (ms @ [s]) w' = done_act w1 \<and>
     work_loop (length ms + 2) (HandlerRelaying H down c) down w1 = Dispatch down (Some s) w2 \<and>
     w_ext w2 = fold g ms (w_ext w) \<and> n_is_stop (w_nodes w2 ! down) \<and> pending (w_chans w2 ! c) = []"
proof -
  let ?u = "w_nodes w ! up" and ?d = "w_nodes w ! down"
  let ?ch = "fresh_channel uuid (n_name ?u @ '':'' @ n_name ?d)"
  have d: "n_type ?d \<noteq> NODE_SOURCE" using assms(5) by auto
  have w': "w_chans w' = w_chans w @ [?ch]" "w_ext w' = w_ext w"
      "w_nodes w' = (w_nodes w)[up := AddChannel ?u c CHN_OUT, down := AddChannel ?d c CHN_IN]"
    using Connect_unlinked [OF assms(1,2,4) d assms(6,7), of uuid reuse mg] assms(3,9,10)
    by (auto simp: Connect_fresh_eq [OF assms(1,2)] Let_def)
  have nodes: "w_nodes w' ! up = AddChannel ?u c CHN_OUT" "w_nodes w' ! down = AddChannel ?d c CHN_IN"
      "length (w_nodes w') = length (w_nodes w)"
    using w'(3) assms(1-3) by simp_all
  have out: "side (w_nodes w' ! up) CHN_OUT = [c]" using assms(6) nodes(1) by (simp add: any_table.view_add)
  have ch: "w_chans w' ! c = ?ch" "c < length (w_chans w')" "chan_wf ?ch" "\<not> broken ?ch" "pending ?ch = []"
    using w'(1) assms(10) by (simp_all add: chan_wf_def queue_wf_def to_size_t_def)
  let ?w1 = "set_chan c (?ch\<lparr>c_queue := (c_queue ?ch)\<lparr>q_pool := map Some (ms @ [s])\<rparr>\<rparr>) w'"
  have w1: "dispatch_all up (ms @ [s]) w' = done_act ?w1"
    using dispatch_all_one_channel [OF _ out ch(2), of "ms @ [s]"] assms(1,12) nodes(3) ch by simp
  have wf: "chan_wf (w_chans ?w1 ! c)"
    using ch(2) assms(12) by (simp add: chan_wf_def queue_wf_def to_size_t_def)
  have "\<exists>w2. work_loop (length ms + 2) (HandlerRelaying H down c) down ?w1 = Dispatch down (Some s) w2 \<and>
      down < length (w_nodes w2) \<and> w_nodes w2 ! down = (w_nodes ?w1 ! down)\<lparr>n_is_stop := True\<rparr> \<and>
      pending (w_chans w2 ! c) = [] \<and> w_ext w2 = fold g ms (w_ext ?w1)"
    by (rule relay_until_stop [OF assms(11)])
       (use assms(2,8,13,14) nodes ch wf in \<open>simp_all add: any_table.add_keeps\<close>)
  with w1 w'(2) show ?thesis by auto
qed

theorem pipeline_end_to_end_witness:
  "\<exists>mg' w' w1 w2. Connect ''id'' 0 1 True NodeManager_new two_nodes = Inr (True, mg', w') \<and>
     dispatch_all 0 ([msg_with TYPE_DATA SIGNAL_NONE 3, msg_with TYPE_DATA SIGNAL_NONE 4] @
                     [msg_with TYPE_SIGNAL SIGNAL_STOP 0]) w' = done_act w1 \<and>
     work_loop 4 (HandlerRelaying log_handler 1 0) 1 w1 = Dispatch 1 (Some (msg_with TYPE_SIGNAL SIGNAL_STOP 0)) w2 \<and>
     w_ext w2 = [msg_with TYPE_DATA SIGNAL_NONE 3, msg_with TYPE_DATA SIGNAL_NONE 4]"
proof -
  have n: "length (w_nodes two_nodes) = 2" "w_nodes two_nodes ! 0 = Node_new NODE_SOURCE ''src''"
      "w_nodes two_nodes ! 1 = (Node_new NODE_SINK ''sink'')\<lparr>n_is_stop := False\<rparr>"
      "length (w_chans two_nodes) = 0" "w_ext two_nodes = []"
    by (simp_all add: two_nodes_def)
  obtain mg' w' where c: "Connect ''id'' 0 1 True NodeManager_new two_nodes = Inr (True, mg', w')"
    using Connect_unlinked [of 0 two_nodes 1 "''id''" True NodeManager_new] n
    by (auto simp: Node_new_def side_def Connect_fresh_eq Let_def)
  let ?ms = "[msg_with TYPE_DATA SIGNAL_NONE 3, msg_with TYPE_DATA SIGNAL_NONE 4]"
  let ?s = "msg_with TYPE_SIGNAL SIGNAL_STOP 0"
  have "\<exists>w1 w2. dispatch_all 0 (?ms @ [?s]) w' = done_act w1 \<and>
     work_loop (length ?ms + 2) (HandlerRelaying log_handler 1 0) 1 w1 = Dispatch 1 (Some ?s) w2 \<and>
     w_ext w2 = fold (\<lambda>m log. log @ [m]) ?ms (w_ext two_nodes) \<and> n_is_stop (w_nodes w2 ! 1) \<and> pending (w_chans w2 ! 0) = []"
    by (rule pipeline_end_to_end [OF _ _ _ _ _ _ _ _ c _ log_handler_ok])
       (use n in \<open>simp_all add: Node_new_def side_def msg_with_def blank_msg_def\<close>)
  with c n(5) show ?thesis by (auto simp: numeral_eq_Suc)
qed

end
